(* ===== verification/Prelude.thy ===== *)
theory Prelude
  imports Main "HOL-Library.Word"
begin

text \<open>
  What the components share: the names of the machine types, the named collections of rewrite
  rules, and generic lemmas on lists, maps and words.

  Conventions of the whole development. A \<open>std::string\<close>, a \<open>std::vector<std::byte>\<close> and a
  \<open>std::span<const std::byte>\<close> are all sequences of octets: they are lists of \<^typ>\<open>char\<close>
  (an 8-bit type in HOL). Unsigned fields whose width matters are words; \<open>size_t\<close> counters that
  only count elements or bytes in memory are \<^typ>\<open>nat\<close>, with the invariants showing that no
  subtraction on them ever goes below zero. Time points and durations are \<^typ>\<open>int\<close>
  nanoseconds or milliseconds, as named at each use.
\<close>

section \<open>Names of the machine types\<close>

type_synonym u8 = "8 word"
type_synonym u16 = "16 word"
type_synonym u32 = "32 word"
type_synonym u64 = "64 word"
type_synonym byte = char
type_synonym bytes = "char list"
type_synonym NodeId = string
type_synonym Key = string
type_synonym Version = u64

section \<open>Collections of rewrite rules\<close>

named_theorems codec_simps \<open>reading back what was just written\<close>
named_theorems store_simps \<open>effect of a store operation on each part of the state\<close>
named_theorems wheel_simps \<open>effect of a timer-wheel operation on each part of the state\<close>

section \<open>Lists\<close>

lemma sum_list_remove1:
  fixes f :: "'a \<Rightarrow> nat"
  assumes "x \<in> set xs"
  shows "sum_list (map f xs) = f x + sum_list (map f (remove1 x xs))"
  using assms by (induction xs) auto

lemma take_drop_append_exact [simp]:
  "length xs = n \<Longrightarrow> take n (xs @ ys) = xs" "length xs = n \<Longrightarrow> drop n (xs @ ys) = ys"
  by auto

section \<open>Unsigned words\<close>

lemma unat_lt_u8 [simp]: "unat (w :: u8) < 256"
  using unsigned_less [of w, where ?'a = nat] by simp

lemma unat_lt_u16 [simp]: "unat (w :: u16) < 65536"
  using unsigned_less [of w, where ?'a = nat] by simp

lemma unat_lt_u32 [simp]: "unat (w :: u32) < 4294967296"
  using unsigned_less [of w, where ?'a = nat] by simp

lemma unat_lt_u64 [simp]: "unat (w :: u64) < 18446744073709551616"
  using unsigned_less [of w, where ?'a = nat] by simp

end
