(* ===== verification/Fanout.thy ===== *)
theory Fanout
  imports Prelude
begin

text \<open>
  The single-consumer quorum fan-out (\<open>include/cinder/node/fanout.hpp\<close>). The order in which the transport
  reports is arbitrary, so a run takes the sequence of reports as it happens, duplicates and all; the inline
  drain and the detached tail consume one queue and are one fold over it. The caller's closures act on a
  state \<open>'s\<close>. The exception path of the coroutine is not part of the model.
\<close>

section \<open>Model\<close>

record 's FanOutDrain =
  fo_fired :: bool
  fo_seen :: nat
  fo_delivered :: "bool list"
  fo_state :: 's

definition fanStep :: "nat \<Rightarrow> (nat \<Rightarrow> 'r \<Rightarrow> bool \<Rightarrow> 's \<Rightarrow> 's) \<Rightarrow> ('s \<Rightarrow> bool) \<Rightarrow> ('s \<Rightarrow> 's) \<Rightarrow> nat \<times> 'r \<Rightarrow> 's FanOutDrain \<Rightarrow> 's FanOutDrain" where
  "fanStep n on_each should_fire fire report d =
     (case report of (i, r) \<Rightarrow>
        if i < n \<and> \<not> fo_delivered d ! i then
          let d = d\<lparr>fo_delivered := (fo_delivered d)[i := True], fo_seen := fo_seen d + 1,
                    fo_state := on_each i r (\<not> fo_fired d) (fo_state d)\<rparr>
          in if \<not> fo_fired d \<and> should_fire (fo_state d) then d\<lparr>fo_fired := True, fo_state := fire (fo_state d)\<rparr> else d
        else d)"

definition fanOutQuorum :: "nat \<Rightarrow> (nat \<Rightarrow> 'r \<Rightarrow> bool \<Rightarrow> 's \<Rightarrow> 's) \<Rightarrow> ('s \<Rightarrow> bool) \<Rightarrow> ('s \<Rightarrow> 's) \<Rightarrow> (nat \<times> 'r) list \<Rightarrow> 's \<Rightarrow> 's FanOutDrain" where
  "fanOutQuorum n on_each should_fire fire reports s =
     fold (fanStep n on_each should_fire fire) reports
       \<lparr>fo_fired = False, fo_seen = 0, fo_delivered = replicate n False, fo_state = s\<rparr>"

section \<open>Bookkeeping\<close>

text \<open>The targets that have reported.\<close>

definition heard :: "nat \<Rightarrow> (nat \<times> 'r) list \<Rightarrow> nat set" where
  "heard n reports = {i. i < n \<and> i \<in> fst ` set reports}"

lemma heard_snoc: "heard n (rs @ [(i, r)]) = (if i < n then insert i (heard n rs) else heard n rs)"
  by (auto simp: heard_def)

lemma finite_heard [simp]: "finite (heard n rs)"
  by (simp add: heard_def)

lemma card_heard: "card (heard n rs) \<le> n"
  using card_mono [of "{..<n}" "heard n rs"] by (auto simp: heard_def)

lemma fan_snoc: "fanOutQuorum n oe sf fr (rs @ [x]) s = fanStep n oe sf fr x (fanOutQuorum n oe sf fr rs s)"
  by (simp add: fanOutQuorum_def)

lemma fan_delivered:
  "length (fo_delivered (fanOutQuorum n oe sf fr rs s)) = n
   \<and> (\<forall>i < n. fo_delivered (fanOutQuorum n oe sf fr rs s) ! i \<longleftrightarrow> i \<in> heard n rs)
   \<and> fo_seen (fanOutQuorum n oe sf fr rs s) = card (heard n rs)"
proof (induction rs rule: rev_induct)
  case Nil
  then show ?case by (simp add: fanOutQuorum_def heard_def)
next
  case (snoc x rs)
  obtain i r where x: "x = (i, r)" by fastforce
  let ?d = "fanOutQuorum n oe sf fr rs s"
  show ?case
  proof (cases "i < n \<and> \<not> fo_delivered ?d ! i")
    case True
    then have "i \<notin> heard n rs" using snoc by blast
    then show ?thesis using True snoc by (auto simp: x fan_snoc fanStep_def Let_def heard_snoc nth_list_update)
  next
    case False
    then have "heard n (rs @ [x]) = heard n rs" using snoc by (auto simp: x heard_snoc)
    moreover have "fanStep n oe sf fr x ?d = ?d" using False by (auto simp: x fanStep_def)
    ultimately show ?thesis using snoc by (simp add: fan_snoc)
  qed
qed

text \<open>One step on a run: either the report is dropped, or it is the first of its target.\<close>

lemma fan_step_cases:
  assumes d_def: "d = fanOutQuorum n oe sf fr rs s" and d'_def: "d' = fanOutQuorum n oe sf fr (rs @ [(i, r)]) s"
  obtains (dropped) "d' = d" "heard n (rs @ [(i, r)]) = heard n rs" "\<not> i < n \<or> i \<in> heard n rs"
  | (taken) "i < n" "i \<notin> heard n rs" "card (heard n (rs @ [(i, r)])) = Suc (card (heard n rs))"
      "fo_fired d' = (fo_fired d \<or> sf (oe i r (\<not> fo_fired d) (fo_state d)))"
      "fo_state d' = (if \<not> fo_fired d \<and> sf (oe i r True (fo_state d)) then fr (oe i r True (fo_state d)) else oe i r (\<not> fo_fired d) (fo_state d))"
proof (cases "i < n \<and> \<not> fo_delivered d ! i")
  case True
  then have new: "i \<notin> heard n rs" using fan_delivered [of n oe sf fr rs s] d_def by blast
  have step: "d' = fanStep n oe sf fr (i, r) d" by (simp add: d'_def d_def fan_snoc)
  have "fo_fired d' = (fo_fired d \<or> sf (oe i r (\<not> fo_fired d) (fo_state d)))"
    using True by (cases "fo_fired d") (simp_all add: step fanStep_def Let_def)
  moreover have "fo_state d' = (if \<not> fo_fired d \<and> sf (oe i r True (fo_state d)) then fr (oe i r True (fo_state d))
      else oe i r (\<not> fo_fired d) (fo_state d))"
    using True by (cases "fo_fired d") (simp_all add: step fanStep_def Let_def)
  moreover have "card (heard n (rs @ [(i, r)])) = Suc (card (heard n rs))" using True new by (simp add: heard_snoc)
  ultimately show ?thesis using that(2) True new by blast
next
  case False
  then have old: "\<not> i < n \<or> i \<in> heard n rs" using fan_delivered [of n oe sf fr rs s] d_def by blast
  have "fanStep n oe sf fr (i, r) d = d" using False by (auto simp: fanStep_def)
  then have "d' = d" by (simp add: d'_def d_def fan_snoc)
  moreover have "heard n (rs @ [(i, r)]) = heard n rs" using old by (auto simp: heard_snoc)
  ultimately show ?thesis using that(1) old by blast
qed

text \<open>The targets whose first report satisfies a predicate.\<close>

definition firstWith :: "('r \<Rightarrow> bool) \<Rightarrow> nat \<Rightarrow> (nat \<times> 'r) list \<Rightarrow> nat set" where
  "firstWith P n reports = {i. i < n \<and> (\<exists>r. map_of reports i = Some r \<and> P r)}"

lemma finite_firstWith [simp]: "finite (firstWith P n rs)"
  by (simp add: firstWith_def)

lemma firstWith_heard: "firstWith P n rs \<subseteq> heard n rs"
  by (force simp: firstWith_def heard_def dest: map_of_SomeD)

lemma firstWith_Nil [simp]: "firstWith P n [] = {}"
  by (simp add: firstWith_def)

lemma firstWith_dropped:
  assumes "\<not> i < n \<or> i \<in> heard n rs"
  shows "firstWith P n (rs @ [(i, r)]) = firstWith P n rs"
proof -
  have "map_of (rs @ [(i, r)]) j = map_of rs j" if "j < n" for j
  proof (cases "j = i")
    case True
    then have "i \<in> fst ` set rs" using assms that by (auto simp: heard_def)
    then obtain x where "map_of rs i = Some x" by (metis map_of_eq_None_iff option.exhaust)
    then show ?thesis using True by (simp add: map_add_def)
  next
    case False
    then show ?thesis by (simp add: map_add_def split: option.split)
  qed
  then show ?thesis unfolding firstWith_def by (auto simp del: map_of_append)
qed

lemma firstWith_taken:
  assumes "i < n" "i \<notin> heard n rs"
  shows "firstWith P n (rs @ [(i, r)]) = (if P r then insert i (firstWith P n rs) else firstWith P n rs)" "i \<notin> firstWith P n rs"
proof -
  have none: "map_of rs i = None" using assms by (auto simp: heard_def map_of_eq_None_iff)
  show "i \<notin> firstWith P n rs" using assms(2) firstWith_heard by blast
  have "map_of (rs @ [(i, r)]) j = (if j = i then Some r else map_of rs j)" for j
    using none by (simp add: map_add_def split: option.split)
  then show "firstWith P n (rs @ [(i, r)]) = (if P r then insert i (firstWith P n rs) else firstWith P n rs)"
    using assms(1) none by (auto simp: firstWith_def simp del: map_of_append split: if_splits)
qed

section \<open>What a client must provide, and what it gets\<close>

text \<open>
  A client counts its outstanding targets down on every active report, decides at the latest when none is
  outstanding, and completes once per decision. Then it completes at most once whatever the transport
  does, and exactly once when every target has reported.
\<close>

locale fan_out_client =
  fixes on_each :: "nat \<Rightarrow> 'r \<Rightarrow> bool \<Rightarrow> 's \<Rightarrow> 's" and should_fire :: "'s \<Rightarrow> bool" and fire :: "'s \<Rightarrow> 's"
    and pending :: "'s \<Rightarrow> nat" and completions :: "'s \<Rightarrow> nat"
  assumes counts: "pending s > 0 \<Longrightarrow> pending (on_each i r True s) = pending s - 1"
    and silent: "completions (on_each i r active s) = completions s"
    and completes: "completions (fire s) = completions s + 1"
    and drained: "pending s = 0 \<Longrightarrow> should_fire s"
begin

lemma once:
  "completions (fo_state (fanOutQuorum n on_each should_fire fire rs s))
    = completions s + (if fo_fired (fanOutQuorum n on_each should_fire fire rs s) then 1 else 0)"
proof (induction rs rule: rev_induct)
  case Nil
  then show ?case by (simp add: fanOutQuorum_def)
next
  case (snoc x rs)
  obtain i r where x: "x = (i, r)" by fastforce
  show ?case unfolding x
    by (cases rule: fan_step_cases [OF refl refl, where n = n and oe = on_each and sf = should_fire and fr = fire and rs = rs and s = s and i = i and r = r, case_names dropped taken])
      (use snoc in \<open>auto simp: silent completes split: if_splits\<close>)
qed

lemma undecided:
  assumes "pending s = n" "\<not> fo_fired (fanOutQuorum n on_each should_fire fire rs s)"
  shows "pending (fo_state (fanOutQuorum n on_each should_fire fire rs s)) = n - card (heard n rs)"
  using assms(2)
proof (induction rs rule: rev_induct)
  case Nil
  then show ?case using assms(1) by (simp add: fanOutQuorum_def heard_def)
next
  case (snoc x rs)
  obtain i r where x: "x = (i, r)" by fastforce
  show ?case
  proof (cases rule: fan_step_cases [OF refl refl, where n = n and oe = on_each and sf = should_fire and fr = fire and rs = rs and s = s and i = i and r = r, case_names dropped taken])
    case dropped
    then show ?thesis using snoc by (simp add: x)
  next
    case taken
    then have nf: "\<not> fo_fired (fanOutQuorum n on_each should_fire fire rs s)"
      "\<not> should_fire (on_each i r True (fo_state (fanOutQuorum n on_each should_fire fire rs s)))"
      using snoc.prems x by auto
    then have ih: "pending (fo_state (fanOutQuorum n on_each should_fire fire rs s)) = n - card (heard n rs)" using snoc.IH by blast
    have "card (heard n rs) < n" using taken(3) card_heard [of n "rs @ [(i, r)]"] by simp
    then show ?thesis using taken nf ih counts by (simp add: x)
  qed
qed

lemma all_heard:
  assumes "pending s = n" "0 < n" "heard n rs = {..<n}"
  shows "fo_fired (fanOutQuorum n on_each should_fire fire rs s)"
proof (rule ccontr)
  assume nf: "\<not> fo_fired (fanOutQuorum n on_each should_fire fire rs s)"
  have "\<not> fo_fired (fanOutQuorum n on_each should_fire fire rs s) \<Longrightarrow> heard n rs \<noteq> {} \<Longrightarrow>
      \<not> should_fire (fo_state (fanOutQuorum n on_each should_fire fire rs s))" for rs
  proof (induction rs rule: rev_induct)
    case (snoc x rs)
    obtain i r where x: "x = (i, r)" by fastforce
    show ?case unfolding x
      by (cases rule: fan_step_cases [OF refl refl, where n = n and oe = on_each and sf = should_fire and fr = fire and rs = rs and s = s and i = i and r = r, case_names dropped taken])
        (use snoc x in auto)
  qed (simp add: heard_def)
  moreover have "pending (fo_state (fanOutQuorum n on_each should_fire fire rs s)) = 0"
    using undecided [OF assms(1) nf] assms(3) by simp
  ultimately show False using drained nf assms(2,3) by blast
qed

end

end
