(* ===== verification/CinderTypes.thy ===== *)
theory CinderTypes
  imports Prelude
begin

text \<open>
  The shared value types of \<open>include/cinder/common/types.hpp\<close> and \<open>status.hpp\<close>: error codes,
  the bit-packed versioned entry, and the last-writer-wins order every convergence path of the
  system uses (store apply, quorum read, read repair, anti-entropy, hint coalescing).
\<close>

unbundle bit_operations_syntax

section \<open>Errors (status.hpp)\<close>

datatype Errc =
    OK
  | NotFound
  | CapacityExceeded
  | InvalidArgument
  | TtlExpired
  | NotSupported
  | InternalError
  | Timeout
  | NotReady
  | PermissionDenied
  | CorruptData

text \<open>
  An error carries a code, a message truncated to the 47 characters that fit the inline buffer,
  and optionally the error it wraps. The source location is a diagnostic and is left out.
\<close>

datatype Error = MkError (code: Errc) (message: string) (cause: "Error option")

definition mkError :: "Errc \<Rightarrow> string \<Rightarrow> Error" where
  "mkError c msg = MkError c (take 47 msg) None"

definition wrap :: "Error \<Rightarrow> Errc \<Rightarrow> string \<Rightarrow> Error" where
  "wrap e c msg = MkError c (take 47 msg) (Some e)"

definition asRetryable :: "Error \<Rightarrow> string \<Rightarrow> Error" where
  "asRetryable e context_msg = wrap e NotReady context_msg"

type_synonym 'a Result = "Error + 'a"

section \<open>The versioned entry (types.hpp)\<close>

record VersionedEntry =
  version_and_ttl :: u64
  expires_at :: int
  writer_node_hash :: u64
  ve_value :: bytes

definition emptyEntry :: VersionedEntry where
  "emptyEntry = \<lparr>version_and_ttl = 0, expires_at = 0, writer_node_hash = 0, ve_value = []\<rparr>"

definition version :: "VersionedEntry \<Rightarrow> Version" where
  "version e = drop_bit 2 (version_and_ttl e)"

definition hasTtl :: "VersionedEntry \<Rightarrow> bool" where
  "hasTtl e \<longleftrightarrow> version_and_ttl e AND 1 \<noteq> 0"

definition isTombstone :: "VersionedEntry \<Rightarrow> bool" where
  "isTombstone e \<longleftrightarrow> version_and_ttl e AND 2 \<noteq> 0"

definition setVersion :: "Version \<Rightarrow> VersionedEntry \<Rightarrow> VersionedEntry" where
  "setVersion v e = e\<lparr>version_and_ttl := push_bit 2 v OR (version_and_ttl e AND 3)\<rparr>"

definition setHasTtl :: "bool \<Rightarrow> VersionedEntry \<Rightarrow> VersionedEntry" where
  "setHasTtl ttl e =
     e\<lparr>version_and_ttl := (version_and_ttl e AND NOT 1) OR (if ttl then 1 else 0)\<rparr>"

definition setVersionAndTtl :: "Version \<Rightarrow> bool \<Rightarrow> VersionedEntry \<Rightarrow> VersionedEntry" where
  "setVersionAndTtl v ttl e = e\<lparr>version_and_ttl := push_bit 2 v OR (if ttl then 1 else 0)\<rparr>"

definition setTombstone :: "bool \<Rightarrow> VersionedEntry \<Rightarrow> VersionedEntry" where
  "setTombstone tomb e =
     e\<lparr>version_and_ttl := (version_and_ttl e AND NOT 2) OR (if tomb then 2 else 0)\<rparr>"

lemma and_numeral_bits:
  "(w :: u64) AND 1 = 0 \<longleftrightarrow> \<not> bit w 0"
  "(w :: u64) AND 2 = 0 \<longleftrightarrow> \<not> bit w 1"
  using and_exp_eq_0_iff_not_bit [of w 0] and_exp_eq_0_iff_not_bit [of w 1] by simp_all

lemma numeral_word_bits:
  "bit (3 :: u64) n \<longleftrightarrow> n < 2"
  "bit (1 :: u64) n \<longleftrightarrow> n = 0"
  "bit (2 :: u64) n \<longleftrightarrow> n = 1"
proof -
  have "bit (mask 2 :: u64) n \<longleftrightarrow> n < 2"
    by (simp only: bit_mask_iff) auto
  moreover have "mask 2 = (3 :: u64)" by (simp add: mask_eq_exp_minus_1)
  ultimately show "bit (3 :: u64) n \<longleftrightarrow> n < 2" by simp
  show "bit (1 :: u64) n \<longleftrightarrow> n = 0" by (simp add: bit_1_iff)
  show "bit (2 :: u64) n \<longleftrightarrow> n = 1" by (auto simp: bit_2_iff)
qed

lemma bit_version: "bit (version e) n \<longleftrightarrow> bit (version_and_ttl e) (n + 2)"
  by (simp add: version_def bit_drop_bit_eq add.commute)

lemmas entry_bit_defs = version_def hasTtl_def isTombstone_def setVersion_def setHasTtl_def
  setVersionAndTtl_def setTombstone_def and_numeral_bits

lemma version_setVersion: "version (setVersion v e) = take_bit 62 v"
  by (rule bit_word_eqI) (auto simp: entry_bit_defs bit_simps numeral_word_bits)

lemma flags_setVersion [simp]:
  "hasTtl (setVersion v e) = hasTtl e" "isTombstone (setVersion v e) = isTombstone e"
  by (auto simp: entry_bit_defs bit_simps numeral_word_bits)

lemma hasTtl_setHasTtl [simp]:
  "hasTtl (setHasTtl b e) = b" "isTombstone (setHasTtl b e) = isTombstone e"
  by (auto simp: entry_bit_defs bit_simps numeral_word_bits)

lemma isTombstone_setTombstone [simp]:
  "isTombstone (setTombstone b e) = b" "hasTtl (setTombstone b e) = hasTtl e"
  by (auto simp: entry_bit_defs bit_simps numeral_word_bits)

lemma version_setFlags [simp]:
  "version (setHasTtl b e) = version e" "version (setTombstone b e) = version e"
proof -
  show "version (setHasTtl b e) = version e"
    by (rule bit_word_eqI)
      (auto simp: bit_version setHasTtl_def bit_simps numeral_word_bits dest: bit_imp_le_length)
  show "version (setTombstone b e) = version e"
    by (rule bit_word_eqI)
      (auto simp: bit_version setTombstone_def bit_simps numeral_word_bits
        dest: bit_imp_le_length)
qed

lemma setters_frame [simp]:
  "ve_value (setVersion v e) = ve_value e" "ve_value (setHasTtl b e) = ve_value e"
  "ve_value (setTombstone t e) = ve_value e"
  "writer_node_hash (setVersion v e) = writer_node_hash e"
  "writer_node_hash (setHasTtl b e) = writer_node_hash e"
  "writer_node_hash (setTombstone t e) = writer_node_hash e"
  "expires_at (setVersion v e) = expires_at e" "expires_at (setHasTtl b e) = expires_at e"
  "expires_at (setTombstone t e) = expires_at e"
  by (simp_all add: setVersion_def setHasTtl_def setTombstone_def)

section \<open>The last-writer-wins order\<close>

record LwwStamp =
  st_version :: Version
  st_writer :: u64
  st_tombstone :: bool

datatype LwwOrder = Less | Equal | Greater

definition compareLww :: "LwwStamp \<Rightarrow> LwwStamp \<Rightarrow> LwwOrder" where
  "compareLww a b =
     (if st_version a \<noteq> st_version b then
        (if st_version a < st_version b then Less else Greater)
      else if st_writer a \<noteq> st_writer b then
        (if st_writer a < st_writer b then Less else Greater)
      else if st_tombstone a \<noteq> st_tombstone b then
        (if st_tombstone a then Greater else Less)
      else Equal)"

definition lwwWinsOver :: "LwwStamp \<Rightarrow> LwwStamp \<Rightarrow> bool" where
  "lwwWinsOver incoming resident \<longleftrightarrow> compareLww incoming resident = Greater"

definition lwwCovers :: "LwwStamp \<Rightarrow> LwwStamp \<Rightarrow> bool" where
  "lwwCovers incoming resident \<longleftrightarrow> compareLww incoming resident \<noteq> Less"

definition stampOf :: "VersionedEntry \<Rightarrow> LwwStamp" where
  "stampOf e = \<lparr>st_version = version e, st_writer = writer_node_hash e,
                st_tombstone = isTombstone e\<rparr>"

text \<open>
  The comparison is the lexicographic order of the three fields. As an instance of the library's
  linear orders, its consequences (maxima, transitivity, totality) come from the library.
\<close>

instantiation LwwStamp_ext :: (linorder) linorder
begin

definition less_eq_LwwStamp_ext :: "'a LwwStamp_scheme \<Rightarrow> 'a LwwStamp_scheme \<Rightarrow> bool" where
  "less_eq_LwwStamp_ext a b \<longleftrightarrow>
     st_version a < st_version b \<or> st_version a = st_version b \<and>
     (st_writer a < st_writer b \<or> st_writer a = st_writer b \<and>
      (st_tombstone a < st_tombstone b \<or> st_tombstone a = st_tombstone b \<and>
       LwwStamp.more a \<le> LwwStamp.more b))"

definition less_LwwStamp_ext :: "'a LwwStamp_scheme \<Rightarrow> 'a LwwStamp_scheme \<Rightarrow> bool" where
  "less_LwwStamp_ext a b \<longleftrightarrow> a \<le> b \<and> \<not> b \<le> a"

instance
  by standard (auto simp: less_eq_LwwStamp_ext_def less_LwwStamp_ext_def)

end

lemma compareLww_cases:
  "compareLww a b = (if a < b then Less else if a = b then Equal else Greater)"
  by (cases a; cases b; auto simp: compareLww_def less_LwwStamp_ext_def less_eq_LwwStamp_ext_def)

lemma lwwWinsOver_less: "lwwWinsOver a b \<longleftrightarrow> b < a"
  by (auto simp: lwwWinsOver_def compareLww_cases)

lemma lwwCovers_le: "lwwCovers a b \<longleftrightarrow> b \<le> a"
  by (auto simp: lwwCovers_def compareLww_cases)

section \<open>The contract of a last-writer-wins register\<close>

text \<open>
  Every place that resolves a conflict keeps one of the two candidates, and its stamp is the
  larger of the two stamps. What follows from that alone: the final stamp is the maximum of
  everything delivered, whatever the order and the duplication of the deliveries.
\<close>

locale lww_register =
  fixes stamp :: "'e \<Rightarrow> LwwStamp"
    and pick :: "'e \<Rightarrow> 'e \<Rightarrow> 'e"
  assumes pick_stamp: "stamp (pick resident incoming) = max (stamp resident) (stamp incoming)"
    and pick_either: "pick resident incoming = resident \<or> pick resident incoming = incoming"
begin

lemma fold_pick_stamp:
  "stamp (fold (\<lambda>i r. pick r i) ins r) = Max (insert (stamp r) (stamp ` set ins))"
proof (induction ins arbitrary: r)
  case Nil
  show ?case by simp
next
  case (Cons i ins)
  have "stamp (fold (\<lambda>i r. pick r i) ins (pick r i))
      = Max (insert (max (stamp r) (stamp i)) (stamp ` set ins))"
    by (simp only: Cons.IH pick_stamp)
  also have "\<dots> = Max (insert (stamp r) (stamp ` set (i # ins)))"
  proof (cases "set ins = {}")
    case True
    then show ?thesis by simp
  next
    case False
    then show ?thesis by (simp add: max.assoc)
  qed
  finally show ?case by simp
qed

lemma fold_pick_mem: "fold (\<lambda>i r. pick r i) ins r \<in> insert r (set ins)"
proof (induction ins arbitrary: r)
  case Nil
  show ?case by simp
next
  case (Cons i ins)
  from Cons.IH [of "pick r i"] pick_either [of r i] show ?case by auto
qed

lemma fold_pick_order_independent:
  assumes "set ins = set ins'"
  shows "stamp (fold (\<lambda>i r. pick r i) ins r) = stamp (fold (\<lambda>i r. pick r i) ins' r)"
  by (simp add: fold_pick_stamp assms)

lemma fold_pick_converge:
  assumes "set ins = set ins'" and "inj_on stamp (insert r (set ins))"
  shows "fold (\<lambda>i r. pick r i) ins r = fold (\<lambda>i r. pick r i) ins' r"
  by (rule inj_onD [OF assms(2) fold_pick_order_independent [OF assms(1)]])
    (use fold_pick_mem assms(1) in fastforce)+

end

text \<open>The three decisions of the code, each as a choice between resident and incoming.\<close>

definition applyChoice :: "VersionedEntry \<Rightarrow> VersionedEntry \<Rightarrow> VersionedEntry" where
  "applyChoice resident incoming =
     (if compareLww (stampOf incoming) (stampOf resident) = Less then resident else incoming)"

definition winsChoice :: "VersionedEntry \<Rightarrow> VersionedEntry \<Rightarrow> VersionedEntry" where
  "winsChoice resident incoming =
     (if lwwWinsOver (stampOf incoming) (stampOf resident) then incoming else resident)"

interpretation apply_reg: lww_register stampOf applyChoice
  by unfold_locales (auto simp: applyChoice_def compareLww_cases max_def)

interpretation wins_reg: lww_register stampOf winsChoice
  by unfold_locales (auto simp: winsChoice_def lwwWinsOver_less max_def)

section \<open>Properties\<close>

definition writeAtVersion :: "nat \<Rightarrow> VersionedEntry" where
  "writeAtVersion v = setVersionAndTtl (word_of_nat v) False emptyEntry"



text \<open>
  The packed version word: setting the version keeps both flag bits and stores the version
  modulo 2 to the 62; setting a flag keeps the version and the other flag.
\<close>

theorem packed_version_fields:
  "version (setVersion v e) = take_bit 62 v \<and> hasTtl (setVersion v e) = hasTtl e
   \<and> isTombstone (setVersion v e) = isTombstone e
   \<and> version (setHasTtl b e) = version e \<and> hasTtl (setHasTtl b e) = b
   \<and> isTombstone (setHasTtl b e) = isTombstone e
   \<and> version (setTombstone b e) = version e \<and> isTombstone (setTombstone b e) = b
   \<and> hasTtl (setTombstone b e) = hasTtl e"
  by (simp add: version_setVersion)

end
