(* ===== verification/Bytes.thy ===== *)
theory Bytes
  imports CinderTypes
begin

text \<open>
  Byte-level input and output: the big-endian wire reader and writer
  (\<open>include/cinder/net/byte_reader.hpp\<close>, \<open>byte_writer.hpp\<close>) and the little-endian buffer reader
  and writer of the on-disk formats (\<open>include/cinder/store/detail/io_utils.hpp\<close>). The layout of
  an integer field is the contract \<open>field_codec\<close>; each width and byte order interprets it once.
\<close>

section \<open>Integers as octets\<close>

fun le_bytes :: "nat \<Rightarrow> nat \<Rightarrow> bytes" where
  "le_bytes 0 v = []"
| "le_bytes (Suc n) v = char_of (v mod 256) # le_bytes n (v div 256)"

fun le_val :: "bytes \<Rightarrow> nat" where
  "le_val [] = 0"
| "le_val (c # cs) = of_char c + 256 * le_val cs"

lemma length_le_bytes [simp]: "length (le_bytes n v) = n"
  by (induction n arbitrary: v) auto

lemma le_val_le_bytes [simp]: "le_val (le_bytes n v) = v mod 256 ^ n"
proof (induction n arbitrary: v)
  case 0
  show ?case by simp
next
  case (Suc n)
  have "le_val (le_bytes (Suc n) v) = v mod 256 + 256 * (v div 256 mod 256 ^ n)"
    by (simp add: Suc.IH)
  also have "\<dots> = v mod (256 * 256 ^ n)"
    by (simp add: mod_mult2_eq)
  finally show ?case by simp
qed

lemma le_val_bound: "le_val bs < 256 ^ length bs"
proof (induction bs)
  case Nil
  show ?case by simp
next
  case (Cons c cs)
  have "of_char c < (256 :: nat)"
    by simp
  moreover from Cons.IH have "256 * Suc (le_val cs) \<le> 256 * 256 ^ length cs"
    by (simp only: mult_le_mono2 Suc_leI)
  then have "256 + 256 * le_val cs \<le> 256 * 256 ^ length cs"
    by (simp only: mult_Suc_right)
  ultimately have "of_char c + 256 * le_val cs < 256 * 256 ^ length cs"
    by linarith
  then show ?case by simp
qed

lemma le_bytes_le_val [simp]: "le_bytes (length bs) (le_val bs) = bs"
proof (induction bs)
  case Nil
  show ?case by simp
next
  case (Cons c cs)
  have c: "of_char c < (256 :: nat)" by simp
  then have "(of_char c + 256 * le_val cs) mod 256 = (of_char c :: nat)"
    and "(of_char c + 256 * le_val cs) div 256 = le_val cs" by simp_all
  with Cons.IH show ?case by simp
qed

text \<open>
  \<open>std::byteswap\<close> followed by \<open>memcpy\<close> on the little-endian host is the big-endian layout; a plain
  \<open>memcpy\<close> is the little-endian one.
\<close>

definition beBytes :: "'a::len word \<Rightarrow> bytes" where
  "beBytes w = rev (le_bytes (LENGTH('a) div 8) (unat w))"

definition beWord :: "bytes \<Rightarrow> 'a::len word" where
  "beWord bs = word_of_nat (le_val (rev bs))"

definition leBytes :: "'a::len word \<Rightarrow> bytes" where
  "leBytes w = le_bytes (LENGTH('a) div 8) (unat w)"

definition leWord :: "bytes \<Rightarrow> 'a::len word" where
  "leWord bs = word_of_nat (le_val bs)"

lemma unat_mod_bytes:
  assumes "8 dvd LENGTH('a::len)"
  shows "unat (w :: 'a word) mod 256 ^ (LENGTH('a) div 8) = unat w"
proof -
  have "(256 :: nat) ^ (LENGTH('a) div 8) = 2 ^ (8 * (LENGTH('a) div 8))"
    by (simp add: power_mult)
  also have "\<dots> = 2 ^ LENGTH('a)" using assms by simp
  finally show ?thesis
    using unsigned_less [of w, where ?'a = nat] by simp
qed

lemma le_val_word:
  assumes "8 dvd LENGTH('a::len)" "length bs = LENGTH('a) div 8"
  shows "le_bytes (LENGTH('a) div 8) (unat (word_of_nat (le_val bs) :: 'a word)) = bs"
proof -
  have "le_val bs < 256 ^ (LENGTH('a) div 8)"
    using le_val_bound [of bs] assms(2) by simp
  also have "(256 :: nat) ^ (LENGTH('a) div 8) = 2 ^ (8 * (LENGTH('a) div 8))"
    by (simp add: power_mult)
  also have "\<dots> = 2 ^ LENGTH('a)" using assms(1) by simp
  finally have "unat (word_of_nat (le_val bs) :: 'a word) = le_val bs"
    by (simp add: unat_of_nat)
  then show ?thesis using le_bytes_le_val [of bs] assms(2) by simp
qed

lemma be_roundtrip:
  assumes "8 dvd LENGTH('a::len)"
  shows "beWord (beBytes w) = (w :: 'a word)"
    and "length bs = LENGTH('a) div 8 \<Longrightarrow> beBytes (beWord bs :: 'a word) = bs"
    and "length (beBytes (w :: 'a word)) = LENGTH('a) div 8"
  using assms le_val_word [where ?'a = 'a, of "rev bs"]
  by (simp_all add: beBytes_def beWord_def unat_mod_bytes)

lemma le_roundtrip:
  assumes "8 dvd LENGTH('a::len)"
  shows "leWord (leBytes w) = (w :: 'a word)"
    and "length bs = LENGTH('a) div 8 \<Longrightarrow> leBytes (leWord bs :: 'a word) = bs"
    and "length (leBytes (w :: 'a word)) = LENGTH('a) div 8"
  using assms le_val_word [where ?'a = 'a, of bs]
  by (simp_all add: leBytes_def leWord_def unat_mod_bytes)

section \<open>The contract of a fixed-width field\<close>

record Reader =
  rd_data :: bytes
  rd_off :: nat

definition remaining :: "Reader \<Rightarrow> nat" where
  "remaining r = (if rd_off r \<le> length (rd_data r) then length (rd_data r) - rd_off r else 0)"

definition rest :: "Reader \<Rightarrow> bytes" where
  "rest r = drop (rd_off r) (rd_data r)"

definition adv :: "nat \<Rightarrow> Reader \<Rightarrow> Reader" where
  "adv n r = r\<lparr>rd_off := rd_off r + n\<rparr>"

lemma remaining_rest [simp]: "remaining r = length (rest r)"
  by (simp add: remaining_def rest_def)

lemma rest_adv [simp]: "rest (adv n r) = drop n (rest r)"
  by (simp add: rest_def adv_def add.commute)

lemma adv_simps [simp]: "adv 0 r = r" "adv m (adv n r) = adv (n + m) r"
  "rd_data (adv n r) = rd_data r" "rd_off (adv n r) = rd_off r + n"
  by (simp_all add: adv_def add.assoc)

subsection \<open>ByteReader (wire)\<close>

definition ByteReader :: "bytes \<Rightarrow> Reader" where
  "ByteReader d = \<lparr>rd_data = d, rd_off = 0\<rparr>"

definition truncated :: Error where
  "truncated = mkError InvalidArgument ''truncated''"

definition readT :: "nat \<Rightarrow> (bytes \<Rightarrow> 'a) \<Rightarrow> Reader \<Rightarrow> 'a Result \<times> Reader" where
  "readT w dec r =
     (if w > remaining r then (Inl truncated, r)
      else (Inr (dec (take w (drop (rd_off r) (rd_data r)))), adv w r))"

definition readByte :: "Reader \<Rightarrow> u8 Result \<times> Reader" where
  "readByte r =
     (if rd_off r \<ge> length (rd_data r) then (Inl truncated, r)
      else (Inr (word_of_nat (of_char (rd_data r ! rd_off r))), adv 1 r))"

definition readBytes :: "nat \<Rightarrow> Reader \<Rightarrow> bytes Result \<times> Reader" where
  "readBytes n r =
     (if n > remaining r then (Inl truncated, r)
      else (Inr (take n (drop (rd_off r) (rd_data r))), adv n r))"

definition readStringView :: "nat \<Rightarrow> Reader \<Rightarrow> bytes Result \<times> Reader" where
  "readStringView n r =
     (case readBytes n r of (Inl e, r') \<Rightarrow> (Inl e, r') | (Inr bs, r') \<Rightarrow> (Inr bs, r'))"

definition readString :: "nat \<Rightarrow> Reader \<Rightarrow> string Result \<times> Reader" where
  "readString n r =
     (case readStringView n r of (Inl e, r') \<Rightarrow> (Inl e, r') | (Inr bs, r') \<Rightarrow> (Inr bs, r'))"

definition read_u8 :: "Reader \<Rightarrow> u8 Result \<times> Reader" where
  "read_u8 = readT 1 beWord"

definition read_u32 :: "Reader \<Rightarrow> u32 Result \<times> Reader" where
  "read_u32 = readT 4 beWord"

definition read_u64 :: "Reader \<Rightarrow> u64 Result \<times> Reader" where
  "read_u64 = readT 8 beWord"

lemma readT_rest:
  "readT w dec r =
     (if w > length (rest r) then (Inl truncated, r) else (Inr (dec (take w (rest r))), adv w r))"
  by (simp add: readT_def rest_def)

lemma readBytes_rest [codec_simps]:
  "readBytes n r =
     (if n > length (rest r) then (Inl truncated, r) else (Inr (take n (rest r)), adv n r))"
  by (simp add: readBytes_def rest_def)

lemma readString_readBytes [codec_simps]:
  "readStringView n r = readBytes n r" "readString n r = readBytes n r"
  by (simp_all add: readString_def readStringView_def split: prod.splits sum.splits)

text \<open>
  Sequencing of reads: the first error ends the decoder, as the early returns of the source do.
\<close>

definition bindR ::
  "'a Result \<times> Reader \<Rightarrow> ('a \<Rightarrow> Reader \<Rightarrow> 'b Result) \<Rightarrow> 'b Result" where
  "bindR m k = (case m of (Inl e, _) \<Rightarrow> Inl e | (Inr a, r) \<Rightarrow> k a r)"

lemma bindR_simps [codec_simps]:
  "bindR (Inl e, r) k = Inl e" "bindR (Inr a, r) k = k a r"
  by (simp_all add: bindR_def)

subsection \<open>BufferReader (disk)\<close>

definition BufferReader :: "bytes \<Rightarrow> Reader" where
  "BufferReader d = \<lparr>rd_data = d, rd_off = 0\<rparr>"

definition bufRead :: "nat \<Rightarrow> (bytes \<Rightarrow> 'a) \<Rightarrow> Reader \<Rightarrow> 'a option \<times> Reader" where
  "bufRead w dec r =
     (if rd_off r + w > length (rd_data r) then (None, r)
      else (Some (dec (take w (drop (rd_off r) (rd_data r)))), adv w r))"

definition bufReadString :: "nat \<Rightarrow> Reader \<Rightarrow> bytes option \<times> Reader" where
  "bufReadString n r =
     (if n > length (rd_data r) - rd_off r then (None, r)
      else (Some (take n (drop (rd_off r) (rd_data r))), adv n r))"

definition tryView :: "nat \<Rightarrow> Reader \<Rightarrow> bytes option \<times> Reader" where
  "tryView n r =
     (if n > length (rd_data r) - rd_off r then (None, r)
      else (Some (take n (drop (rd_off r) (rd_data r))), adv n r))"

definition seek :: "nat \<Rightarrow> Reader \<Rightarrow> Reader" where
  "seek p r = r\<lparr>rd_off := min p (length (rd_data r))\<rparr>"

lemma bufRead_rest:
  assumes "rd_off r \<le> length (rd_data r)"
  shows "bufRead w dec r =
    (if w > length (rest r) then (None, r) else (Some (dec (take w (rest r))), adv w r))"
  using assms by (auto simp: bufRead_def rest_def)

lemma bufReadString_rest:
  "bufReadString n r =
     (if n > length (rest r) then (None, r) else (Some (take n (rest r)), adv n r))"
  by (simp add: bufReadString_def rest_def)

subsection \<open>Field codecs\<close>

locale field_codec =
  fixes enc :: "'a \<Rightarrow> bytes" and dec :: "bytes \<Rightarrow> 'a" and width :: nat
  assumes enc_length: "length (enc a) = width"
    and dec_enc: "dec (enc a) = a"
    and enc_dec: "length bs = width \<Longrightarrow> enc (dec bs) = bs"
begin

lemma readT_enc: "rest r = enc a @ xs \<Longrightarrow> readT width dec r = (Inr a, adv width r)"
  by (simp add: readT_rest enc_length dec_enc)

lemma bufRead_enc:
  assumes "rd_off r \<le> length (rd_data r)" "rest r = enc a @ xs"
  shows "bufRead width dec r = (Some a, adv width r)"
  using assms by (simp add: bufRead_rest enc_length dec_enc)

lemma drop_enc: "drop width (enc a @ xs) = xs"
  by (simp add: enc_length)

lemma enc_inject: "enc a = enc b \<longleftrightarrow> a = b"
  by (metis dec_enc)

lemma readT_inverse:
  assumes "readT width dec r = (Inr a, r')"
  shows "rest r = enc a @ rest r' \<and> rd_off r' = rd_off r + width"
  using assms by (auto simp: readT_rest enc_dec split: if_splits)

end

interpretation be8: field_codec "beBytes :: u8 \<Rightarrow> bytes" beWord 1
  by unfold_locales (simp_all add: be_roundtrip)

interpretation be32: field_codec "beBytes :: u32 \<Rightarrow> bytes" beWord 4
  by unfold_locales (simp_all add: be_roundtrip)

interpretation be64: field_codec "beBytes :: u64 \<Rightarrow> bytes" beWord 8
  by unfold_locales (simp_all add: be_roundtrip)

interpretation le8: field_codec "leBytes :: u8 \<Rightarrow> bytes" leWord 1
  by unfold_locales (simp_all add: le_roundtrip)

interpretation le32: field_codec "leBytes :: u32 \<Rightarrow> bytes" leWord 4
  by unfold_locales (simp_all add: le_roundtrip)

interpretation le64: field_codec "leBytes :: u64 \<Rightarrow> bytes" leWord 8
  by unfold_locales (simp_all add: le_roundtrip)

text \<open>
  What the decoders need to know about a reader that stands before an encoded field.
\<close>

lemma read_fields [codec_simps]:
  "rest r = beBytes (a8 :: u8) @ xs \<Longrightarrow> read_u8 r = (Inr a8, adv 1 r)"
  "rest r = beBytes (a32 :: u32) @ xs \<Longrightarrow> read_u32 r = (Inr a32, adv 4 r)"
  "rest r = beBytes (a64 :: u64) @ xs \<Longrightarrow> read_u64 r = (Inr a64, adv 8 r)"
  by (simp_all add: read_u8_def read_u32_def read_u64_def be8.readT_enc be32.readT_enc
      be64.readT_enc del: One_nat_def)

lemma length_fields [simp]:
  "length (beBytes (a8 :: u8)) = 1" "length (beBytes (a32 :: u32)) = 4"
  "length (beBytes (a64 :: u64)) = 8" "length (leBytes (a8 :: u8)) = 1"
  "length (leBytes (a32 :: u32)) = 4" "length (leBytes (a64 :: u64)) = 8"
  by (simp_all add: be_roundtrip le_roundtrip)

section \<open>ByteWriter and BufferWriter\<close>

text \<open>
  Both writers fill a buffer that the caller sized beforehand. The \<open>assert\<close> on overflow is a
  debug check, so the model writes at the offset as \<open>memcpy\<close> does; \<open>fits\<close> is what the assert
  checks, and the encoders' theorems show that it always holds.
\<close>

record Writer =
  wr_out :: bytes
  wr_off :: nat

definition ByteWriter :: "nat \<Rightarrow> Writer" where
  "ByteWriter n = \<lparr>wr_out = replicate n (CHR 0x00), wr_off = 0\<rparr>"

definition fits :: "nat \<Rightarrow> Writer \<Rightarrow> bool" where
  "fits n w \<longleftrightarrow> wr_off w + n \<le> length (wr_out w)"

definition writeBytes :: "bytes \<Rightarrow> Writer \<Rightarrow> Writer" where
  "writeBytes bs w =
     w\<lparr>wr_out := take (wr_off w) (wr_out w) @ bs @ drop (wr_off w + length bs) (wr_out w),
       wr_off := wr_off w + length bs\<rparr>"

definition writeT :: "'a::len word \<Rightarrow> Writer \<Rightarrow> Writer" where
  "writeT v = writeBytes (beBytes v)"

definition writeByte :: "u8 \<Rightarrow> Writer \<Rightarrow> Writer" where
  "writeByte v = writeBytes [char_of (unat v)]"

definition writeString :: "string \<Rightarrow> Writer \<Rightarrow> Writer" where
  "writeString s = writeBytes s"

definition bufWrite :: "'a::len word \<Rightarrow> Writer \<Rightarrow> Writer" where
  "bufWrite v = writeBytes (leBytes v)"

definition bufWriteString :: "string \<Rightarrow> Writer \<Rightarrow> Writer" where
  "bufWriteString s = writeBytes s"

definition written :: "Writer \<Rightarrow> bytes" where
  "written w = take (wr_off w) (wr_out w)"

lemma writeByte_be: "writeByte v = writeBytes (beBytes v)"
  by (simp add: writeByte_def beBytes_def numeral_1_eq_Suc_0)

lemmas writer_defs = writeT_def writeByte_be writeString_def bufWrite_def bufWriteString_def

lemma writeBytes_written:
  assumes "fits (length bs) w"
  shows "written (writeBytes bs w) = written w @ bs"
    and "length (wr_out (writeBytes bs w)) = length (wr_out w)"
    and "wr_off (writeBytes bs w) = wr_off w + length bs"
  using assms by (auto simp: written_def writeBytes_def fits_def)

lemma writeBytes_append:
  assumes "fits (length as + length bs) w"
  shows "writeBytes bs (writeBytes as w) = writeBytes (as @ bs) w"
  using assms by (simp add: writeBytes_def fits_def add_ac)

lemma writeBytes_all:
  assumes "length bs = n"
  shows "writeBytes bs (ByteWriter n) = \<lparr>wr_out = bs, wr_off = n\<rparr>"
  using assms by (simp add: writeBytes_def ByteWriter_def)

text \<open>
  A reader never moves on failure and moves by exactly the field's width on success.
\<close>

lemma readT_offset:
  "readT w dec r = (Inl e, r') \<Longrightarrow> r' = r"
  "readT w dec r = (Inr a, r') \<Longrightarrow>
     rd_off r' = rd_off r + w \<and> rd_data r' = rd_data r \<and> w \<le> remaining r"
  by (auto simp: readT_rest split: if_splits)

end
