(* ===== verification/Clocks.thy ===== *)
theory Clocks
  imports CinderTypes
begin

text \<open>
  Clock conversions (\<open>include/cinder/cluster/clock.hpp\<close>). A \<open>Clock\<close> value is one sample of an injected
  clock: its steady and its system time, in nanoseconds. Durations are integers.
\<close>

record Clock =
  ck_now :: int
  ck_system :: int

text \<open>\<open>duration_cast<milliseconds>\<close> rounds towards zero.\<close>

definition truncMs :: "int \<Rightarrow> int" where
  "truncMs ns = sgn ns * (\<bar>ns\<bar> div 1000000)"

definition toSystemExpiry :: "Clock \<Rightarrow> int \<Rightarrow> int" where
  "toSystemExpiry ck t = ck_system ck + (t - ck_now ck)"

definition toSteadyExpiry :: "Clock \<Rightarrow> int \<Rightarrow> int" where
  "toSteadyExpiry ck t = ck_now ck + (t - ck_system ck)"

definition toSystemMs :: "Clock \<Rightarrow> int \<Rightarrow> u64" where
  "toSystemMs ck t = word_of_int (truncMs (toSystemExpiry ck t))"

definition nowSystemMs :: "Clock \<Rightarrow> u64" where
  "nowSystemMs ck = word_of_int (truncMs (ck_system ck))"

lemma expiry_conversions_inverse [simp]:
  "toSteadyExpiry ck (toSystemExpiry ck t) = t" "toSystemExpiry ck (toSteadyExpiry ck t) = t"
  by (simp_all add: toSteadyExpiry_def toSystemExpiry_def)

end
