(* ===== verification/Protocol.thy ===== *)
theory Protocol
  imports Bytes Clocks
begin

text \<open>
  The wire protocol v5 (\<open>include/cinder/net/protocol.hpp\<close>, \<open>src/net/protocol.cpp\<close>): frame header,
  request and response encoders with their size accounting, and the decoders with every check in
  the order of the source. Milliseconds and nanoseconds are integers; the narrowing casts of the
  encoder are written out.
\<close>

section \<open>Constants and messages\<close>

definition K_MAGIC :: u8 where "K_MAGIC = 0xC1"
definition K_VERSION :: u8 where "K_VERSION = 5"
definition K_MAX_MESSAGE_SIZE :: nat where "K_MAX_MESSAGE_SIZE = 67108864"
definition K_FRAME_HEADER_SIZE :: nat where "K_FRAME_HEADER_SIZE = 2 + 1 + 4"
definition K_MAX_PAYLOAD_SIZE :: nat where
  "K_MAX_PAYLOAD_SIZE = K_MAX_MESSAGE_SIZE - K_FRAME_HEADER_SIZE"
definition K_FLAG_HAS_TTL :: u8 where "K_FLAG_HAS_TTL = 1"
definition K_FLAG_HAS_EXPIRES_AT :: u8 where "K_FLAG_HAS_EXPIRES_AT = 2"
definition K_FLAG_HAS_TRACE :: u8 where "K_FLAG_HAS_TRACE = 4"
definition K_FLAG_HAS_AUTH :: u8 where "K_FLAG_HAS_AUTH = 8"
definition K_FLAG_HAS_TOMBSTONE :: u8 where "K_FLAG_HAS_TOMBSTONE = 16"
definition K_MAX_MS :: nat where "K_MAX_MS = (2 ^ 63 - 1) div 1000000"

lemmas flag_defs = K_FLAG_HAS_TTL_def K_FLAG_HAS_EXPIRES_AT_def K_FLAG_HAS_TRACE_def
  K_FLAG_HAS_AUTH_def K_FLAG_HAS_TOMBSTONE_def

lemmas size_defs = K_MAX_PAYLOAD_SIZE_def K_MAX_MESSAGE_SIZE_def K_FRAME_HEADER_SIZE_def

datatype Opcode =
    OpGet | OpSet | OpDel | OpPing | OpGossip | OpReplicate | OpHint | OpGetVersioned
  | OpAntiEntropyDigest | OpAntiEntropySync | OpAdminInfo | OpAdminCluster | OpAdminRing
  | OpAdminCompact | OpAdminConfigReload | OpAdminShutdown

primrec opcodeByte :: "Opcode \<Rightarrow> u8" where
  "opcodeByte OpGet = 1"
| "opcodeByte OpSet = 2"
| "opcodeByte OpDel = 3"
| "opcodeByte OpPing = 4"
| "opcodeByte OpGossip = 5"
| "opcodeByte OpReplicate = 6"
| "opcodeByte OpHint = 7"
| "opcodeByte OpGetVersioned = 8"
| "opcodeByte OpAntiEntropyDigest = 9"
| "opcodeByte OpAntiEntropySync = 10"
| "opcodeByte OpAdminInfo = 11"
| "opcodeByte OpAdminCluster = 12"
| "opcodeByte OpAdminRing = 13"
| "opcodeByte OpAdminCompact = 14"
| "opcodeByte OpAdminConfigReload = 15"
| "opcodeByte OpAdminShutdown = 16"

definition allOpcodes :: "Opcode list" where
  "allOpcodes = [OpGet, OpSet, OpDel, OpPing, OpGossip, OpReplicate, OpHint, OpGetVersioned,
     OpAntiEntropyDigest, OpAntiEntropySync, OpAdminInfo, OpAdminCluster, OpAdminRing,
     OpAdminCompact, OpAdminConfigReload, OpAdminShutdown]"

text \<open>The cast of a raw byte back to an opcode; the decoder range-checks before it.\<close>

definition byteOpcode :: "u8 \<Rightarrow> Opcode" where
  "byteOpcode b = allOpcodes ! (unat b - 1)"

record Request =
  rq_opcode :: Opcode
  rq_trace_id :: u64
  rq_span_id :: u64
  rq_key :: string
  rq_value :: string
  rq_version :: Version
  rq_writer :: u64
  rq_ttl :: "int option"
  rq_expires_at :: "int option"
  rq_tombstone :: bool

record DecodedRequest =
  dr_req :: Request
  dr_auth_token :: string

text \<open>
  The status field holds the underlying byte: \<open>decodeResponse\<close> casts any byte to \<open>Errc\<close>
  without a range check.
\<close>

record Response =
  rs_status :: u8
  rs_value :: "string option"
  rs_version :: Version
  rs_writer :: u64
  rs_expires_at :: "int option"
  rs_tombstone :: bool
  rs_trace_id :: u64
  rs_span_id :: u64

primrec errcByte :: "Errc \<Rightarrow> u8" where
  "errcByte OK = 0"
| "errcByte NotFound = 1"
| "errcByte CapacityExceeded = 2"
| "errcByte InvalidArgument = 3"
| "errcByte TtlExpired = 4"
| "errcByte NotSupported = 5"
| "errcByte InternalError = 6"
| "errcByte Timeout = 7"
| "errcByte NotReady = 8"
| "errcByte PermissionDenied = 9"
| "errcByte CorruptData = 10"

section \<open>Frames\<close>

record FrameView =
  fv_opcode :: u8
  fv_payload :: bytes

definition byteAt :: "bytes \<Rightarrow> nat \<Rightarrow> u8" where
  "byteAt bs i = word_of_nat (of_char (bs ! i))"

definition readBe32 :: "bytes \<Rightarrow> u32" where
  "readBe32 buf =
     push_bit 24 (ucast (byteAt buf 0)) OR push_bit 16 (ucast (byteAt buf 1)) OR
     push_bit 8 (ucast (byteAt buf 2)) OR ucast (byteAt buf 3)"

definition parseFrame :: "bytes \<Rightarrow> FrameView Result" where
  "parseFrame frame =
     (if length frame < K_FRAME_HEADER_SIZE then
        Inl (mkError InvalidArgument ''frame too small'')
      else if byteAt frame 0 \<noteq> K_MAGIC then Inl (mkError InvalidArgument ''bad magic'')
      else if byteAt frame 1 \<noteq> K_VERSION then Inl (mkError InvalidArgument ''bad version'')
      else
        let payload_size = unat (readBe32 (drop 3 frame)) in
        if payload_size > K_MAX_PAYLOAD_SIZE then
          Inl (mkError InvalidArgument ''payload too large'')
        else if payload_size > length frame - K_FRAME_HEADER_SIZE then
          Inl (mkError InvalidArgument ''truncated frame'')
        else Inr \<lparr>fv_opcode = byteAt frame 2,
                  fv_payload = take payload_size (drop K_FRAME_HEADER_SIZE frame)\<rparr>)"

definition frameSizeForPayload :: "nat \<Rightarrow> nat Result" where
  "frameSizeForPayload n =
     (if n > K_MAX_PAYLOAD_SIZE then Inl (mkError InvalidArgument ''message too large'')
      else Inr (K_FRAME_HEADER_SIZE + n))"

definition addPayloadSize :: "nat \<Rightarrow> nat \<Rightarrow> nat option" where
  "addPayloadSize payload_size field_size =
     (if payload_size > K_MAX_PAYLOAD_SIZE \<or> field_size > K_MAX_PAYLOAD_SIZE - payload_size
      then None else Some (payload_size + field_size))"

fun addAll :: "nat list \<Rightarrow> nat \<Rightarrow> nat option" where
  "addAll [] p = Some p"
| "addAll (n # ns) p = (case addPayloadSize p n of None \<Rightarrow> None | Some q \<Rightarrow> addAll ns q)"

section \<open>Requests\<close>

subsection \<open>Encoder\<close>

definition tooLarge :: Error where
  "tooLarge = mkError InvalidArgument ''message too large''"

definition requestFields :: "Request \<Rightarrow> nat list" where
  "requestFields req =
     [4, length (rq_key req), 4, length (rq_value req), 8 * 2]
     @ (if rq_ttl req \<noteq> None then [4] else []) @ [1]
     @ (if rq_expires_at req \<noteq> None then [8] else [])"

definition requestPayloadSize :: "Request \<Rightarrow> string \<Rightarrow> nat Result" where
  "requestPayloadSize req auth_token =
     (if length (rq_key req) > 4294967295 \<or> length (rq_value req) > 4294967295
      then Inl tooLarge
      else case addAll (requestFields req) 0 of
        None \<Rightarrow> Inl tooLarge
      | Some p \<Rightarrow>
          (case (if rq_trace_id req \<noteq> 0 then addPayloadSize p (8 * 2) else Some p) of
             None \<Rightarrow> Inl tooLarge
           | Some p' \<Rightarrow>
               if auth_token \<noteq> [] then
                 if length auth_token \<noteq> 32 then
                   Inl (mkError InvalidArgument ''auth token must be 32 bytes'')
                 else (case addPayloadSize p' 32 of None \<Rightarrow> Inl tooLarge | Some p'' \<Rightarrow> Inr p'')
               else Inr p'))"

definition requestFlags :: "Request \<Rightarrow> string \<Rightarrow> u8" where
  "requestFlags req auth_token =
     (if rq_ttl req \<noteq> None then K_FLAG_HAS_TTL else 0)
     OR (if rq_expires_at req \<noteq> None then K_FLAG_HAS_EXPIRES_AT else 0)
     OR (if rq_tombstone req then K_FLAG_HAS_TOMBSTONE else 0)
     OR (if rq_trace_id req \<noteq> 0 then K_FLAG_HAS_TRACE else 0)
     OR (if auth_token \<noteq> [] then K_FLAG_HAS_AUTH else 0)"

definition whenSome :: "'a option \<Rightarrow> ('a \<Rightarrow> Writer \<Rightarrow> Writer) \<Rightarrow> Writer \<Rightarrow> Writer" where
  "whenSome v f w = (case v of None \<Rightarrow> w | Some x \<Rightarrow> f x w)"

definition encodeInto :: "Request \<Rightarrow> string \<Rightarrow> bytes Result" where
  "encodeInto req auth_token =
     (case requestPayloadSize req auth_token of
        Inl e \<Rightarrow> Inl e
      | Inr payload_size \<Rightarrow>
          (case frameSizeForPayload payload_size of
             Inl e \<Rightarrow> Inl e
           | Inr frame_size \<Rightarrow>
               let w = ByteWriter frame_size;
                   w = writeByte K_MAGIC w;
                   w = writeByte K_VERSION w;
                   w = writeByte (opcodeByte (rq_opcode req)) w;
                   w = writeT (word_of_nat payload_size :: u32) w;
                   w = writeByte (requestFlags req auth_token) w;
                   w = whenSome (rq_ttl req) (\<lambda>t. writeT (word_of_int t :: u32)) w;
                   w = whenSome (rq_expires_at req) (\<lambda>t. writeT (word_of_int (truncMs t) :: u64)) w;
                   w = writeT (rq_version req) w;
                   w = writeT (rq_writer req) w;
                   w = writeT (word_of_nat (length (rq_key req)) :: u32) w;
                   w = writeString (rq_key req) w;
                   w = writeT (word_of_nat (length (rq_value req)) :: u32) w;
                   w = (if rq_value req \<noteq> [] then writeString (rq_value req) w else w);
                   w = (if rq_trace_id req \<noteq> 0
                        then writeT (rq_span_id req) (writeT (rq_trace_id req) w) else w);
                   w = (if auth_token \<noteq> [] then writeString auth_token w else w)
               in Inr (wr_out w)))"

definition encode :: "Request \<Rightarrow> string \<Rightarrow> bytes Result" where
  "encode req auth_token =
     (case encodeInto req auth_token of Inl e \<Rightarrow> Inl e | Inr buf \<Rightarrow> Inr buf)"

subsection \<open>Decoder\<close>

definition hasFlag :: "u8 \<Rightarrow> u8 \<Rightarrow> bool" where
  "hasFlag flags k \<longleftrightarrow> flags AND k \<noteq> 0"

definition readTtl :: "u8 \<Rightarrow> Reader \<Rightarrow> int option Result \<times> Reader" where
  "readTtl flags r =
     (if hasFlag flags K_FLAG_HAS_TTL then
        (case read_u32 r of
           (Inl e, r') \<Rightarrow> (Inl e, r')
         | (Inr t, r') \<Rightarrow> (Inr (Some (uint t)), r'))
      else (Inr None, r))"

definition readExpiresAt :: "u8 \<Rightarrow> Reader \<Rightarrow> int option Result \<times> Reader" where
  "readExpiresAt flags r =
     (if hasFlag flags K_FLAG_HAS_EXPIRES_AT then
        (case read_u64 r of
           (Inl e, r') \<Rightarrow> (Inl e, r')
         | (Inr t, r') \<Rightarrow>
             if unat t > K_MAX_MS
             then (Inl (mkError InvalidArgument ''expires_at overflow''), r')
             else (Inr (Some (uint t * 1000000)), r'))
      else (Inr None, r))"

definition readSized :: "Reader \<Rightarrow> string Result \<times> Reader" where
  "readSized r =
     (case read_u32 r of
        (Inl e, r') \<Rightarrow> (Inl e, r')
      | (Inr len, r') \<Rightarrow> if len > 0 then readStringView (unat len) r' else (Inr [], r'))"

definition readTrace :: "u8 \<Rightarrow> Reader \<Rightarrow> u64 \<times> u64 \<times> Reader" where
  "readTrace flags r =
     (if hasFlag flags K_FLAG_HAS_TRACE \<and> remaining r \<ge> 8 * 2 then
        (case read_u64 r of
           (Inl e, r') \<Rightarrow> (0, 0, snd (read_u64 r'))
         | (Inr tid, r') \<Rightarrow>
             (case read_u64 r' of
                (Inl e, r'') \<Rightarrow> (0, 0, r'')
              | (Inr sid, r'') \<Rightarrow> (tid, (if tid = 0 then 0 else sid), r'')))
      else (0, 0, r))"

definition readAuth :: "u8 \<Rightarrow> Reader \<Rightarrow> string" where
  "readAuth flags r =
     (if hasFlag flags K_FLAG_HAS_AUTH \<and> remaining r \<ge> 32 then
        (case readBytes 32 r of (Inl e, _) \<Rightarrow> [] | (Inr bs, _) \<Rightarrow> bs)
      else [])"

definition decode :: "bytes \<Rightarrow> DecodedRequest Result" where
  "decode frame =
     (case parseFrame frame of
        Inl e \<Rightarrow> Inl e
      | Inr view \<Rightarrow>
          let r = ByteReader (fv_payload view); raw_opcode = fv_opcode view in
          if raw_opcode < opcodeByte OpGet \<or> raw_opcode > opcodeByte OpAdminShutdown
          then Inl (mkError InvalidArgument ''unknown opcode'')
          else
            bindR (read_u8 r) (\<lambda>flags r.
            bindR (readTtl flags r) (\<lambda>ttl r.
            bindR (readExpiresAt flags r) (\<lambda>expiry r.
            bindR (read_u64 r) (\<lambda>ver r.
            bindR (read_u64 r) (\<lambda>writer r.
            bindR (readSized r) (\<lambda>key r.
            bindR (readSized r) (\<lambda>val r.
              let (tid, sid, r) = readTrace flags r in
              Inr \<lparr>dr_req =
                     \<lparr>rq_opcode = byteOpcode raw_opcode, rq_trace_id = tid, rq_span_id = sid,
                      rq_key = key, rq_value = val, rq_version = ver, rq_writer = writer,
                      rq_ttl = ttl, rq_expires_at = expiry,
                      rq_tombstone = hasFlag flags K_FLAG_HAS_TOMBSTONE\<rparr>,
                   dr_auth_token = readAuth flags r\<rparr>))))))))"

section \<open>Responses\<close>

definition responseFlags :: "Response \<Rightarrow> u8" where
  "responseFlags res =
     (if rs_version res \<noteq> 0 \<or> rs_writer res \<noteq> 0 then 1 else 0)
     OR (if rs_expires_at res \<noteq> None then K_FLAG_HAS_EXPIRES_AT else 0)
     OR (if rs_tombstone res then K_FLAG_HAS_TOMBSTONE else 0)
     OR (if rs_trace_id res \<noteq> 0 then K_FLAG_HAS_TRACE else 0)"

definition responsePayloadSize :: "Response \<Rightarrow> nat Result" where
  "responsePayloadSize res =
     (case addAll ([1 * 2 + 4]
         @ (if rs_version res \<noteq> 0 \<or> rs_writer res \<noteq> 0 then [8 * 2] else [])
         @ (if rs_expires_at res \<noteq> None then [8] else [])) 0 of
        None \<Rightarrow> Inl tooLarge
      | Some p \<Rightarrow>
          (case (case rs_value res of
                   None \<Rightarrow> Some p
                 | Some v \<Rightarrow> if length v > 4294967295 then None
                             else addPayloadSize p (length v)) of
             None \<Rightarrow> Inl tooLarge
           | Some p' \<Rightarrow>
               (case (if rs_trace_id res \<noteq> 0 then addPayloadSize p' (8 * 2) else Some p') of
                  None \<Rightarrow> Inl tooLarge
                | Some p'' \<Rightarrow> Inr p'')))"

definition encodeResponseInto :: "Response \<Rightarrow> bytes Result" where
  "encodeResponseInto res =
     (case responsePayloadSize res of
        Inl e \<Rightarrow> Inl e
      | Inr payload_size \<Rightarrow>
          (case frameSizeForPayload payload_size of
             Inl e \<Rightarrow> Inl e
           | Inr frame_size \<Rightarrow>
               let w = ByteWriter frame_size;
                   w = writeByte K_MAGIC w;
                   w = writeByte K_VERSION w;
                   w = writeByte 0 w;
                   w = writeT (word_of_nat payload_size :: u32) w;
                   w = writeByte (rs_status res) w;
                   w = writeByte (responseFlags res) w;
                   w = (if rs_version res \<noteq> 0 \<or> rs_writer res \<noteq> 0
                        then writeT (rs_writer res) (writeT (rs_version res) w) else w);
                   w = whenSome (rs_expires_at res) (\<lambda>t. writeT (word_of_int (truncMs t) :: u64)) w;
                   w = writeT (if rs_value res \<noteq> None then 1 else 0 :: u32) w;
                   w = whenSome (rs_value res) writeString w;
                   w = (if rs_trace_id res \<noteq> 0
                        then writeT (rs_span_id res) (writeT (rs_trace_id res) w) else w)
               in Inr (wr_out w)))"

definition encodeResponse :: "Response \<Rightarrow> bytes Result" where
  "encodeResponse res =
     (case encodeResponseInto res of Inl e \<Rightarrow> Inl e | Inr buf \<Rightarrow> Inr buf)"

definition readVersionMeta :: "u8 \<Rightarrow> Reader \<Rightarrow> (u64 \<times> u64) Result \<times> Reader" where
  "readVersionMeta flags r =
     (if hasFlag flags 1 then
        (case read_u64 r of
           (Inl e, r') \<Rightarrow> (Inl e, r')
         | (Inr v, r') \<Rightarrow>
             (case read_u64 r' of
                (Inl e, r'') \<Rightarrow> (Inl e, r'')
              | (Inr wr, r'') \<Rightarrow> (Inr (v, wr), r'')))
      else (Inr (0, 0), r))"

definition readResponseValue :: "u8 \<Rightarrow> Reader \<Rightarrow> string option Result \<times> Reader" where
  "readResponseValue flags r =
     (case read_u32 r of
        (Inl e, r') \<Rightarrow> (Inl e, r')
      | (Inr has_val, r') \<Rightarrow>
          if has_val \<noteq> 0 then
            let trace_size = (if hasFlag flags K_FLAG_HAS_TRACE then 8 * 2 else 0);
                val_len = (if remaining r' > trace_size then remaining r' - trace_size else 0)
            in (case readStringView val_len r' of
                  (Inl e, r'') \<Rightarrow> (Inl e, r'')
                | (Inr v, r'') \<Rightarrow> (Inr (Some v), r''))
          else (Inr None, r'))"

definition decodeResponse :: "bytes \<Rightarrow> Response Result" where
  "decodeResponse frame =
     (case parseFrame frame of
        Inl e \<Rightarrow> Inl e
      | Inr view \<Rightarrow>
          bindR (read_u8 (ByteReader (fv_payload view))) (\<lambda>status r.
          bindR (if remaining r > 0 then read_u8 r else (Inr 0, r)) (\<lambda>flags r.
          bindR (readVersionMeta flags r) (\<lambda>vw r.
          bindR (readExpiresAt flags r) (\<lambda>expiry r.
          bindR (readResponseValue flags r) (\<lambda>val r.
            let (tid, sid, r) = readTrace flags r in
            Inr \<lparr>rs_status = status, rs_value = val, rs_version = fst vw, rs_writer = snd vw,
                 rs_expires_at = expiry, rs_tombstone = hasFlag flags K_FLAG_HAS_TOMBSTONE,
                 rs_trace_id = tid, rs_span_id = sid\<rparr>))))))"

section \<open>Size accounting\<close>

lemma addAll_eq:
  "p \<le> K_MAX_PAYLOAD_SIZE \<Longrightarrow>
     addAll ns p = (if p + sum_list ns \<le> K_MAX_PAYLOAD_SIZE then Some (p + sum_list ns) else None)"
proof (induction ns arbitrary: p)
  case Nil
  then show ?case by simp
next
  case (Cons n ns)
  show ?case
  proof (cases "p + n \<le> K_MAX_PAYLOAD_SIZE")
    case True
    with Cons.prems Cons.IH [of "p + n"] show ?thesis
      by (auto simp: addPayloadSize_def add.assoc)
  next
    case False
    with Cons.prems show ?thesis by (auto simp: addPayloadSize_def)
  qed
qed

lemma addPayloadSize_eq:
  "p \<le> K_MAX_PAYLOAD_SIZE \<Longrightarrow>
     addPayloadSize p n = (if p + n \<le> K_MAX_PAYLOAD_SIZE then Some (p + n) else None)"
  by (auto simp: addPayloadSize_def)

definition ttlBytes :: "int option \<Rightarrow> bytes" where
  "ttlBytes t = (case t of None \<Rightarrow> [] | Some x \<Rightarrow> beBytes (word_of_int x :: u32))"

definition expiryBytes :: "int option \<Rightarrow> bytes" where
  "expiryBytes t = (case t of None \<Rightarrow> [] | Some x \<Rightarrow> beBytes (word_of_int (truncMs x) :: u64))"

definition sizedBytes :: "string \<Rightarrow> bytes" where
  "sizedBytes s = beBytes (word_of_nat (length s) :: u32) @ s"

definition traceBytes :: "u64 \<Rightarrow> u64 \<Rightarrow> bytes" where
  "traceBytes tid sid = (if tid \<noteq> 0 then beBytes tid @ beBytes sid else [])"

definition requestPayload :: "Request \<Rightarrow> string \<Rightarrow> bytes" where
  "requestPayload req tok =
     beBytes (requestFlags req tok) @ ttlBytes (rq_ttl req) @ expiryBytes (rq_expires_at req)
     @ beBytes (rq_version req) @ beBytes (rq_writer req) @ sizedBytes (rq_key req)
     @ sizedBytes (rq_value req) @ traceBytes (rq_trace_id req) (rq_span_id req) @ tok"

definition frameBytes :: "u8 \<Rightarrow> bytes \<Rightarrow> bytes" where
  "frameBytes op payload =
     beBytes K_MAGIC @ beBytes K_VERSION @ beBytes op
     @ beBytes (word_of_nat (length payload) :: u32) @ payload"

lemma length_pieces [simp]:
  "length (ttlBytes t) = (if t = None then 0 else 4)"
  "length (expiryBytes e) = (if e = None then 0 else 8)"
  "length (sizedBytes s) = 4 + length s"
  "length (traceBytes tid sid) = (if tid = 0 then 0 else 16)"
  by (auto simp: ttlBytes_def expiryBytes_def sizedBytes_def traceBytes_def split: option.splits)

lemma sum_requestFields:
  "sum_list (requestFields req) + (if rq_trace_id req = 0 then 0 else 16) + length tok
     = length (requestPayload req tok)"
  by (simp add: requestFields_def requestPayload_def)

text \<open>The encoder accepts a request exactly when its payload fits and the token is absent or 32 bytes.\<close>

lemma requestPayloadSize_eq:
  "requestPayloadSize req tok =
     (let n = length (requestPayload req tok) in
      if n \<le> K_MAX_PAYLOAD_SIZE \<and> (tok = [] \<or> length tok = 32) then Inr n
      else if n - length tok > K_MAX_PAYLOAD_SIZE \<or> tok = [] \<or> length tok = 32 then Inl tooLarge
      else Inl (mkError InvalidArgument ''auth token must be 32 bytes''))"
proof -
  let ?s = "sum_list (requestFields req)"
  let ?t = "if rq_trace_id req = 0 then 0 else 16 :: nat"
  have n: "length (requestPayload req tok) = ?s + ?t + length tok"
    using sum_requestFields [of req tok] by simp
  have s: "length (rq_key req) + length (rq_value req) \<le> ?s"
    by (simp add: requestFields_def)
  show ?thesis
    using s unfolding n requestPayloadSize_def Let_def
    by (auto simp: addAll_eq addPayloadSize_eq size_defs split: if_splits)
qed

lemma writeBytes_Nil [simp]: "writeBytes [] w = w"
  by (simp add: writeBytes_def)

lemma whenSome_writeBytes [simp]:
  "whenSome v (\<lambda>t. writeBytes (g t)) w = writeBytes (case v of None \<Rightarrow> [] | Some t \<Rightarrow> g t) w"
  by (simp add: whenSome_def split: option.splits)

lemma fold_writeBytes:
  "length (concat bss) \<le> n \<Longrightarrow>
     fold writeBytes bss (ByteWriter n) = writeBytes (concat bss) (ByteWriter n)"
proof (induction bss rule: rev_induct)
  case Nil
  show ?case by simp
next
  case (snoc bs bss)
  then show ?case
    by (simp add: writeBytes_append fits_def ByteWriter_def)
qed

lemma encodeInto_eq:
  "encodeInto req tok =
     (case requestPayloadSize req tok of
        Inl e \<Rightarrow> Inl e
      | Inr n \<Rightarrow> Inr (frameBytes (opcodeByte (rq_opcode req)) (requestPayload req tok)))"
proof (cases "requestPayloadSize req tok")
  case (Inl e)
  then show ?thesis by (simp add: encodeInto_def)
next
  case (Inr n)
  let ?tr = "rq_trace_id req" and ?sp = "rq_span_id req"
  let ?bss = "[beBytes K_MAGIC, beBytes K_VERSION, beBytes (opcodeByte (rq_opcode req)),
      beBytes (word_of_nat n :: u32), beBytes (requestFlags req tok), ttlBytes (rq_ttl req),
      expiryBytes (rq_expires_at req), beBytes (rq_version req), beBytes (rq_writer req),
      beBytes (word_of_nat (length (rq_key req)) :: u32), rq_key req,
      beBytes (word_of_nat (length (rq_value req)) :: u32), rq_value req,
      (if ?tr = 0 then [] else beBytes ?tr), (if ?tr = 0 then [] else beBytes ?sp), tok]"
  from Inr have n: "n = length (requestPayload req tok)" "n \<le> K_MAX_PAYLOAD_SIZE"
    by (auto simp: requestPayloadSize_eq Let_def split: if_splits)
  have cat: "concat ?bss = frameBytes (opcodeByte (rq_opcode req)) (requestPayload req tok)"
    by (simp add: frameBytes_def requestPayload_def n(1) sizedBytes_def traceBytes_def)
  have len: "length (concat ?bss) = 7 + n"
    unfolding cat by (simp add: frameBytes_def n(1))
  have "encodeInto req tok = Inr (wr_out (fold writeBytes ?bss (ByteWriter (7 + n))))"
    using Inr n(2)
    by (simp add: encodeInto_def frameSizeForPayload_def writer_defs Let_def
        ttlBytes_def expiryBytes_def K_FRAME_HEADER_SIZE_def)
  also have "fold writeBytes ?bss (ByteWriter (7 + n))
      = writeBytes (concat ?bss) (ByteWriter (7 + n))"
    by (rule fold_writeBytes) (simp only: len order_refl)
  also have "wr_out \<dots> = concat ?bss"
    by (simp only: writeBytes_all [OF len] Writer.simps)
  finally show ?thesis by (simp only: Inr cat sum.case)
qed

section \<open>Frames read back\<close>

lemma byteAt_be [simp]:
  "byteAt (beBytes (v :: u8) @ xs) 0 = v"
  by (simp add: byteAt_def beBytes_def numeral_1_eq_Suc_0)

lemma push_or_byte:
  "push_bit 8 (w :: u32) OR ucast (b :: u8) = w * 256 + ucast b"
proof -
  have "push_bit 8 w AND ucast b = 0"
    by (rule bit_word_eqI) (auto simp: bit_simps dest: bit_imp_le_length)
  then have "push_bit 8 w OR ucast b = push_bit 8 w + ucast b"
    by (simp add: disjunctive_add_eq_or)
  then show ?thesis by (simp add: push_bit_eq_mult mult.commute)
qed

lemma readBe32_Cons:
  "readBe32 (a # b # c # d # xs) = beWord [a, b, c, d]"
proof -
  let ?u = "\<lambda>x. ucast (word_of_nat (of_char x) :: u8) :: u32"
  have u: "?u x = word_of_nat (of_char x)" for x
    by (simp add: unsigned_of_nat take_bit_eq_mod)
  have "readBe32 (a # b # c # d # xs)
      = push_bit 8 (push_bit 8 (push_bit 8 (?u a) OR ?u b) OR ?u c) OR ?u d"
    by (simp add: readBe32_def byteAt_def push_bit_or or.assoc numeral_nat)
  also have "\<dots> = ((?u a * 256 + ?u b) * 256 + ?u c) * 256 + ?u d"
    by (simp only: push_or_byte)
  also have "\<dots> = beWord [a, b, c, d]"
    by (simp add: u beWord_def algebra_simps)
  finally show ?thesis .
qed

lemma length_4: "length xs = 4 \<Longrightarrow> \<exists>a b c d. xs = [a, b, c, d]"
  by (auto simp: numeral_eq_Suc length_Suc_conv)

lemma readBe32_be [simp]: "readBe32 (beBytes (v :: u32) @ xs) = v"
proof -
  obtain a b c d where v: "beBytes v = [a, b, c, d]"
    using length_4 [OF be32.enc_length] by blast
  then have "readBe32 (beBytes v @ xs) = beWord (beBytes v)"
    by (simp add: readBe32_Cons)
  then show ?thesis by (simp add: be32.dec_enc)
qed

lemma length_frameBytes [simp]: "length (frameBytes op payload) = 7 + length payload"
  by (simp add: frameBytes_def)

lemma parseFrame_frameBytes:
  assumes "length payload \<le> K_MAX_PAYLOAD_SIZE"
  shows "parseFrame (frameBytes op payload @ junk) = Inr \<lparr>fv_opcode = op, fv_payload = payload\<rparr>"
proof -
  let ?f = "frameBytes op payload @ junk"
  have b: "byteAt ?f 0 = K_MAGIC" "byteAt ?f 1 = K_VERSION" "byteAt ?f 2 = op"
    by (simp_all add: frameBytes_def byteAt_def beBytes_def numeral_1_eq_Suc_0)
  have d3: "drop 3 (frameBytes op payload) = beBytes (word_of_nat (length payload) :: u32) @ payload"
    by (simp add: frameBytes_def numeral_3_eq_3)
  have d7: "drop 7 (frameBytes op payload) = payload"
    by (simp add: frameBytes_def)
  have n: "unat (word_of_nat (length payload) :: u32) = length payload"
    using assms by (simp add: unat_of_nat size_defs)
  show ?thesis
    using assms
    by (simp add: parseFrame_def Let_def b b(2) [unfolded One_nat_def] d3 n d7
        K_FRAME_HEADER_SIZE_def)
qed

section \<open>Fields read back\<close>

definition reads :: "'a Result \<times> Reader \<Rightarrow> 'a \<Rightarrow> bytes \<Rightarrow> bool" where
  "reads m a xs \<longleftrightarrow> fst m = Inr a \<and> rest (snd m) = xs"

lemma bindR_reads: "reads m a xs \<Longrightarrow> bindR m k = k a (snd m)"
  by (auto simp: reads_def bindR_def split: prod.splits)

lemma reads_rest: "reads m a xs \<Longrightarrow> rest (snd m) = xs"
  by (simp add: reads_def)

lemma reads_fields:
  "rest r = beBytes (a8 :: u8) @ xs \<Longrightarrow> reads (read_u8 r) a8 xs"
  "rest r = beBytes (a32 :: u32) @ xs \<Longrightarrow> reads (read_u32 r) a32 xs"
  "rest r = beBytes (a64 :: u64) @ xs \<Longrightarrow> reads (read_u64 r) a64 xs"
  by (simp_all add: reads_def codec_simps)

lemma reads_ttl:
  assumes "rest r = ttlBytes t @ xs" "hasFlag flags K_FLAG_HAS_TTL \<longleftrightarrow> t \<noteq> None"
  shows "reads (readTtl flags r) (map_option (\<lambda>t. t mod 2 ^ 32) t) xs"
proof (cases t)
  case None
  with assms show ?thesis by (simp add: readTtl_def reads_def ttlBytes_def)
next
  case (Some x)
  with assms show ?thesis
    by (simp add: readTtl_def reads_def ttlBytes_def codec_simps take_bit_eq_mod uint_word_of_int)
qed

lemma reads_expiry:
  assumes "rest r = expiryBytes e @ xs" "hasFlag flags K_FLAG_HAS_EXPIRES_AT \<longleftrightarrow> e \<noteq> None"
    and "\<And>x. e = Some x \<Longrightarrow> 0 \<le> x \<and> x < 2 ^ 63"
  shows "reads (readExpiresAt flags r) (map_option (\<lambda>x. truncMs x * 1000000) e) xs"
proof (cases e)
  case None
  with assms show ?thesis by (simp add: readExpiresAt_def reads_def expiryBytes_def)
next
  case (Some x)
  with assms(3) have x: "0 \<le> x" "x < 2 ^ 63" by auto
  then have t: "truncMs x = x div 1000000" by (simp add: truncMs_def sgn_if)
  have d: "0 \<le> x div 1000000" "x div 1000000 \<le> 9223372036854" using x by auto
  then have u: "uint (word_of_int (x div 1000000) :: u64) = x div 1000000"
    by (simp add: uint_word_of_int)
  then have "unat (word_of_int (x div 1000000) :: u64) = nat (x div 1000000)"
    by (metis nat_uint_eq)
  with d have "\<not> 9223372036854 < unat (word_of_int (x div 1000000) :: u64)"
    by linarith
  with assms(1,2) Some t u show ?thesis
    by (simp add: readExpiresAt_def reads_def expiryBytes_def codec_simps K_MAX_MS_def)
qed

lemma reads_sized:
  assumes "rest r = sizedBytes s @ xs" "length s < 2 ^ 32"
  shows "reads (readSized r) s xs"
proof -
  have u: "unat (word_of_nat (length s) :: u32) = length s"
    using assms(2) by (simp add: unat_of_nat)
  then have z: "(0 < (word_of_nat (length s) :: u32)) = (s \<noteq> [])"
    by (metis length_greater_0_conv unat_gt_0 word_neq_0_conv)
  show ?thesis
    using assms(1) u z by (simp add: readSized_def reads_def sizedBytes_def codec_simps)
qed

lemma readTrace_traceBytes:
  assumes "rest r = traceBytes tid sid @ xs" "hasFlag flags K_FLAG_HAS_TRACE \<longleftrightarrow> tid \<noteq> 0"
  shows "\<exists>r'. readTrace flags r = (tid, (if tid = 0 then 0 else sid), r') \<and> rest r' = xs"
  using assms by (auto simp: readTrace_def traceBytes_def codec_simps)

lemma readAuth_token:
  assumes "rest r = tok" "tok = [] \<or> length tok = 32" "hasFlag flags K_FLAG_HAS_AUTH \<longleftrightarrow> tok \<noteq> []"
  shows "readAuth flags r = tok"
  using assms by (auto simp: readAuth_def codec_simps)

lemma requestFlags_bits [simp]:
  "hasFlag (requestFlags req tok) K_FLAG_HAS_TTL \<longleftrightarrow> rq_ttl req \<noteq> None"
  "hasFlag (requestFlags req tok) K_FLAG_HAS_EXPIRES_AT \<longleftrightarrow> rq_expires_at req \<noteq> None"
  "hasFlag (requestFlags req tok) K_FLAG_HAS_TOMBSTONE \<longleftrightarrow> rq_tombstone req"
  "hasFlag (requestFlags req tok) K_FLAG_HAS_TRACE \<longleftrightarrow> rq_trace_id req \<noteq> 0"
  "hasFlag (requestFlags req tok) K_FLAG_HAS_AUTH \<longleftrightarrow> tok \<noteq> []"
  by (simp_all add: hasFlag_def requestFlags_def flag_defs)

lemma responseFlags_bits [simp]:
  "hasFlag (responseFlags res) 1 \<longleftrightarrow> rs_version res \<noteq> 0 \<or> rs_writer res \<noteq> 0"
  "hasFlag (responseFlags res) K_FLAG_HAS_EXPIRES_AT \<longleftrightarrow> rs_expires_at res \<noteq> None"
  "hasFlag (responseFlags res) K_FLAG_HAS_TOMBSTONE \<longleftrightarrow> rs_tombstone res"
  "hasFlag (responseFlags res) K_FLAG_HAS_TRACE \<longleftrightarrow> rs_trace_id res \<noteq> 0"
  by (simp_all add: hasFlag_def responseFlags_def flag_defs)

lemma opcode_range [simp]: "opcodeByte op \<noteq> 0" "\<not> 16 < opcodeByte op"
  by (cases op; simp)+

lemma byteOpcode_opcodeByte [simp]: "byteOpcode (opcodeByte op) = op"
  by (cases op) (simp_all add: byteOpcode_def allOpcodes_def)

lemma opcodeByte_byteOpcode:
  "opcodeByte OpGet \<le> b \<Longrightarrow> b \<le> opcodeByte OpAdminShutdown \<Longrightarrow> opcodeByte (byteOpcode b) = b"
proof -
  assume "opcodeByte OpGet \<le> b" "b \<le> opcodeByte OpAdminShutdown"
  then have "unat b \<in> set [1..<17]"
    by (auto simp: word_le_nat_alt)
  then have "unat b \<in> {1, 2, 3, 4, 5, 6, 7, 8, 9, 10, 11, 12, 13, 14, 15, 16}"
    by (auto simp: upt_rec numeral_eq_Suc)
  then show "opcodeByte (byteOpcode b) = b"
    by (auto simp: byteOpcode_def allOpcodes_def word_unat_eq_iff)
qed

section \<open>Round trips\<close>

definition canonRequest :: "Request \<Rightarrow> Request" where
  "canonRequest req = req\<lparr>rq_ttl := map_option (\<lambda>t. t mod 2 ^ 32) (rq_ttl req),
     rq_expires_at := map_option (\<lambda>x. truncMs x * 1000000) (rq_expires_at req),
     rq_span_id := (if rq_trace_id req = 0 then 0 else rq_span_id req)\<rparr>"

lemma rest_ByteReader [simp]: "rest (ByteReader d) = d"
  by (simp add: rest_def ByteReader_def)

lemma encode_InrD:
  assumes "encode req tok = Inr buf"
  shows "buf = frameBytes (opcodeByte (rq_opcode req)) (requestPayload req tok)"
    and "length (requestPayload req tok) \<le> K_MAX_PAYLOAD_SIZE"
    and "tok = [] \<or> length tok = 32"
    and "length (rq_key req) < 2 ^ 32" and "length (rq_value req) < 2 ^ 32"
proof -
  from assms obtain n where n: "requestPayloadSize req tok = Inr n"
    and b: "buf = frameBytes (opcodeByte (rq_opcode req)) (requestPayload req tok)"
    by (auto simp: encode_def encodeInto_eq split: sum.splits)
  show "buf = frameBytes (opcodeByte (rq_opcode req)) (requestPayload req tok)" by (rule b)
  from n show l: "length (requestPayload req tok) \<le> K_MAX_PAYLOAD_SIZE"
    and "tok = [] \<or> length tok = 32"
    by (auto simp: requestPayloadSize_eq Let_def split: if_splits)
  from l show "length (rq_key req) < 2 ^ 32" "length (rq_value req) < 2 ^ 32"
    by (auto simp: requestPayload_def size_defs)
qed

lemma decode_requestPayload:
  assumes "length (requestPayload req tok) \<le> K_MAX_PAYLOAD_SIZE"
    and "tok = [] \<or> length tok = 32"
    and "length (rq_key req) < 2 ^ 32" and "length (rq_value req) < 2 ^ 32"
    and "\<And>x. rq_expires_at req = Some x \<Longrightarrow> 0 \<le> x \<and> x < 2 ^ 63"
  shows "decode (frameBytes (opcodeByte (rq_opcode req)) (requestPayload req tok) @ junk)
    = Inr \<lparr>dr_req = canonRequest req, dr_auth_token = tok\<rparr>"
proof -
  let ?fl = "requestFlags req tok"
  define t7 where "t7 = traceBytes (rq_trace_id req) (rq_span_id req) @ tok"
  define t6 where "t6 = sizedBytes (rq_value req) @ t7"
  define t5 where "t5 = sizedBytes (rq_key req) @ t6"
  define t3 where "t3 = beBytes (rq_version req) @ beBytes (rq_writer req) @ t5"
  define t2 where "t2 = expiryBytes (rq_expires_at req) @ t3"
  define r0 where "r0 = ByteReader (requestPayload req tok)"
  have 0: "reads (read_u8 r0) ?fl (ttlBytes (rq_ttl req) @ t2)"
    by (rule reads_fields)
      (simp add: r0_def requestPayload_def t2_def t3_def t5_def t6_def t7_def)
  note 1 = reads_ttl [OF reads_rest [OF 0] requestFlags_bits(1) [of req tok]]
  note 2 = reads_expiry [OF reads_rest [OF 1, unfolded t2_def] requestFlags_bits(2) [of req tok] assms(5)]
  note 3 = reads_fields(3) [OF reads_rest [OF 2, unfolded t3_def]]
  note 4 = reads_fields(3) [OF reads_rest [OF 3]]
  note 5 = reads_sized [OF reads_rest [OF 4, unfolded t5_def] assms(3)]
  note 6 = reads_sized [OF reads_rest [OF 5, unfolded t6_def] assms(4)]
  obtain r8 where 7: "readTrace ?fl (snd (readSized (snd (readSized (snd (read_u64 (snd (read_u64
      (snd (readExpiresAt ?fl (snd (readTtl ?fl (snd (read_u8 r0)))))))))))))) = (rq_trace_id req,
      (if rq_trace_id req = 0 then 0 else rq_span_id req), r8)" "rest r8 = tok"
    using readTrace_traceBytes [OF reads_rest [OF 6, unfolded t7_def], of ?fl] by auto
  have 8: "readAuth ?fl r8 = tok"
    by (rule readAuth_token [OF 7(2) assms(2)]) simp
  show ?thesis
    unfolding decode_def
    by (simp add: parseFrame_frameBytes [OF assms(1)] r0_def [symmetric] bindR_reads [OF 0]
        bindR_reads [OF 1] bindR_reads [OF 2] bindR_reads [OF 3] bindR_reads [OF 4]
        bindR_reads [OF 5] bindR_reads [OF 6] 7(1) 8 canonRequest_def Let_def)
qed

subsection \<open>What a successful decode consumed\<close>

lemma bindR_InrD: "bindR m k = Inr d \<Longrightarrow> \<exists>a r. m = (Inr a, r) \<and> k a r = Inr d"
  by (auto simp: bindR_def split: prod.splits sum.splits)

lemma read_consumes:
  "read_u8 r = (Inr a8, r') \<Longrightarrow> length (rest r) = 1 + length (rest r')"
  "read_u32 r = (Inr a32, r') \<Longrightarrow> length (rest r) = 4 + length (rest r')"
  "read_u64 r = (Inr a64, r') \<Longrightarrow> length (rest r) = 8 + length (rest r')"
  "readStringView n r = (Inr s, r') \<Longrightarrow> length (rest r) = n + length (rest r') \<and> length s = n"
  by (auto simp: read_u8_def read_u32_def read_u64_def readT_rest codec_simps split: if_splits)

lemma readTtl_consumes:
  assumes "readTtl flags r = (Inr t, r')"
  shows "length (rest r) = length (ttlBytes t) + length (rest r')"
    and "map_option (\<lambda>t. t mod 2 ^ 32) t = t"
proof -
  have u: "uint (w :: u32) mod 2 ^ 32 = uint w" for w
    using uint_lt2p [of w] by (simp add: mod_pos_pos_trivial)
  from assms show "length (rest r) = length (ttlBytes t) + length (rest r')"
    by (auto simp: readTtl_def dest!: read_consumes(2) split: if_splits prod.splits sum.splits)
  from assms u show "map_option (\<lambda>t. t mod 2 ^ 32) t = t"
    by (auto simp: readTtl_def split: if_splits prod.splits sum.splits)
qed

lemma truncMs_ms [simp]: "0 \<le> x \<Longrightarrow> truncMs (x * 1000000) = x"
  by (simp add: truncMs_def abs_mult sgn_mult sgn_if)

lemma readExpiresAt_consumes:
  assumes "readExpiresAt flags r = (Inr e, r')"
  shows "length (rest r) = length (expiryBytes e) + length (rest r')"
    and "map_option (\<lambda>x. truncMs x * 1000000) e = e"
    and "\<And>x. e = Some x \<Longrightarrow> 0 \<le> x \<and> x < 2 ^ 63"
proof -
  from assms show "length (rest r) = length (expiryBytes e) + length (rest r')"
    by (auto simp: readExpiresAt_def dest!: read_consumes(3)
        split: if_splits prod.splits sum.splits)
  from assms show "map_option (\<lambda>x. truncMs x * 1000000) e = e"
    by (auto simp: readExpiresAt_def split: if_splits prod.splits sum.splits)
  fix x assume "e = Some x"
  with assms obtain t :: u64 where "x = uint t * 1000000" "unat t \<le> 9223372036854"
    by (auto simp: readExpiresAt_def K_MAX_MS_def not_less split: if_splits prod.splits sum.splits)
  moreover from this(2) have "uint t \<le> 9223372036854"
    by (metis nat_le_iff nat_uint_eq of_nat_numeral)
  ultimately show "0 \<le> x \<and> x < 2 ^ 63" by auto
qed

lemma readSized_consumes:
  assumes "readSized r = (Inr s, r')"
  shows "length (rest r) = 4 + length s + length (rest r') \<and> length s < 2 ^ 32"
  using assms
  by (auto simp: readSized_def dest!: read_consumes(2,4) split: if_splits prod.splits sum.splits)

lemma readTrace_consumes:
  assumes "readTrace flags r = (tid, sid, r')"
  shows "length (traceBytes tid sid) + length (rest r') \<le> length (rest r)"
    and "tid = 0 \<Longrightarrow> sid = 0"
  using assms by (auto simp: readTrace_def read_u64_def readT_rest split: if_splits)

lemma readAuth_consumes:
  "length (readAuth flags r) \<le> length (rest r) \<and>
   (readAuth flags r = [] \<or> length (readAuth flags r) = 32)"
  by (auto simp: readAuth_def codec_simps)

lemma parseFrame_bound: "parseFrame frame = Inr v \<Longrightarrow> length (fv_payload v) \<le> K_MAX_PAYLOAD_SIZE"
  by (auto simp: parseFrame_def Let_def split: if_splits)

lemma decode_InrD:
  assumes "decode frame = Inr d"
  shows "canonRequest (dr_req d) = dr_req d"
    and "length (requestPayload (dr_req d) (dr_auth_token d)) \<le> K_MAX_PAYLOAD_SIZE"
    and "dr_auth_token d = [] \<or> length (dr_auth_token d) = 32"
    and "length (rq_key (dr_req d)) < 2 ^ 32" and "length (rq_value (dr_req d)) < 2 ^ 32"
    and "\<And>x. rq_expires_at (dr_req d) = Some x \<Longrightarrow> 0 \<le> x \<and> x < 2 ^ 63"
proof -
  from assms obtain view flags r1 ttl r2 ex r3 ver r4 wr r5 key r6 val r7 tid sid r8 where
    v: "parseFrame frame = Inr view"
    and 0: "read_u8 (ByteReader (fv_payload view)) = (Inr flags, r1)"
    and 1: "readTtl flags r1 = (Inr ttl, r2)" and 2: "readExpiresAt flags r2 = (Inr ex, r3)"
    and 3: "read_u64 r3 = (Inr ver, r4)" and 4: "read_u64 r4 = (Inr wr, r5)"
    and 5: "readSized r5 = (Inr key, r6)" and 6: "readSized r6 = (Inr val, r7)"
    and 7: "readTrace flags r7 = (tid, sid, r8)"
    and d: "d = \<lparr>dr_req = \<lparr>rq_opcode = byteOpcode (fv_opcode view), rq_trace_id = tid,
        rq_span_id = sid, rq_key = key, rq_value = val, rq_version = ver, rq_writer = wr,
        rq_ttl = ttl, rq_expires_at = ex, rq_tombstone = hasFlag flags K_FLAG_HAS_TOMBSTONE\<rparr>,
        dr_auth_token = readAuth flags r8\<rparr>"
    unfolding decode_def
    by (auto simp: Let_def dest!: bindR_InrD split: sum.splits if_splits prod.splits)
  show "canonRequest (dr_req d) = dr_req d"
    using readTtl_consumes(2) [OF 1] readExpiresAt_consumes(2) [OF 2] readTrace_consumes(2) [OF 7]
    by (simp add: canonRequest_def d)
  show "length (requestPayload (dr_req d) (dr_auth_token d)) \<le> K_MAX_PAYLOAD_SIZE"
    using parseFrame_bound [OF v] read_consumes(1) [OF 0] readTtl_consumes(1) [OF 1]
      readExpiresAt_consumes(1) [OF 2] read_consumes(3) [OF 3] read_consumes(3) [OF 4]
      readSized_consumes [OF 5] readSized_consumes [OF 6] readTrace_consumes(1) [OF 7]
      readAuth_consumes [of flags r8]
    by (simp add: requestPayload_def d)
  show "dr_auth_token d = [] \<or> length (dr_auth_token d) = 32"
    using readAuth_consumes [of flags r8] by (simp add: d)
  show "length (rq_key (dr_req d)) < 2 ^ 32" "length (rq_value (dr_req d)) < 2 ^ 32"
    using readSized_consumes [OF 5] readSized_consumes [OF 6] by (simp_all add: d)
  show "\<And>x. rq_expires_at (dr_req d) = Some x \<Longrightarrow> 0 \<le> x \<and> x < 2 ^ 63"
    using readExpiresAt_consumes(3) [OF 2] by (simp add: d)
qed

lemma encode_fits:
  assumes "length (requestPayload req tok) \<le> K_MAX_PAYLOAD_SIZE" "tok = [] \<or> length tok = 32"
  shows "encode req tok = Inr (frameBytes (opcodeByte (rq_opcode req)) (requestPayload req tok))"
  using assms by (simp add: encode_def encodeInto_eq requestPayloadSize_eq Let_def)

subsection \<open>Responses\<close>

definition valueBytes :: "string option \<Rightarrow> bytes" where
  "valueBytes v = beBytes (if v \<noteq> None then 1 else 0 :: u32) @ (case v of None \<Rightarrow> [] | Some s \<Rightarrow> s)"

definition metaBytes :: "u64 \<Rightarrow> u64 \<Rightarrow> bytes" where
  "metaBytes v wr = (if v \<noteq> 0 \<or> wr \<noteq> 0 then beBytes v @ beBytes wr else [])"

definition responsePayload :: "Response \<Rightarrow> bytes" where
  "responsePayload res =
     beBytes (rs_status res) @ beBytes (responseFlags res) @ metaBytes (rs_version res) (rs_writer res)
     @ expiryBytes (rs_expires_at res) @ valueBytes (rs_value res)
     @ traceBytes (rs_trace_id res) (rs_span_id res)"

definition canonResponse :: "Response \<Rightarrow> Response" where
  "canonResponse res = res\<lparr>
     rs_expires_at := map_option (\<lambda>x. truncMs x * 1000000) (rs_expires_at res),
     rs_span_id := (if rs_trace_id res = 0 then 0 else rs_span_id res)\<rparr>"

lemma length_valueBytes [simp]:
  "length (valueBytes v) = 4 + (case v of None \<Rightarrow> 0 | Some s \<Rightarrow> length s)"
  "length (metaBytes ver wr) = (if ver = 0 \<and> wr = 0 then 0 else 16)"
  by (auto simp: valueBytes_def metaBytes_def split: option.splits)

lemma responsePayloadSize_eq:
  "responsePayloadSize res =
     (let n = length (responsePayload res) in
      if n \<le> K_MAX_PAYLOAD_SIZE then Inr n else Inl tooLarge)"
  by (auto simp: responsePayloadSize_def responsePayload_def addAll_eq addPayloadSize_eq size_defs
      Let_def split: option.splits if_splits)

lemma encodeResponseInto_eq:
  "encodeResponseInto res =
     (if length (responsePayload res) \<le> K_MAX_PAYLOAD_SIZE
      then Inr (frameBytes 0 (responsePayload res)) else Inl tooLarge)"
proof (cases "length (responsePayload res) \<le> K_MAX_PAYLOAD_SIZE")
  case False
  then show ?thesis by (simp add: encodeResponseInto_def responsePayloadSize_eq Let_def)
next
  case True
  define n where "n = length (responsePayload res)"
  let ?m = "rs_version res \<noteq> 0 \<or> rs_writer res \<noteq> 0" and ?t = "rs_trace_id res"
  let ?bss = "[beBytes K_MAGIC, beBytes K_VERSION, beBytes (0 :: u8), beBytes (word_of_nat n :: u32),
      beBytes (rs_status res), beBytes (responseFlags res),
      (if ?m then beBytes (rs_version res) else []), (if ?m then beBytes (rs_writer res) else []),
      expiryBytes (rs_expires_at res), beBytes (if rs_value res \<noteq> None then 1 else 0 :: u32),
      (case rs_value res of None \<Rightarrow> [] | Some s \<Rightarrow> s),
      (if ?t = 0 then [] else beBytes ?t), (if ?t = 0 then [] else beBytes (rs_span_id res))]"
  have cat: "concat ?bss = frameBytes 0 (responsePayload res)"
    by (simp add: frameBytes_def responsePayload_def n_def valueBytes_def traceBytes_def
        metaBytes_def)
  have len: "length (concat ?bss) = 7 + n"
    unfolding cat by (simp add: n_def)
  have "encodeResponseInto res = Inr (wr_out (fold writeBytes ?bss (ByteWriter (7 + n))))"
    using True
    by (simp add: encodeResponseInto_def responsePayloadSize_eq frameSizeForPayload_def writer_defs
        Let_def expiryBytes_def K_FRAME_HEADER_SIZE_def n_def [symmetric] whenSome_def
        split: option.splits)
  also have "fold writeBytes ?bss (ByteWriter (7 + n)) = writeBytes (concat ?bss) (ByteWriter (7 + n))"
    by (rule fold_writeBytes) (simp only: len order_refl)
  also have "wr_out \<dots> = concat ?bss"
    by (simp only: writeBytes_all [OF len] Writer.simps)
  finally show ?thesis using True by (simp only: cat if_True)
qed

lemma reads_meta:
  assumes "rest r = metaBytes v wr @ xs" "hasFlag flags 1 \<longleftrightarrow> v \<noteq> 0 \<or> wr \<noteq> 0"
  shows "reads (readVersionMeta flags r) (v, wr) xs"
  using assms by (auto simp: reads_def readVersionMeta_def metaBytes_def codec_simps)

lemma reads_value:
  assumes "rest r = valueBytes v @ traceBytes tid sid" "hasFlag flags K_FLAG_HAS_TRACE \<longleftrightarrow> tid \<noteq> 0"
  shows "reads (readResponseValue flags r) v (traceBytes tid sid)"
  using assms
  by (cases v) (auto simp: reads_def readResponseValue_def valueBytes_def codec_simps Let_def)

lemma decode_responsePayload:
  assumes "length (responsePayload res) \<le> K_MAX_PAYLOAD_SIZE"
    and "\<And>x. rs_expires_at res = Some x \<Longrightarrow> 0 \<le> x \<and> x < 2 ^ 63"
  shows "decodeResponse (frameBytes op (responsePayload res) @ junk) = Inr (canonResponse res)"
proof -
  let ?fl = "responseFlags res"
  define t4 where "t4 = valueBytes (rs_value res) @ traceBytes (rs_trace_id res) (rs_span_id res)"
  define t3 where "t3 = expiryBytes (rs_expires_at res) @ t4"
  define t2 where "t2 = metaBytes (rs_version res) (rs_writer res) @ t3"
  define r0 where "r0 = ByteReader (responsePayload res)"
  have 0: "reads (read_u8 r0) (rs_status res) (beBytes ?fl @ t2)"
    by (rule reads_fields) (simp add: r0_def responsePayload_def t2_def t3_def t4_def)
  note 1 = reads_fields(1) [OF reads_rest [OF 0]]
  note 2 = reads_meta [OF reads_rest [OF 1, unfolded t2_def] responseFlags_bits(1)]
  note 3 = reads_expiry [OF reads_rest [OF 2, unfolded t3_def] responseFlags_bits(2) assms(2)]
  note 4 = reads_value [OF reads_rest [OF 3, unfolded t4_def] responseFlags_bits(4)]
  have 5: "rest (snd (readResponseValue ?fl (snd (readExpiresAt ?fl (snd (readVersionMeta ?fl
      (snd (read_u8 (snd (read_u8 r0)))))))))) = traceBytes (rs_trace_id res) (rs_span_id res) @ []"
    using reads_rest [OF 4] by simp
  have f: "remaining (snd (read_u8 r0)) > 0"
    by (simp add: reads_rest [OF 0])
  show ?thesis
    using readTrace_traceBytes [OF 5 responseFlags_bits(4)] f unfolding decodeResponse_def
    by (auto simp: parseFrame_frameBytes [OF assms(1)] r0_def [symmetric] bindR_reads [OF 0]
        bindR_reads [OF 1] bindR_reads [OF 2] bindR_reads [OF 3] bindR_reads [OF 4]
        canonResponse_def Let_def simp del: remaining_rest)
qed

section \<open>Properties\<close>

definition expiryInRange :: "int option \<Rightarrow> bool" where
  "expiryInRange x = (case x of None \<Rightarrow> True | Some t \<Rightarrow> 0 \<le> t \<and> t < 2 ^ 63)"

definition sampleRequest :: Request where
  "sampleRequest = \<lparr>rq_opcode = OpSet, rq_trace_id = 7, rq_span_id = 9, rq_key = ''k'', rq_value = ''val'',
     rq_version = 3, rq_writer = 5, rq_ttl = Some 1500, rq_expires_at = Some 2000000,
     rq_tombstone = True\<rparr>"

definition sampleResponse :: Response where
  "sampleResponse = \<lparr>rs_status = 0, rs_value = Some ''val'', rs_version = 3, rs_writer = 5,
     rs_expires_at = Some 2000000, rs_tombstone = False, rs_trace_id = 7, rs_span_id = 9\<rparr>"

lemma expiryInRangeD: "expiryInRange x \<Longrightarrow> x = Some t \<Longrightarrow> 0 \<le> t \<and> t < 2 ^ 63"
  by (simp add: expiryInRange_def)

lemma sample_fits:
  "length (requestPayload sampleRequest []) \<le> K_MAX_PAYLOAD_SIZE"
  "length (responsePayload sampleResponse) \<le> K_MAX_PAYLOAD_SIZE"
  by (simp_all add: sampleRequest_def requestPayload_def sampleResponse_def responsePayload_def size_defs
      ttlBytes_def expiryBytes_def sizedBytes_def traceBytes_def)

lemma sample_canon:
  "canonRequest sampleRequest = sampleRequest" "canonResponse sampleResponse = sampleResponse"
  by (simp_all add: canonRequest_def sampleRequest_def canonResponse_def sampleResponse_def truncMs_def)

lemma sample_expiry:
  "expiryInRange (rq_expires_at sampleRequest)" "expiryInRange (rs_expires_at sampleResponse)"
  by (simp_all add: expiryInRange_def sampleRequest_def sampleResponse_def)

text \<open>
  C28. Request round trip: a frame the encoder produced, whatever bytes follow it in the receive
  buffer, decodes to the request with its TTL reduced to 32 bits, its expiry cut to whole
  milliseconds and its span id dropped when there is no trace, and to the same auth token.
\<close>

theorem request_roundtrip:
  assumes "encode req tok = Inr buf" and "expiryInRange (rq_expires_at req)"
  shows "decode (buf @ junk) = Inr \<lparr>dr_req = canonRequest req, dr_auth_token = tok\<rparr>"
  using decode_requestPayload [OF encode_InrD(2-5) [OF assms(1)] expiryInRangeD [OF assms(2)]]
  by (simp add: encode_InrD(1) [OF assms(1)])

theorem request_roundtrip_witness:
  "\<exists>buf. encode sampleRequest [] = Inr buf
     \<and> decode (buf @ ''tail'') = Inr \<lparr>dr_req = sampleRequest, dr_auth_token = []\<rparr>"
  using request_roundtrip [OF encode_fits [OF sample_fits(1)] sample_expiry(1)]
  by (simp add: sample_canon encode_fits [OF sample_fits(1)])

text \<open>
  Every frame the decoder accepts is a request the encoder accepts, and re-encoding it and
  decoding again gives the same request and token: a node can forward what it received.
\<close>

theorem decode_encode_decode:
  assumes "decode frame = Inr d"
  shows "\<exists>buf. encode (dr_req d) (dr_auth_token d) = Inr buf \<and> decode buf = Inr d"
  using decode_requestPayload [OF decode_InrD(2-6) [OF assms], of "[]"]
    encode_fits [OF decode_InrD(2,3) [OF assms]] decode_InrD(1) [OF assms]
  by simp

theorem decode_encode_decode_witness:
  "\<exists>buf. encode sampleRequest [] = Inr buf \<and> decode buf = Inr \<lparr>dr_req = sampleRequest, dr_auth_token = []\<rparr>"
proof -
  have "decode (frameBytes (opcodeByte (rq_opcode sampleRequest)) (requestPayload sampleRequest []) @ [])
    = Inr \<lparr>dr_req = canonRequest sampleRequest, dr_auth_token = []\<rparr>"
    by (rule decode_requestPayload [OF sample_fits(1) _ _ _ expiryInRangeD [OF sample_expiry(1)]])
      (simp_all add: sampleRequest_def)
  from decode_encode_decode [OF this] show ?thesis by (simp add: sample_canon)
qed

text \<open>
  C31. Response round trip: an encoded response, followed by any bytes, decodes to the same response
  up to whole milliseconds of the expiry and the span id of an untraced response.
\<close>

theorem response_roundtrip:
  assumes "encodeResponseInto res = Inr buf" and "expiryInRange (rs_expires_at res)"
  shows "decodeResponse (buf @ junk) = Inr (canonResponse res)"
proof -
  from assms(1) have "length (responsePayload res) \<le> K_MAX_PAYLOAD_SIZE"
    and "buf = frameBytes 0 (responsePayload res)"
    by (simp_all add: encodeResponseInto_eq split: if_splits)
  then show ?thesis
    using decode_responsePayload [OF _ expiryInRangeD [OF assms(2)]] by simp
qed

theorem response_roundtrip_witness:
  "\<exists>buf. encodeResponseInto sampleResponse = Inr buf \<and> decodeResponse (buf @ ''tail'') = Inr sampleResponse"
proof -
  have e: "encodeResponseInto sampleResponse = Inr (frameBytes 0 (responsePayload sampleResponse))"
    by (simp add: encodeResponseInto_eq sample_fits)
  from response_roundtrip [OF e sample_expiry(2)] e show ?thesis by (simp add: sample_canon)
qed

text \<open>
  C32. The encoder's size accounting is exact: it accepts a request iff its payload fits the message
  limit and the token is absent or 32 bytes long, and then the frame is header plus payload, of
  the precomputed length (the final \<open>assert\<close> on the written size holds), with the payload length
  in the header read back by the frame parser.
\<close>

theorem encode_size_exact:
  "case encode req tok of
     Inr buf \<Rightarrow>
       length (requestPayload req tok) \<le> K_MAX_PAYLOAD_SIZE \<and> length tok \<in> {0, 32}
       \<and> requestPayloadSize req tok = Inr (length buf - K_FRAME_HEADER_SIZE)
       \<and> K_FRAME_HEADER_SIZE < length buf \<and> length buf \<le> K_MAX_MESSAGE_SIZE
       \<and> parseFrame buf = Inr \<lparr>fv_opcode = opcodeByte (rq_opcode req),
            fv_payload = drop K_FRAME_HEADER_SIZE buf\<rparr>
   | Inl e \<Rightarrow> \<not> (length (requestPayload req tok) \<le> K_MAX_PAYLOAD_SIZE \<and> length tok \<in> {0, 32})"
proof (cases "length (requestPayload req tok) \<le> K_MAX_PAYLOAD_SIZE \<and> (tok = [] \<or> length tok = 32)")
  case True
  then have p: "parseFrame (frameBytes (opcodeByte (rq_opcode req)) (requestPayload req tok) @ [])
    = Inr \<lparr>fv_opcode = opcodeByte (rq_opcode req), fv_payload = requestPayload req tok\<rparr>"
    by (blast intro: parseFrame_frameBytes)
  have d: "drop K_FRAME_HEADER_SIZE (frameBytes op xs) = xs" for op xs
    by (simp add: frameBytes_def K_FRAME_HEADER_SIZE_def numeral_3_eq_3)
  have "0 < length (requestPayload req tok)"
    by (simp add: requestPayload_def)
  with True p d show ?thesis
    by (auto simp: encode_fits requestPayloadSize_eq Let_def K_MAX_PAYLOAD_SIZE_def K_FRAME_HEADER_SIZE_def
        K_MAX_MESSAGE_SIZE_def)
next
  case False
  then show ?thesis
    by (auto simp: encode_def encodeInto_eq requestPayloadSize_eq Let_def)
qed

end
