(* ===== verification/HintQueue.thy ===== *)
theory HintQueue
  imports Protocol "HOL-Library.Monad_Syntax"
begin

text \<open>
  The bounded queue of replication hints (\<open>include/cinder/node/hint_queue.hpp\<close>): a fixed slot array whose
  used slots form a doubly linked list in FIFO order and whose released slots form a free list. Following a
  link that is \<open>K_NONE\<close> or dereferencing an empty \<open>optional\<close> is undefined in C++ and a loop may in principle
  not end; both are the value \<open>None\<close> here, and the theorems show that neither happens. The implementation
  defined \<open>sizeof(Hint)\<close> is the parameter \<open>sz\<close>. Metric sinks are left out.
\<close>

section \<open>Model\<close>

definition K_CAPACITY :: nat where "K_CAPACITY = 1024"

definition K_NONE :: nat where "K_NONE = K_CAPACITY"

definition K_DEFAULT_MAX_BYTES :: nat where "K_DEFAULT_MAX_BYTES = 67108864"

record Hint =
  ht_target :: NodeId
  ht_req :: Request
  ht_expires_at :: int

type_synonym Handle = "nat \<times> u64"

text \<open>A request with the defaults of \<open>net::Request\<close>.\<close>

definition emptyRequest :: "Opcode \<Rightarrow> string \<Rightarrow> Request" where
  "emptyRequest opc key = \<lparr>rq_opcode = opc, rq_trace_id = 0, rq_span_id = 0, rq_key = key, rq_value = [], rq_version = 0,
     rq_writer = 0, rq_ttl = None, rq_expires_at = None, rq_tombstone = False\<rparr>"

record Slot =
  sl_hint :: "Hint option"
  sl_prev :: nat
  sl_next :: nat
  sl_free_next :: nat
  sl_generation :: u64

record HintQueue =
  hq_slots :: "Slot list"
  hq_next_unused :: nat
  hq_free_head :: nat
  hq_head :: nat
  hq_tail :: nat
  hq_size :: nat
  hq_bytes :: nat
  hq_peak :: nat
  hq_max_bytes :: nat
  hq_dropped :: u64

definition emptySlot :: Slot where
  "emptySlot = \<lparr>sl_hint = None, sl_prev = K_NONE, sl_next = K_NONE, sl_free_next = K_NONE, sl_generation = 0\<rparr>"

definition newHintQueue :: HintQueue where
  "newHintQueue = \<lparr>hq_slots = replicate K_CAPACITY emptySlot, hq_next_unused = 0, hq_free_head = K_NONE, hq_head = K_NONE,
     hq_tail = K_NONE, hq_size = 0, hq_bytes = 0, hq_peak = 0, hq_max_bytes = K_DEFAULT_MAX_BYTES, hq_dropped = 0\<rparr>"

definition estimatedPayloadBytes :: "nat \<Rightarrow> Hint \<Rightarrow> nat" where
  "estimatedPayloadBytes sz h = sz + length (ht_target h) + length (rq_key (ht_req h)) + length (rq_value (ht_req h))"

definition reqStamp :: "Request \<Rightarrow> LwwStamp" where
  "reqStamp r = \<lparr>st_version = rq_version r, st_writer = rq_writer r, st_tombstone = rq_tombstone r\<rparr>"

definition isNewerThan :: "Request \<Rightarrow> Request \<Rightarrow> bool" where
  "isNewerThan a b \<longleftrightarrow> lwwCovers (reqStamp a) (reqStamp b)"

definition publishMetrics :: "HintQueue \<Rightarrow> HintQueue" where
  "publishMetrics q = q\<lparr>hq_peak := max (hq_peak q) (hq_bytes q)\<rparr>"

text \<open>\<open>slot.hint->...\<close> and the update of one field of one slot.\<close>

definition hintAt :: "nat \<Rightarrow> HintQueue \<Rightarrow> Hint option" where
  "hintAt i q = (if i < K_CAPACITY then sl_hint (hq_slots q ! i) else None)"

definition modSlot :: "nat \<Rightarrow> (Slot \<Rightarrow> Slot) \<Rightarrow> HintQueue \<Rightarrow> HintQueue" where
  "modSlot i f q = q\<lparr>hq_slots := (hq_slots q)[i := f (hq_slots q ! i)]\<rparr>"

definition acquireSlot :: "HintQueue \<Rightarrow> nat \<times> HintQueue" where
  "acquireSlot q =
     (if hq_free_head q \<noteq> K_NONE then
        let index = hq_free_head q;
            q = q\<lparr>hq_free_head := sl_free_next (hq_slots q ! index)\<rparr>
        in (index, modSlot index (\<lambda>s. s\<lparr>sl_free_next := K_NONE\<rparr>) q)
      else (hq_next_unused q, q\<lparr>hq_next_unused := hq_next_unused q + 1\<rparr>))"

definition linkAtTail :: "nat \<Rightarrow> HintQueue \<Rightarrow> HintQueue" where
  "linkAtTail index q =
     (let q = modSlot index (\<lambda>s. s\<lparr>sl_prev := hq_tail q, sl_next := K_NONE\<rparr>) q;
          q = (if hq_tail q \<noteq> K_NONE then modSlot (hq_tail q) (\<lambda>s. s\<lparr>sl_next := index\<rparr>) q else q\<lparr>hq_head := index\<rparr>)
      in q\<lparr>hq_tail := index\<rparr>)"

definition unlinkAndRelease :: "nat \<Rightarrow> nat \<Rightarrow> HintQueue \<Rightarrow> HintQueue option" where
  "unlinkAndRelease sz index q = do {
     h \<leftarrow> hintAt index q;
     let q = q\<lparr>hq_bytes := hq_bytes q - estimatedPayloadBytes sz h\<rparr>;
     let prev = sl_prev (hq_slots q ! index);
     let next = sl_next (hq_slots q ! index);
     let q = (if prev \<noteq> K_NONE then modSlot prev (\<lambda>s. s\<lparr>sl_next := next\<rparr>) q else q\<lparr>hq_head := next\<rparr>);
     let q = (if next \<noteq> K_NONE then modSlot next (\<lambda>s. s\<lparr>sl_prev := prev\<rparr>) q else q\<lparr>hq_tail := prev\<rparr>);
     let q = modSlot index (\<lambda>s. s\<lparr>sl_hint := None, sl_prev := K_NONE, sl_next := K_NONE, sl_free_next := hq_free_head q\<rparr>) q;
     Some (q\<lparr>hq_free_head := index, hq_size := hq_size q - 1\<rparr>)
   }"

text \<open>The scans from a slot on: the index of the first hint that satisfies the test, or \<open>K_NONE\<close>.\<close>

partial_function (option) scanFor :: "(Hint \<Rightarrow> bool) \<Rightarrow> HintQueue \<Rightarrow> nat \<Rightarrow> nat option" where
  "scanFor P q index =
     (if index = K_NONE then Some K_NONE
      else Option.bind (hintAt index q) (\<lambda>h. if P h then Some index else scanFor P q (sl_next (hq_slots q ! index))))"

partial_function (option) evictFor :: "nat \<Rightarrow> nat \<Rightarrow> HintQueue \<Rightarrow> HintQueue option" where
  "evictFor sz incoming q =
     (if hq_size q = K_CAPACITY \<or> hq_bytes q + incoming > hq_max_bytes q then
        Option.bind (unlinkAndRelease sz (hq_head q) q) (\<lambda>q. evictFor sz incoming (q\<lparr>hq_dropped := hq_dropped q + 1\<rparr>))
      else Some q)"

definition storeHint :: "nat \<Rightarrow> Hint \<Rightarrow> HintQueue \<Rightarrow> HintQueue" where
  "storeHint sz hint q =
     (case acquireSlot q of (index, q) \<Rightarrow>
        let q = modSlot index (\<lambda>s. s\<lparr>sl_generation := sl_generation s + 1\<rparr>) q;
            q = q\<lparr>hq_bytes := hq_bytes q + estimatedPayloadBytes sz hint\<rparr>;
            q = modSlot index (\<lambda>s. s\<lparr>sl_hint := Some hint\<rparr>) q;
            q = linkAtTail index q
        in publishMetrics (q\<lparr>hq_size := hq_size q + 1\<rparr>))"

definition sameSlotAs :: "Hint \<Rightarrow> Hint \<Rightarrow> bool" where
  "sameSlotAs hint h \<longleftrightarrow> ht_target h = ht_target hint \<and> rq_key (ht_req h) = rq_key (ht_req hint)"

definition hqPush :: "nat \<Rightarrow> Hint \<Rightarrow> HintQueue \<Rightarrow> (bool \<times> HintQueue) option" where
  "hqPush sz hint q =
     (let incoming = estimatedPayloadBytes sz hint in
      if incoming > hq_max_bytes q then Some (False, publishMetrics (q\<lparr>hq_dropped := hq_dropped q + 1\<rparr>))
      else do {
        index \<leftarrow> (if hq_size q > 0 then scanFor (sameSlotAs hint) q (hq_head q) else Some K_NONE);
        if index \<noteq> K_NONE \<and> \<not> isNewerThan (ht_req hint) (ht_req (the (hintAt index q))) then Some (False, q)
        else do {
          q \<leftarrow> (if index \<noteq> K_NONE then unlinkAndRelease sz index q else Some q);
          q \<leftarrow> evictFor sz incoming q;
          Some (True, storeHint sz hint q)
        }
      })"

partial_function (option) snapLoop :: "nat \<Rightarrow> int \<Rightarrow> nat \<Rightarrow> nat \<Rightarrow> (Hint \<times> Handle) list \<Rightarrow> HintQueue \<Rightarrow> ((Hint \<times> Handle) list \<times> HintQueue) option" where
  "snapLoop sz now max_entries index live q =
     (if index \<noteq> K_NONE \<and> length live < max_entries then
        Option.bind (hintAt index q) (\<lambda>h.
          let next = sl_next (hq_slots q ! index) in
          if ht_expires_at h \<le> now then Option.bind (unlinkAndRelease sz index q) (\<lambda>q. snapLoop sz now max_entries next live q)
          else snapLoop sz now max_entries next (live @ [(h, index, sl_generation (hq_slots q ! index))]) q)
      else Some (live, publishMetrics q))"

definition hqSnapshot :: "nat \<Rightarrow> int \<Rightarrow> nat \<Rightarrow> HintQueue \<Rightarrow> ((Hint \<times> Handle) list \<times> HintQueue) option" where
  "hqSnapshot sz now max_entries q = snapLoop sz now max_entries (hq_head q) [] q"

definition hqRemove :: "nat \<Rightarrow> Handle \<Rightarrow> HintQueue \<Rightarrow> HintQueue option" where
  "hqRemove sz handle q =
     (case handle of (index, generation) \<Rightarrow>
        if index \<ge> K_CAPACITY then Some q
        else if sl_hint (hq_slots q ! index) = None \<or> sl_generation (hq_slots q ! index) \<noteq> generation then Some q
        else map_option publishMetrics (unlinkAndRelease sz index q))"

definition hqRemoveReq :: "nat \<Rightarrow> NodeId \<Rightarrow> Request \<Rightarrow> HintQueue \<Rightarrow> HintQueue option" where
  "hqRemoveReq sz target req q = do {
     index \<leftarrow> scanFor (\<lambda>h. ht_target h = target \<and> rq_key (ht_req h) = rq_key req \<and> rq_version (ht_req h) = rq_version req) q (hq_head q);
     if index = K_NONE then Some q else map_option publishMetrics (unlinkAndRelease sz index q)
   }"

definition hqSetMaxBytes :: "nat \<Rightarrow> HintQueue \<Rightarrow> HintQueue" where
  "hqSetMaxBytes n q = q\<lparr>hq_max_bytes := n\<rparr>"

text \<open>A call on the queue and a run of calls; \<open>hqReplay\<close> is a snapshot of everything, handed to the visitor.\<close>

definition hqReplay :: "nat \<Rightarrow> int \<Rightarrow> HintQueue \<Rightarrow> (Hint list \<times> HintQueue) option" where
  "hqReplay sz now q = map_option (\<lambda>(live, q). (map fst live, q)) (hqSnapshot sz now K_CAPACITY q)"

datatype HintCall = Push Hint | Snapshot int nat | Remove Handle | RemoveReq NodeId Request | SetMaxBytes nat

datatype HintReturn = Accepted bool | Live "(Hint \<times> Handle) list" | Done

fun hqCall :: "nat \<Rightarrow> HintCall \<Rightarrow> HintQueue \<Rightarrow> (HintReturn \<times> HintQueue) option" where
  "hqCall sz (Push h) q = map_option (map_prod Accepted id) (hqPush sz h q)"
| "hqCall sz (Snapshot now n) q = map_option (map_prod Live id) (hqSnapshot sz now n q)"
| "hqCall sz (Remove handle) q = map_option (Pair Done) (hqRemove sz handle q)"
| "hqCall sz (RemoveReq t r) q = map_option (Pair Done) (hqRemoveReq sz t r q)"
| "hqCall sz (SetMaxBytes n) q = Some (Done, hqSetMaxBytes n q)"

fun hqRun :: "nat \<Rightarrow> HintCall list \<Rightarrow> HintQueue \<Rightarrow> (HintReturn list \<times> HintQueue) option" where
  "hqRun sz [] q = Some ([], q)"
| "hqRun sz (c # cs) q = do {
     (r, q) \<leftarrow> hqCall sz c q;
     (rs, q) \<leftarrow> hqRun sz cs q;
     Some (r # rs, q)
   }"

section \<open>What the queue promises\<close>

text \<open>
  An abstract queue is a list of hints with their handles, oldest first, the byte budget and the drop counter.
  A push of a hint whose slot (target and key) is taken replaces the resident unless the resident is strictly newer; then the oldest
  hints go until the new one fits, and it is appended under a handle no queued hint has.
\<close>

type_synonym HintEntry = "Hint \<times> Handle"

record HintSpec =
  hs_entries :: "HintEntry list"
  hs_max :: nat
  hs_dropped :: u64

fun evictOldest :: "('a \<Rightarrow> nat) \<Rightarrow> nat \<Rightarrow> nat \<Rightarrow> 'a list \<Rightarrow> 'a list" where
  "evictOldest w budget incoming [] = []"
| "evictOldest w budget incoming (e # es) =
     (if length (e # es) = K_CAPACITY \<or> sum_list (map w (e # es)) + incoming > budget then evictOldest w budget incoming es else e # es)"

fun snapSpec :: "int \<Rightarrow> nat \<Rightarrow> HintEntry list \<Rightarrow> HintEntry list \<times> HintEntry list" where
  "snapSpec now n [] = ([], [])"
| "snapSpec now n (e # es) =
     (if n = 0 then ([], e # es)
      else if ht_expires_at (fst e) \<le> now then snapSpec now n es
      else case snapSpec now (n - 1) es of (live, left) \<Rightarrow> (e # live, e # left))"

fun removeFirst :: "('a \<Rightarrow> bool) \<Rightarrow> 'a list \<Rightarrow> 'a list" where
  "removeFirst P [] = []"
| "removeFirst P (x # xs) = (if P x then xs else x # removeFirst P xs)"

inductive hintSpec :: "nat \<Rightarrow> HintCall \<Rightarrow> HintReturn \<Rightarrow> HintSpec \<Rightarrow> HintSpec \<Rightarrow> bool" for sz where
  too_big: "estimatedPayloadBytes sz h > hs_max s \<Longrightarrow> hintSpec sz (Push h) (Accepted False) s (s\<lparr>hs_dropped := hs_dropped s + 1\<rparr>)"
| outdated: "estimatedPayloadBytes sz h \<le> hs_max s \<Longrightarrow> e \<in> set (hs_entries s) \<Longrightarrow> sameSlotAs h (fst e)
    \<Longrightarrow> \<not> isNewerThan (ht_req h) (ht_req (fst e)) \<Longrightarrow> hintSpec sz (Push h) (Accepted False) s s"
| queued: "estimatedPayloadBytes sz h \<le> hs_max s \<Longrightarrow> \<forall>e \<in> set (hs_entries s). sameSlotAs h (fst e) \<longrightarrow> isNewerThan (ht_req h) (ht_req (fst e))
    \<Longrightarrow> kept = filter (\<lambda>e. \<not> sameSlotAs h (fst e)) (hs_entries s)
    \<Longrightarrow> left = evictOldest (estimatedPayloadBytes sz \<circ> fst) (hs_max s) (estimatedPayloadBytes sz h) kept
    \<Longrightarrow> handle \<notin> snd ` set left
    \<Longrightarrow> hintSpec sz (Push h) (Accepted True) s
          (s\<lparr>hs_entries := left @ [(h, handle)], hs_dropped := hs_dropped s + of_nat (length kept - length left)\<rparr>)"
| snapshot: "snapSpec now n (hs_entries s) = (live, left) \<Longrightarrow> hintSpec sz (Snapshot now n) (Live live) s (s\<lparr>hs_entries := left\<rparr>)"
| remove: "hintSpec sz (Remove handle) Done s (s\<lparr>hs_entries := filter (\<lambda>e. snd e \<noteq> handle) (hs_entries s)\<rparr>)"
| remove_req: "hintSpec sz (RemoveReq t r) Done s
    (s\<lparr>hs_entries := removeFirst (\<lambda>e. ht_target (fst e) = t \<and> rq_key (ht_req (fst e)) = rq_key r \<and> rq_version (ht_req (fst e)) = rq_version r) (hs_entries s)\<rparr>)"
| set_max: "hintSpec sz (SetMaxBytes n) Done s (s\<lparr>hs_max := n\<rparr>)"

inductive_cases hintSpec_RemoveE: "hintSpec sz (Remove handle) r s s'"

inductive hintSpecRun :: "nat \<Rightarrow> HintCall list \<Rightarrow> HintReturn list \<Rightarrow> HintSpec \<Rightarrow> HintSpec \<Rightarrow> bool" for sz where
  finished: "hintSpecRun sz [] [] s s"
| step: "hintSpec sz c r s s' \<Longrightarrow> hintSpecRun sz cs rs s' s'' \<Longrightarrow> hintSpecRun sz (c # cs) (r # rs) s s''"

inductive_cases hintSpec_PushE: "hintSpec sz (Push h) r s s'"
inductive_cases hintSpecRun_NilE: "hintSpecRun sz [] rs s s'"
inductive_cases hintSpecRun_ConsE: "hintSpecRun sz (c # cs) rs s s'"

text \<open>The abstraction: follow the links from the head, as often as the size says.\<close>

fun walkFrom :: "nat \<Rightarrow> HintQueue \<Rightarrow> nat \<Rightarrow> nat list" where
  "walkFrom 0 q i = []"
| "walkFrom (Suc n) q i = i # walkFrom n q (sl_next (hq_slots q ! i))"

definition hintOf :: "HintQueue \<Rightarrow> nat \<Rightarrow> Hint" where
  "hintOf q i = the (sl_hint (hq_slots q ! i))"

definition entryAt :: "HintQueue \<Rightarrow> nat \<Rightarrow> HintEntry" where
  "entryAt q i = (hintOf q i, i, sl_generation (hq_slots q ! i))"

definition absQueue :: "HintQueue \<Rightarrow> HintSpec" where
  "absQueue q = \<lparr>hs_entries = map (entryAt q) (walkFrom (hq_size q) q (hq_head q)), hs_max = hq_max_bytes q, hs_dropped = hq_dropped q\<rparr>"

definition slotKey :: "HintEntry \<Rightarrow> NodeId \<times> Key" where
  "slotKey e = (ht_target (fst e), rq_key (ht_req (fst e)))"

section \<open>Parts of the state\<close>

lemma modSlot_fields [simp]:
  "hq_next_unused (modSlot i f q) = hq_next_unused q" "hq_free_head (modSlot i f q) = hq_free_head q" "hq_head (modSlot i f q) = hq_head q"
  "hq_tail (modSlot i f q) = hq_tail q" "hq_size (modSlot i f q) = hq_size q" "hq_bytes (modSlot i f q) = hq_bytes q"
  "hq_peak (modSlot i f q) = hq_peak q" "hq_max_bytes (modSlot i f q) = hq_max_bytes q" "hq_dropped (modSlot i f q) = hq_dropped q"
  by (simp_all add: modSlot_def)

lemma linkAtTail_fields [simp]:
  "hq_next_unused (linkAtTail i q) = hq_next_unused q" "hq_free_head (linkAtTail i q) = hq_free_head q"
  "hq_head (linkAtTail i q) = (if hq_tail q = K_NONE then i else hq_head q)" "hq_tail (linkAtTail i q) = i"
  "hq_size (linkAtTail i q) = hq_size q" "hq_bytes (linkAtTail i q) = hq_bytes q" "hq_peak (linkAtTail i q) = hq_peak q"
  "hq_max_bytes (linkAtTail i q) = hq_max_bytes q" "hq_dropped (linkAtTail i q) = hq_dropped q"
  by (simp_all add: linkAtTail_def Let_def)

lemma publishMetrics_fields [simp]:
  "hq_slots (publishMetrics q) = hq_slots q" "hq_next_unused (publishMetrics q) = hq_next_unused q" "hq_free_head (publishMetrics q) = hq_free_head q"
  "hq_head (publishMetrics q) = hq_head q" "hq_tail (publishMetrics q) = hq_tail q" "hq_size (publishMetrics q) = hq_size q"
  "hq_bytes (publishMetrics q) = hq_bytes q" "hq_max_bytes (publishMetrics q) = hq_max_bytes q" "hq_dropped (publishMetrics q) = hq_dropped q"
  by (simp_all add: publishMetrics_def)

lemma linkAtTail_slots:
  "hq_slots (linkAtTail i q) =
     (let s = (hq_slots q)[i := (hq_slots q ! i)\<lparr>sl_prev := hq_tail q, sl_next := K_NONE\<rparr>]
      in if hq_tail q = K_NONE then s else s[hq_tail q := (s ! hq_tail q)\<lparr>sl_next := i\<rparr>])"
  by (simp add: linkAtTail_def Let_def modSlot_def)

lemma storeHint_fields:
  assumes "acquireSlot q = (i, q1)"
  shows "hq_next_unused (storeHint sz h q) = hq_next_unused q1" "hq_free_head (storeHint sz h q) = hq_free_head q1"
    "hq_head (storeHint sz h q) = (if hq_tail q1 = K_NONE then i else hq_head q1)" "hq_tail (storeHint sz h q) = i"
    "hq_size (storeHint sz h q) = hq_size q1 + 1" "hq_bytes (storeHint sz h q) = hq_bytes q1 + estimatedPayloadBytes sz h"
    "hq_max_bytes (storeHint sz h q) = hq_max_bytes q1" "hq_dropped (storeHint sz h q) = hq_dropped q1"
  by (simp_all add: storeHint_def assms Let_def)

lemma storeHint_slots:
  assumes "acquireSlot q = (i, q1)" "i < length (hq_slots q1)"
  shows "hq_slots (storeHint sz h q) =
     (let s = (hq_slots q1)[i := (hq_slots q1 ! i)\<lparr>sl_generation := sl_generation (hq_slots q1 ! i) + 1, sl_hint := Some h,
                sl_prev := hq_tail q1, sl_next := K_NONE\<rparr>]
      in if hq_tail q1 = K_NONE then s else s[hq_tail q1 := (s ! hq_tail q1)\<lparr>sl_next := i\<rparr>])"
proof -
  have *: "hq_slots (storeHint sz h q) = hq_slots (linkAtTail i ((modSlot i (\<lambda>s. s\<lparr>sl_hint := Some h\<rparr>)
      ((modSlot i (\<lambda>s. s\<lparr>sl_generation := sl_generation s + 1\<rparr>) q1)\<lparr>hq_bytes := hq_bytes q1 + estimatedPayloadBytes sz h\<rparr>))))"
    by (simp add: storeHint_def assms Let_def)
  show ?thesis using assms(2) unfolding * linkAtTail_slots by (simp add: modSlot_def Let_def)
qed

section \<open>The list behind the links\<close>

text \<open>
  \<open>dll s p i xs j t\<close>: from slot \<open>i\<close>, whose predecessor is \<open>p\<close>, the links run through \<open>xs\<close> to \<open>j\<close>; \<open>t\<close> is
  the last slot passed. \<open>fll\<close> is the singly linked free list.
\<close>

fun dll :: "Slot list \<Rightarrow> nat \<Rightarrow> nat \<Rightarrow> nat list \<Rightarrow> nat \<Rightarrow> nat \<Rightarrow> bool" where
  "dll s p i [] j t \<longleftrightarrow> i = j \<and> p = t"
| "dll s p i (x # xs) j t \<longleftrightarrow> i = x \<and> sl_prev (s ! x) = p \<and> dll s x (sl_next (s ! x)) xs j t"

fun fll :: "Slot list \<Rightarrow> nat \<Rightarrow> nat list \<Rightarrow> bool" where
  "fll s i [] \<longleftrightarrow> i = K_NONE"
| "fll s i (x # xs) \<longleftrightarrow> i = x \<and> fll s (sl_free_next (s ! x)) xs"

definition hqRep :: "nat \<Rightarrow> HintQueue \<Rightarrow> nat list \<Rightarrow> nat list \<Rightarrow> bool" where
  "hqRep sz q xs fs \<longleftrightarrow>
     length (hq_slots q) = K_CAPACITY
   \<and> dll (hq_slots q) K_NONE (hq_head q) xs K_NONE (hq_tail q)
   \<and> fll (hq_slots q) (hq_free_head q) fs
   \<and> distinct (xs @ fs) \<and> set (xs @ fs) = {..<hq_next_unused q} \<and> hq_next_unused q \<le> K_CAPACITY
   \<and> (\<forall>i < K_CAPACITY. sl_hint (hq_slots q ! i) \<noteq> None \<longleftrightarrow> i \<in> set xs)
   \<and> hq_size q = length xs
   \<and> hq_bytes q = sum_list (map (estimatedPayloadBytes sz \<circ> hintOf q) xs)"

lemma dll_append: "dll s p i (xs @ ys) j t \<longleftrightarrow> (\<exists>m u. dll s p i xs m u \<and> dll s u m ys j t)"
  by (induction xs arbitrary: p i) auto

lemma dll_update:
  assumes "\<forall>x \<in> set xs. sl_prev (s' ! x) = sl_prev (s ! x) \<and> sl_next (s' ! x) = sl_next (s ! x)"
  shows "dll s' p i xs j t = dll s p i xs j t"
  using assms by (induction xs arbitrary: p i) auto

lemma fll_update:
  assumes "\<forall>x \<in> set xs. sl_free_next (s' ! x) = sl_free_next (s ! x)"
  shows "fll s' i xs = fll s i xs"
  using assms by (induction xs arbitrary: i) auto

lemma dll_retarget_end:
  assumes "dll s p i xs j t" "distinct xs" "\<forall>x \<in> set xs. sl_prev (s' ! x) = sl_prev (s ! x)"
    "\<forall>x \<in> set xs. x \<noteq> t \<longrightarrow> sl_next (s' ! x) = sl_next (s ! x)" "xs \<noteq> [] \<longrightarrow> sl_next (s' ! t) = m"
  shows "dll s' p (if xs = [] then m else i) xs m t"
proof (cases xs rule: rev_cases)
  case Nil
  then show ?thesis using assms(1) by simp
next
  case (snoc ys y)
  have "\<exists>u. dll s p i ys y u \<and> sl_prev (s ! y) = u \<and> t = y" using assms(1) unfolding snoc dll_append by auto
  then obtain u where u: "dll s p i ys y u" "sl_prev (s ! y) = u" "t = y" by blast
  have "\<forall>x \<in> set ys. x \<noteq> t" using assms(2) snoc u(3) by auto
  then have "\<forall>x \<in> set ys. sl_prev (s' ! x) = sl_prev (s ! x) \<and> sl_next (s' ! x) = sl_next (s ! x)" using assms(3,4) snoc by simp
  then have "dll s' p i ys y u" using dll_update [of ys s' s] u(1) by blast
  then show ?thesis using assms(3,5) snoc u by (auto simp: dll_append)
qed

lemma dll_retarget_start:
  assumes "dll s p i xs j t" "distinct xs" "\<forall>x \<in> set xs. sl_next (s' ! x) = sl_next (s ! x)"
    "\<forall>x \<in> set xs. x \<noteq> i \<longrightarrow> sl_prev (s' ! x) = sl_prev (s ! x)" "xs \<noteq> [] \<longrightarrow> sl_prev (s' ! i) = u"
  shows "dll s' u i xs j (if xs = [] then u else t)"
proof (cases xs)
  case Nil
  then show ?thesis using assms(1) by simp
next
  case (Cons y ys)
  then have y: "i = y" "dll s y (sl_next (s ! y)) ys j t" using assms(1) by auto
  have "\<forall>x \<in> set ys. x \<noteq> i" using assms(2) Cons y by auto
  then have "\<forall>x \<in> set ys. sl_prev (s' ! x) = sl_prev (s ! x) \<and> sl_next (s' ! x) = sl_next (s ! x)" using assms(3,4) Cons by simp
  then have "dll s' y (sl_next (s ! y)) ys j t" using dll_update [of ys s' s] y by blast
  then show ?thesis using assms(3,5) Cons y by auto
qed

lemma dll_ends:
  assumes "dll s p i xs j t"
  shows "i = (if xs = [] then j else hd xs)" "t = (if xs = [] then p else last xs)"
  using assms by (induction xs arbitrary: p i) auto

lemma hqRepD:
  assumes "hqRep sz q xs fs"
  shows "length (hq_slots q) = K_CAPACITY" "dll (hq_slots q) K_NONE (hq_head q) xs K_NONE (hq_tail q)"
    "fll (hq_slots q) (hq_free_head q) fs" "distinct xs" "distinct fs" "set xs \<inter> set fs = {}" "set xs \<union> set fs = {..<hq_next_unused q}"
    "hq_next_unused q \<le> K_CAPACITY" "\<And>i. i < K_CAPACITY \<Longrightarrow> sl_hint (hq_slots q ! i) \<noteq> None \<longleftrightarrow> i \<in> set xs"
    "hq_size q = length xs" "hq_bytes q = sum_list (map (estimatedPayloadBytes sz \<circ> hintOf q) xs)"
    "\<And>i. i \<in> set xs \<Longrightarrow> i < K_CAPACITY" "\<And>i. i \<in> set fs \<Longrightarrow> i < K_CAPACITY"
proof -
  note r = assms [unfolded hqRep_def]
  show "length (hq_slots q) = K_CAPACITY" "dll (hq_slots q) K_NONE (hq_head q) xs K_NONE (hq_tail q)"
    "fll (hq_slots q) (hq_free_head q) fs" "distinct xs" "distinct fs" "set xs \<inter> set fs = {}"
    "hq_next_unused q \<le> K_CAPACITY" "\<And>i. i < K_CAPACITY \<Longrightarrow> sl_hint (hq_slots q ! i) \<noteq> None \<longleftrightarrow> i \<in> set xs"
    "hq_size q = length xs" "hq_bytes q = sum_list (map (estimatedPayloadBytes sz \<circ> hintOf q) xs)" using r by simp_all
  show u: "set xs \<union> set fs = {..<hq_next_unused q}" using r by simp
  have n: "hq_next_unused q \<le> K_CAPACITY" using r by simp
  have lt: "i < K_CAPACITY" if "i \<in> set xs \<union> set fs" for i using that n unfolding u by simp
  show "i < K_CAPACITY" if "i \<in> set xs" for i using that by (intro lt) simp
  show "i < K_CAPACITY" if "i \<in> set fs" for i using that by (intro lt) simp
qed

lemma hintAt_rep: "hqRep sz q xs fs \<Longrightarrow> i \<in> set xs \<Longrightarrow> hintAt i q = Some (hintOf q i)"
  using hqRepD(9,12) [of sz q xs fs] by (auto simp: hintAt_def hintOf_def)

lemma hintOf_cong: "sl_hint (hq_slots q' ! i) = sl_hint (hq_slots q ! i) \<Longrightarrow> hintOf q' i = hintOf q i"
  by (simp add: hintOf_def)

text \<open>Removing a slot from the middle of the list.\<close>

definition frameOf :: "HintQueue \<Rightarrow> HintQueue \<Rightarrow> bool" where
  "frameOf q q' \<longleftrightarrow> hq_max_bytes q' = hq_max_bytes q \<and> hq_dropped q' = hq_dropped q \<and> hq_peak q' = hq_peak q
     \<and> (\<forall>i. sl_generation (hq_slots q' ! i) = sl_generation (hq_slots q ! i))"

lemma unlink_slots:
  assumes rep: "hqRep sz q (as @ x # bs) fs"
  shows "\<exists>q'. unlinkAndRelease sz x q = Some q' \<and> frameOf q q' \<and> length (hq_slots q') = K_CAPACITY
    \<and> hq_head q' = (if as = [] then sl_next (hq_slots q ! x) else hq_head q)
    \<and> hq_tail q' = (if bs = [] then sl_prev (hq_slots q ! x) else hq_tail q)
    \<and> hq_free_head q' = x \<and> hq_size q' = hq_size q - 1 \<and> hq_next_unused q' = hq_next_unused q
    \<and> hq_bytes q' = hq_bytes q - estimatedPayloadBytes sz (hintOf q x)
    \<and> (\<forall>i < K_CAPACITY. sl_hint (hq_slots q' ! i) = (if i = x then None else sl_hint (hq_slots q ! i))
        \<and> sl_free_next (hq_slots q' ! i) = (if i = x then hq_free_head q else sl_free_next (hq_slots q ! i))
        \<and> (i \<noteq> x \<longrightarrow> sl_next (hq_slots q' ! i) = (if as \<noteq> [] \<and> i = last as then sl_next (hq_slots q ! x) else sl_next (hq_slots q ! i))
           \<and> sl_prev (hq_slots q' ! i) = (if bs \<noteq> [] \<and> i = hd bs then sl_prev (hq_slots q ! x) else sl_prev (hq_slots q ! i))))"
proof -
  note r = hqRepD [OF rep]
  obtain u m where seg: "dll (hq_slots q) K_NONE (hq_head q) as x u" "sl_prev (hq_slots q ! x) = u" "sl_next (hq_slots q ! x) = m"
    "dll (hq_slots q) x m bs K_NONE (hq_tail q)" using r(2) by (auto simp: dll_append)
  have u: "u = (if as = [] then K_NONE else last as)" using dll_ends(2) [OF seg(1)] by simp
  have m: "m = (if bs = [] then K_NONE else hd bs)" using dll_ends(1) [OF seg(4)] by simp
  have lt: "x < K_CAPACITY" "as \<noteq> [] \<Longrightarrow> last as < K_CAPACITY" "bs \<noteq> [] \<Longrightarrow> hd bs < K_CAPACITY" using r(12) by simp_all
  have ne: "as \<noteq> [] \<Longrightarrow> last as \<noteq> x" "bs \<noteq> [] \<Longrightarrow> hd bs \<noteq> x" using r(4) last_in_set [of as] hd_in_set [of bs] by auto
  have un: "as \<noteq> [] \<Longrightarrow> u \<noteq> K_NONE" "bs \<noteq> [] \<Longrightarrow> m \<noteq> K_NONE" using lt u m by (auto simp: K_NONE_def)
  have ha: "hintAt x q = Some (hintOf q x)" using hintAt_rep [OF rep, of x] by simp
  show ?thesis
    using lt ne un r(1) seg(2,3) u m
    by (cases "as = []"; cases "bs = []") (auto simp: unlinkAndRelease_def ha Let_def modSlot_def frameOf_def nth_list_update K_NONE_def)
qed

lemma unlink_rep:
  assumes rep: "hqRep sz q (as @ x # bs) fs"
  obtains q' where "unlinkAndRelease sz x q = Some q'" "hqRep sz q' (as @ bs) (x # fs)" "frameOf q q'"
    "\<And>i. i \<in> set (as @ bs) \<Longrightarrow> hintOf q' i = hintOf q i"
    "\<And>i. i \<in> set bs \<Longrightarrow> sl_next (hq_slots q' ! i) = sl_next (hq_slots q ! i)"
proof -
  note r = hqRepD [OF rep]
  obtain q' where q': "unlinkAndRelease sz x q = Some q'" "frameOf q q'" "length (hq_slots q') = K_CAPACITY"
    "hq_head q' = (if as = [] then sl_next (hq_slots q ! x) else hq_head q)"
    "hq_tail q' = (if bs = [] then sl_prev (hq_slots q ! x) else hq_tail q)"
    "hq_free_head q' = x" "hq_size q' = hq_size q - 1" "hq_next_unused q' = hq_next_unused q"
    "hq_bytes q' = hq_bytes q - estimatedPayloadBytes sz (hintOf q x)"
    and slot: "\<And>i. i < K_CAPACITY \<Longrightarrow> sl_hint (hq_slots q' ! i) = (if i = x then None else sl_hint (hq_slots q ! i))"
      "\<And>i. i < K_CAPACITY \<Longrightarrow> sl_free_next (hq_slots q' ! i) = (if i = x then hq_free_head q else sl_free_next (hq_slots q ! i))"
      "\<And>i. i < K_CAPACITY \<Longrightarrow> i \<noteq> x \<Longrightarrow> sl_next (hq_slots q' ! i) = (if as \<noteq> [] \<and> i = last as then sl_next (hq_slots q ! x) else sl_next (hq_slots q ! i))"
      "\<And>i. i < K_CAPACITY \<Longrightarrow> i \<noteq> x \<Longrightarrow> sl_prev (hq_slots q' ! i) = (if bs \<noteq> [] \<and> i = hd bs then sl_prev (hq_slots q ! x) else sl_prev (hq_slots q ! i))"
    using unlink_slots [OF rep] by blast
  obtain u m where seg: "dll (hq_slots q) K_NONE (hq_head q) as x u" "sl_prev (hq_slots q ! x) = u" "sl_next (hq_slots q ! x) = m"
    "dll (hq_slots q) x m bs K_NONE (hq_tail q)" using r(2) by (auto simp: dll_append)
  have u: "u = (if as = [] then K_NONE else last as)" using dll_ends(2) [OF seg(1)] by simp
  have m: "m = (if bs = [] then K_NONE else hd bs)" using dll_ends(1) [OF seg(4)] by simp
  have lt: "i < K_CAPACITY" "i \<noteq> x" if "i \<in> set as \<union> set bs" for i using r(4,12) that by auto
  have sep: "\<And>i. i \<in> set as \<Longrightarrow> bs \<noteq> [] \<Longrightarrow> i \<noteq> hd bs" "\<And>i. i \<in> set bs \<Longrightarrow> as \<noteq> [] \<Longrightarrow> i \<noteq> last as"
  proof -
    have d: "set as \<inter> set bs = {}" using r(4) by simp
    show "i \<noteq> hd bs" if "i \<in> set as" "bs \<noteq> []" for i using d that hd_in_set [of bs] by blast
    show "i \<noteq> last as" if "i \<in> set bs" "as \<noteq> []" for i using d that last_in_set [of as] by blast
  qed
  have nextB: "sl_next (hq_slots q' ! i) = sl_next (hq_slots q ! i)" if "i \<in> set bs" for i
    using slot(3) [of i] lt [of i] sep(2) [of i] that by (cases "as = []") simp_all
  have prevA: "sl_prev (hq_slots q' ! i) = sl_prev (hq_slots q ! i)" if "i \<in> set as" for i
    using slot(4) [of i] lt [of i] sep(1) [of i] that by (cases "bs = []") simp_all
  have A: "dll (hq_slots q') K_NONE (if as = [] then m else hq_head q) as m u"
  proof (rule dll_retarget_end [OF seg(1)])
    show "as \<noteq> [] \<longrightarrow> sl_next (hq_slots q' ! u) = m" using slot(3) [of "last as"] lt [of "last as"] u seg(3) by simp
  qed (use r(4) slot(3) lt prevA u in auto)
  have B: "dll (hq_slots q') u m bs K_NONE (if bs = [] then u else hq_tail q)"
  proof (rule dll_retarget_start [OF seg(4)])
    show "bs \<noteq> [] \<longrightarrow> sl_prev (hq_slots q' ! m) = u" using slot(4) [of "hd bs"] lt [of "hd bs"] m seg(2) by simp
  qed (use r(4) slot(4) lt nextB m in auto)
  have D: "dll (hq_slots q') K_NONE (hq_head q') (as @ bs) K_NONE (hq_tail q')"
    unfolding dll_append q'(4,5) seg(2,3) using A B by blast
  have F: "fll (hq_slots q') (hq_free_head q') (x # fs)"
  proof -
    have "\<forall>i \<in> set fs. sl_free_next (hq_slots q' ! i) = sl_free_next (hq_slots q ! i)" using slot(2) r(6,13) by auto
    moreover have "sl_free_next (hq_slots q' ! x) = hq_free_head q" using slot(2) r(12) by simp
    ultimately show ?thesis using fll_update [of fs "hq_slots q'" "hq_slots q"] r(3) q'(6) by simp
  qed
  have H: "hintOf q' i = hintOf q i" if "i \<in> set (as @ bs)" for i using lt [of i] slot(1) [of i] that by (intro hintOf_cong) simp
  have sum: "sum_list (map (estimatedPayloadBytes sz \<circ> hintOf q') (as @ bs)) = sum_list (map (estimatedPayloadBytes sz \<circ> hintOf q) (as @ bs))"
    using H by (intro arg_cong [where f = sum_list] map_cong) auto
  have live: "\<forall>i < K_CAPACITY. sl_hint (hq_slots q' ! i) \<noteq> None \<longleftrightarrow> i \<in> set (as @ bs)"
    using slot(1) r(9) r(4) by auto
  have "set ((as @ bs) @ x # fs) = {..<hq_next_unused q'}" "distinct ((as @ bs) @ x # fs)" using r(4-7) q'(8) by auto
  then have "hqRep sz q' (as @ bs) (x # fs)"
    unfolding hqRep_def using q'(3,7-9) D F live sum r(8,10,11) by simp
  then show ?thesis using that q'(1,2) H nextB by blast
qed

text \<open>Adding a hint at the tail.\<close>

lemma acquire_rep:
  assumes rep: "hqRep sz q xs fs" and room: "length xs < K_CAPACITY"
  obtains i q1 fs' where "acquireSlot q = (i, q1)" "i \<notin> set xs" "i \<notin> set fs'" "i < K_CAPACITY" "frameOf q q1"
    "hq_head q1 = hq_head q" "hq_tail q1 = hq_tail q" "hq_size q1 = hq_size q" "hq_bytes q1 = hq_bytes q" "length (hq_slots q1) = K_CAPACITY"
    "\<And>j. sl_hint (hq_slots q1 ! j) = sl_hint (hq_slots q ! j)" "\<And>j. sl_prev (hq_slots q1 ! j) = sl_prev (hq_slots q ! j)"
    "\<And>j. sl_next (hq_slots q1 ! j) = sl_next (hq_slots q ! j)" "fll (hq_slots q1) (hq_free_head q1) fs'"
    "distinct (xs @ fs')" "insert i (set xs \<union> set fs') = {..<hq_next_unused q1}" "hq_next_unused q1 \<le> K_CAPACITY"
proof (cases fs)
  note r = hqRepD [OF rep]
  case Nil
  have un: "set xs = {..<hq_next_unused q}" using r(7) Nil by simp
  then have "card (set xs) = hq_next_unused q" by simp
  then have n: "hq_next_unused q < K_CAPACITY" using distinct_card [OF r(4)] room by simp
  define q1 where "q1 = q\<lparr>hq_next_unused := hq_next_unused q + 1\<rparr>"
  have aq: "acquireSlot q = (hq_next_unused q, q1)" using r(3) Nil by (simp add: acquireSlot_def q1_def)
  have ins: "insert (hq_next_unused q) (set xs \<union> set []) = {..<hq_next_unused q1}" unfolding un q1_def by auto
  show ?thesis
    by (rule that [of "hq_next_unused q" q1 "[]", OF aq _ _ _ _ _ _ _ _ _ _ _ _ _ _ ins])
      (use un r(1,3,4) n Nil in \<open>simp_all add: frameOf_def q1_def\<close>)
next
  note r = hqRepD [OF rep]
  case (Cons i fs')
  let ?q = "modSlot i (\<lambda>s. s\<lparr>sl_free_next := K_NONE\<rparr>) (q\<lparr>hq_free_head := sl_free_next (hq_slots q ! i)\<rparr>)"
  have i: "hq_free_head q = i" "i < K_CAPACITY" using r(3) r(13) [of i] Cons by simp_all
  then have i': "i \<noteq> K_NONE" by (simp add: K_NONE_def)
  have f: "\<forall>j \<in> set fs'. sl_free_next (hq_slots ?q ! j) = sl_free_next (hq_slots q ! j)"
  proof
    fix j assume "j \<in> set fs'"
    then have "i \<noteq> j" using r(5) Cons by auto
    then show "sl_free_next (hq_slots ?q ! j) = sl_free_next (hq_slots q ! j)" by (simp add: modSlot_def)
  qed
  have same: "sl_hint (hq_slots ?q ! j) = sl_hint (hq_slots q ! j)" "sl_prev (hq_slots ?q ! j) = sl_prev (hq_slots q ! j)"
    "sl_next (hq_slots ?q ! j) = sl_next (hq_slots q ! j)" "sl_generation (hq_slots ?q ! j) = sl_generation (hq_slots q ! j)" for j
    using i(2) r(1) by (cases "j = i"; simp add: modSlot_def)+
  show ?thesis
  proof (rule that [of i ?q fs'])
    show "acquireSlot q = (i, ?q)" using i i' by (simp add: acquireSlot_def)
    show "frameOf q ?q" using same(4) by (simp add: frameOf_def modSlot_def)
    show "fll (hq_slots ?q) (hq_free_head ?q) fs'" using fll_update [OF f] r(3) Cons by (simp add: modSlot_def)
    show "insert i (set xs \<union> set fs') = {..<hq_next_unused ?q}" using r(7) Cons by (simp add: modSlot_def)
    show "i \<notin> set xs" "i \<notin> set fs'" "distinct (xs @ fs')" using r(4-6) Cons by auto
  qed (use r(1,8) i same in \<open>simp_all add: modSlot_def\<close>)
qed

lemma store_rep:
  assumes rep: "hqRep sz q xs fs" and room: "length xs < K_CAPACITY"
  obtains i fs' where "hqRep sz (storeHint sz h q) (xs @ [i]) fs'" "i \<notin> set xs" "hintOf (storeHint sz h q) i = h"
    "\<And>j. j \<in> set xs \<Longrightarrow> hintOf (storeHint sz h q) j = hintOf q j"
    "\<And>j. sl_generation (hq_slots (storeHint sz h q) ! j) = (if j = i then sl_generation (hq_slots q ! j) + 1 else sl_generation (hq_slots q ! j))"
    "hq_max_bytes (storeHint sz h q) = hq_max_bytes q" "hq_dropped (storeHint sz h q) = hq_dropped q"
proof -
  note r = hqRepD [OF rep]
  obtain i q1 fs' where a: "acquireSlot q = (i, q1)" "i \<notin> set xs" "i \<notin> set fs'" "i < K_CAPACITY" "frameOf q q1"
    "hq_head q1 = hq_head q" "hq_tail q1 = hq_tail q" "hq_size q1 = hq_size q" "hq_bytes q1 = hq_bytes q" "length (hq_slots q1) = K_CAPACITY"
    "\<And>j. sl_hint (hq_slots q1 ! j) = sl_hint (hq_slots q ! j)" "\<And>j. sl_prev (hq_slots q1 ! j) = sl_prev (hq_slots q ! j)"
    "\<And>j. sl_next (hq_slots q1 ! j) = sl_next (hq_slots q ! j)" "fll (hq_slots q1) (hq_free_head q1) fs'"
    "distinct (xs @ fs')" "insert i (set xs \<union> set fs') = {..<hq_next_unused q1}" "hq_next_unused q1 \<le> K_CAPACITY"
    using acquire_rep [OF rep room] by blast
  have t: "hq_tail q = (if xs = [] then K_NONE else last xs)" using dll_ends(2) [OF r(2)] .
  have tl: "xs \<noteq> [] \<Longrightarrow> last xs < K_CAPACITY" "xs \<noteq> [] \<Longrightarrow> last xs \<noteq> i" "xs \<noteq> [] \<Longrightarrow> last xs \<noteq> K_NONE"
    using r(12) [of "last xs"] a(2) last_in_set [of xs] by (auto simp: K_NONE_def)
  let ?q = "storeHint sz h q"
  define s1 where "s1 = (hq_slots q1)[i := (hq_slots q1 ! i)\<lparr>sl_generation := sl_generation (hq_slots q1 ! i) + 1, sl_hint := Some h,
      sl_prev := hq_tail q, sl_next := K_NONE\<rparr>]"
  have s1: "length s1 = K_CAPACITY" "s1 ! i = (hq_slots q1 ! i)\<lparr>sl_generation := sl_generation (hq_slots q1 ! i) + 1, sl_hint := Some h,
      sl_prev := hq_tail q, sl_next := K_NONE\<rparr>" "\<And>j. j \<noteq> i \<Longrightarrow> s1 ! j = hq_slots q1 ! j"
    using a(4,10) by (simp_all add: s1_def)
  have sq: "hq_slots ?q = (if hq_tail q = K_NONE then s1 else s1[hq_tail q := (s1 ! hq_tail q)\<lparr>sl_next := i\<rparr>])"
    using storeHint_slots [OF a(1), of sz h] a(4,7,10) unfolding s1_def Let_def by simp
  have fields: "hq_head ?q = (if xs = [] then i else hq_head q)" "hq_tail ?q = i" "hq_size ?q = hq_size q + 1"
    "hq_bytes ?q = hq_bytes q + estimatedPayloadBytes sz h" "hq_free_head ?q = hq_free_head q1" "hq_next_unused ?q = hq_next_unused q1"
    "hq_max_bytes ?q = hq_max_bytes q" "hq_dropped ?q = hq_dropped q" "length (hq_slots ?q) = K_CAPACITY"
    using a(5-10) tl(3) t sq s1(1) by (simp_all add: storeHint_fields [OF a(1)] frameOf_def)
  have gen: "sl_generation (hq_slots q1 ! j) = sl_generation (hq_slots q ! j)" for j using a(5) by (simp add: frameOf_def)
  have slot: "sl_hint (hq_slots ?q ! j) = (if j = i then Some h else sl_hint (hq_slots q ! j))
      \<and> sl_prev (hq_slots ?q ! j) = (if j = i then hq_tail q else sl_prev (hq_slots q ! j))
      \<and> sl_next (hq_slots ?q ! j) = (if j = i then K_NONE else if xs \<noteq> [] \<and> j = last xs then i else sl_next (hq_slots q ! j))
      \<and> sl_free_next (hq_slots ?q ! j) = sl_free_next (hq_slots q1 ! j)
      \<and> sl_generation (hq_slots ?q ! j) = (if j = i then sl_generation (hq_slots q ! j) + 1 else sl_generation (hq_slots q ! j))" for j
  proof (cases "xs = []")
    case True
    then have "hq_slots ?q = s1" using sq t by simp
    then show ?thesis using True s1(2,3) a(11-13) gen by (cases "j = i") simp_all
  next
    case False
    then have sl: "hq_slots ?q = s1[last xs := (s1 ! last xs)\<lparr>sl_next := i\<rparr>]" using sq t tl(3) by simp
    show ?thesis
    proof (cases "j = last xs")
      case True
      then show ?thesis using False sl tl s1 a(11-13) gen by simp
    next
      case nl: False
      then have "hq_slots ?q ! j = s1 ! j" using sl by simp
      then show ?thesis using nl s1(2,3) a(11-13) gen by (cases "j = i") simp_all
    qed
  qed
  have A: "dll (hq_slots ?q) K_NONE (if xs = [] then i else hq_head q) xs i (hq_tail q)"
  proof (rule dll_retarget_end [OF r(2)])
    show "xs \<noteq> [] \<longrightarrow> sl_next (hq_slots ?q ! hq_tail q) = i" using slot t tl by simp
  qed (use r(4) slot a(2) t in auto)
  have D: "dll (hq_slots ?q) K_NONE (hq_head ?q) (xs @ [i]) K_NONE (hq_tail ?q)"
    unfolding dll_append fields(1,2) using A slot [of i] by auto
  have F: "fll (hq_slots ?q) (hq_free_head ?q) fs'" using fll_update [of fs' "hq_slots ?q" "hq_slots q1"] slot a(14) fields(5) by simp
  have H: "hintOf ?q j = hintOf q j" if "j \<in> set xs" for j using slot [of j] that a(2) by (intro hintOf_cong) auto
  have hi: "hintOf ?q i = h" using slot [of i] by (simp add: hintOf_def)
  have "sum_list (map (estimatedPayloadBytes sz \<circ> hintOf ?q) xs) = sum_list (map (estimatedPayloadBytes sz \<circ> hintOf q) xs)"
    using H by (intro arg_cong [where f = sum_list] map_cong) auto
  then have sum: "hq_bytes ?q = sum_list (map (estimatedPayloadBytes sz \<circ> hintOf ?q) (xs @ [i]))" using fields(4) r(11) hi by simp
  have live: "\<forall>j < K_CAPACITY. sl_hint (hq_slots ?q ! j) \<noteq> None \<longleftrightarrow> j \<in> set (xs @ [i])" using slot r(9) by auto
  have "distinct ((xs @ [i]) @ fs')" "set ((xs @ [i]) @ fs') = {..<hq_next_unused ?q}" using a(2,3,15,16) fields(6) by auto
  then have "hqRep sz ?q (xs @ [i]) fs'" unfolding hqRep_def using fields(3,6,9) r(10) D F live sum a(17) by simp
  then show ?thesis using that a(2) hi H slot fields(7,8) by blast
qed

section \<open>The loops\<close>

definition firstOr :: "nat list \<Rightarrow> nat" where
  "firstOr xs = (if xs = [] then K_NONE else hd xs)"

lemma firstOr_simps [simp]: "firstOr [] = K_NONE" "firstOr (x # xs) = x"
  by (simp_all add: firstOr_def)

lemma rep_links:
  assumes "hqRep sz q (as @ bs) fs"
  shows "as = [] \<Longrightarrow> hq_head q = firstOr bs" "bs = x # bs' \<Longrightarrow> sl_next (hq_slots q ! x) = firstOr bs'" "bs = x # bs' \<Longrightarrow> x \<noteq> K_NONE \<and> hintAt x q = Some (hintOf q x)"
proof -
  note r = hqRepD [OF assms]
  show "hq_head q = firstOr bs" if "as = []" using dll_ends(1) [OF r(2)] that by (simp add: firstOr_def)
  show "sl_next (hq_slots q ! x) = firstOr bs'" if "bs = x # bs'"
    using r(2) dll_ends(1) [of "hq_slots q" x "sl_next (hq_slots q ! x)" bs'] unfolding that by (auto simp: dll_append firstOr_def)
  show "x \<noteq> K_NONE \<and> hintAt x q = Some (hintOf q x)" if "bs = x # bs'"
    using r(12) [of x] hintAt_rep [OF assms, of x] that by (auto simp: K_NONE_def)
qed

lemma walk_rep: "hqRep sz q (as @ bs) fs \<Longrightarrow> walkFrom (length bs) q (firstOr bs) = bs"
proof (induction bs arbitrary: as)
  case (Cons x bs)
  have "walkFrom (length bs) q (firstOr bs) = bs" using Cons.IH [of "as @ [x]"] Cons.prems by simp
  then show ?case using rep_links(2) [OF Cons.prems] by simp
qed simp

lemma abs_rep: "hqRep sz q xs fs \<Longrightarrow> absQueue q = \<lparr>hs_entries = map (entryAt q) xs, hs_max = hq_max_bytes q, hs_dropped = hq_dropped q\<rparr>"
  using walk_rep [of sz q "[]" xs fs] rep_links(1) [of sz q "[]" xs fs] hqRepD(10) [of sz q xs fs] by (simp add: absQueue_def)

lemma rep_publish [simp]: "hqRep sz (publishMetrics q) xs fs = hqRep sz q xs fs" "entryAt (publishMetrics q) = entryAt q"
  by (auto simp: hqRep_def hintOf_def entryAt_def comp_def)

lemma rep_dropped [simp]: "hqRep sz (q\<lparr>hq_dropped := d\<rparr>) xs fs = hqRep sz q xs fs" "entryAt (q\<lparr>hq_dropped := d\<rparr>) = entryAt q"
  by (auto simp: hqRep_def hintOf_def entryAt_def comp_def)

lemma rep_max [simp]: "hqRep sz (q\<lparr>hq_max_bytes := d\<rparr>) xs fs = hqRep sz q xs fs" "entryAt (q\<lparr>hq_max_bytes := d\<rparr>) = entryAt q"
  by (auto simp: hqRep_def hintOf_def entryAt_def comp_def)

lemma unlink_entries:
  assumes rep: "hqRep sz q (as @ x # bs) fs"
  obtains q' where "unlinkAndRelease sz x q = Some q'" "hqRep sz q' (as @ bs) (x # fs)" "frameOf q q'"
    "map (entryAt q') (as @ bs) = map (entryAt q) (as @ bs)"
proof -
  obtain q' where q': "unlinkAndRelease sz x q = Some q'" "hqRep sz q' (as @ bs) (x # fs)" "frameOf q q'"
    "\<And>i. i \<in> set (as @ bs) \<Longrightarrow> hintOf q' i = hintOf q i" using unlink_rep [OF rep] by metis
  have "map (entryAt q') (as @ bs) = map (entryAt q) (as @ bs)" using q'(3,4) by (intro map_cong) (auto simp: entryAt_def frameOf_def)
  then show ?thesis using that q' by blast
qed

lemma scan_rep: "hqRep sz q (as @ bs) fs \<Longrightarrow> scanFor P q (firstOr bs) = Some (case find (\<lambda>i. P (hintOf q i)) bs of None \<Rightarrow> K_NONE | Some x \<Rightarrow> x)"
proof (induction bs arbitrary: as)
  case Nil
  then show ?case by (simp add: scanFor.simps)
next
  case (Cons x bs)
  have "scanFor P q (firstOr bs) = Some (case find (\<lambda>i. P (hintOf q i)) bs of None \<Rightarrow> K_NONE | Some x \<Rightarrow> x)" using Cons.IH [of "as @ [x]"] Cons.prems by simp
  then show ?case using rep_links(2,3) [OF Cons.prems] by (simp add: scanFor.simps [of P q x])
qed

lemma find_removeFirst:
  assumes "find P xs = Some x"
  obtains as bs where "xs = as @ x # bs" "P x" "\<forall>y \<in> set as. \<not> P y" "removeFirst P xs = as @ bs"
proof -
  have "\<exists>as bs. xs = as @ x # bs \<and> P x \<and> (\<forall>y \<in> set as. \<not> P y) \<and> removeFirst P xs = as @ bs"
    using assms
  proof (induction xs)
    case (Cons a xs)
    show ?case
    proof (cases "P a")
      case True
      then show ?thesis using Cons.prems by (intro exI [of _ "[]"] exI [of _ xs]) simp
    next
      case False
      then obtain as bs where "xs = as @ x # bs" "P x" "\<forall>y \<in> set as. \<not> P y" "removeFirst P xs = as @ bs" using Cons by auto
      then show ?thesis using False by (intro exI [of _ "a # as"] exI [of _ bs]) simp
    qed
  qed simp
  then show ?thesis using that by blast
qed

lemma find_none_removeFirst: "find P xs = None \<Longrightarrow> removeFirst P xs = xs"
  by (induction xs) (auto split: if_splits)

lemma evictOldest_cong: "\<forall>x \<in> set xs. w x = w' x \<Longrightarrow> evictOldest w b i xs = evictOldest w' b i xs"
proof (induction xs)
  case (Cons x xs)
  have "map w xs = map w' xs" using Cons.prems by simp
  then show ?case using Cons by (simp only: evictOldest.simps list.map) simp
qed simp

lemma evictOldest_sub: "set (evictOldest w b i xs) \<subseteq> set xs" "length (evictOldest w b i xs) \<le> length xs"
  by (induction xs) auto

lemma evictOldest_map: "evictOldest w b i (map f xs) = map f (evictOldest (w \<circ> f) b i xs)"
  by (induction xs) (simp_all add: comp_def)

lemma evict_rep:
  assumes "hqRep sz q xs fs" "incoming \<le> hq_max_bytes q"
  shows "let ys = evictOldest (estimatedPayloadBytes sz \<circ> hintOf q) (hq_max_bytes q) incoming xs in
    \<exists>q' fs'. evictFor sz incoming q = Some q' \<and> hqRep sz q' ys fs' \<and> map (entryAt q') ys = map (entryAt q) ys \<and> hq_max_bytes q' = hq_max_bytes q
    \<and> hq_dropped q' = hq_dropped q + of_nat (length xs - length ys) \<and> length ys < K_CAPACITY"
  using assms
proof (induction xs arbitrary: q fs)
  case Nil
  then show ?case unfolding Let_def using hqRepD(10,11) [OF Nil(1)] by (intro exI [of _ q] exI [of _ fs]) (simp add: evictFor.simps [of sz incoming q] K_CAPACITY_def)
next
  case (Cons x xs)
  note r = hqRepD [OF Cons.prems(1)]
  let ?go = "length (x # xs) = K_CAPACITY \<or> sum_list (map (estimatedPayloadBytes sz \<circ> hintOf q) (x # xs)) + incoming > hq_max_bytes q"
  have go: "hq_size q = K_CAPACITY \<or> hq_bytes q + incoming > hq_max_bytes q \<longleftrightarrow> ?go" using r(10,11) by simp
  show ?case
  proof (cases ?go)
    case False
    have "length (x # xs) \<le> K_CAPACITY"
      using card_mono [of "{..<K_CAPACITY}" "set (x # xs)"] r(12) distinct_card [OF r(4)] by auto
    then have "length (x # xs) < K_CAPACITY" using False by simp
    then show ?thesis unfolding Let_def using False go Cons.prems(1)
      by (intro exI [of _ q] exI [of _ fs]) (simp add: evictFor.simps [of sz incoming q])
  next
    case True
    obtain q1 where q1: "unlinkAndRelease sz x q = Some q1" "hqRep sz q1 xs (x # fs)" "frameOf q q1" "map (entryAt q1) xs = map (entryAt q) xs"
      using unlink_entries [of sz q "[]" x xs fs] Cons.prems(1) by auto
    let ?q = "q1\<lparr>hq_dropped := hq_dropped q1 + 1\<rparr>"
    have mx: "hq_max_bytes ?q = hq_max_bytes q" "hq_dropped ?q = hq_dropped q + 1" using q1(3) by (simp_all add: frameOf_def)
    have w: "\<forall>i \<in> set xs. (estimatedPayloadBytes sz \<circ> hintOf ?q) i = (estimatedPayloadBytes sz \<circ> hintOf q) i"
      using q1(4) by (auto simp: entryAt_def hintOf_def)
    define ys where "ys = evictOldest (estimatedPayloadBytes sz \<circ> hintOf q) (hq_max_bytes q) incoming xs"
    have ys: "ys = evictOldest (estimatedPayloadBytes sz \<circ> hintOf ?q) (hq_max_bytes ?q) incoming xs" unfolding ys_def mx(1) by (rule evictOldest_cong) (use w in simp)
    obtain q' fs' where ih: "evictFor sz incoming ?q = Some q'"
      "hqRep sz q' ys fs'" "map (entryAt q') ys = map (entryAt ?q) ys" "hq_max_bytes q' = hq_max_bytes ?q"
      "hq_dropped q' = hq_dropped ?q + of_nat (length xs - length ys)" "length ys < K_CAPACITY"
      using Cons.IH [of ?q "x # fs"] q1(2) Cons.prems(2) mx(1) unfolding ys [symmetric] Let_def by auto
    have "set ys \<subseteq> set xs" unfolding ys_def by (rule evictOldest_sub(1))
    then have "map (entryAt ?q) ys = map (entryAt q) ys" using q1(4) by (auto simp: map_eq_conv)
    moreover have "length ys \<le> length xs" unfolding ys_def by (rule evictOldest_sub(2))
    moreover have "hq_head q = x" using rep_links(1) [of sz q "[]" "x # xs" fs] Cons.prems(1) by simp
    moreover have "evictOldest (estimatedPayloadBytes sz \<circ> hintOf q) (hq_max_bytes q) incoming (x # xs) = ys" using True unfolding ys_def by auto
    ultimately show ?thesis
      unfolding Let_def using True go ih q1(1) mx by (intro exI [of _ q'] exI [of _ fs']) (simp add: evictFor.simps [of sz incoming q] Suc_diff_le)
  qed
qed

section \<open>Each call meets its specification\<close>

lemma accept_rep:
  assumes rep: "hqRep sz q ys fs" and fits: "estimatedPayloadBytes sz h \<le> hq_max_bytes q"
  obtains q2 zs fs' handle where "evictFor sz (estimatedPayloadBytes sz h) q = Some q2" "hqRep sz (storeHint sz h q2) zs fs'"
    "map (entryAt (storeHint sz h q2)) zs
       = evictOldest (estimatedPayloadBytes sz \<circ> fst) (hq_max_bytes q) (estimatedPayloadBytes sz h) (map (entryAt q) ys) @ [(h, handle)]"
    "handle \<notin> snd ` set (evictOldest (estimatedPayloadBytes sz \<circ> fst) (hq_max_bytes q) (estimatedPayloadBytes sz h) (map (entryAt q) ys))"
    "hq_max_bytes (storeHint sz h q2) = hq_max_bytes q"
    "hq_dropped (storeHint sz h q2) = hq_dropped q + of_nat (length ys
       - length (evictOldest (estimatedPayloadBytes sz \<circ> fst) (hq_max_bytes q) (estimatedPayloadBytes sz h) (map (entryAt q) ys)))"
proof -
  define zs where "zs = evictOldest (estimatedPayloadBytes sz \<circ> hintOf q) (hq_max_bytes q) (estimatedPayloadBytes sz h) ys"
  have ents: "evictOldest (estimatedPayloadBytes sz \<circ> fst) (hq_max_bytes q) (estimatedPayloadBytes sz h) (map (entryAt q) ys) = map (entryAt q) zs"
    unfolding zs_def by (simp add: evictOldest_map comp_def entryAt_def)
  obtain q2 fs2 where q2: "evictFor sz (estimatedPayloadBytes sz h) q = Some q2" "hqRep sz q2 zs fs2" "map (entryAt q2) zs = map (entryAt q) zs"
    "hq_max_bytes q2 = hq_max_bytes q" "hq_dropped q2 = hq_dropped q + of_nat (length ys - length zs)" "length zs < K_CAPACITY"
    using evict_rep [OF rep fits] unfolding Let_def zs_def [symmetric] by blast
  obtain i fs' where st: "hqRep sz (storeHint sz h q2) (zs @ [i]) fs'" "i \<notin> set zs" "hintOf (storeHint sz h q2) i = h"
    "\<And>j. j \<in> set zs \<Longrightarrow> hintOf (storeHint sz h q2) j = hintOf q2 j"
    "\<And>j. sl_generation (hq_slots (storeHint sz h q2) ! j) = (if j = i then sl_generation (hq_slots q2 ! j) + 1 else sl_generation (hq_slots q2 ! j))"
    "hq_max_bytes (storeHint sz h q2) = hq_max_bytes q2" "hq_dropped (storeHint sz h q2) = hq_dropped q2"
    using store_rep [OF q2(2,6), of h] by blast
  have "map (entryAt (storeHint sz h q2)) zs = map (entryAt q2) zs" using st(2,4,5) by (intro map_cong) (auto simp: entryAt_def)
  then have m: "map (entryAt (storeHint sz h q2)) (zs @ [i]) = map (entryAt q) zs @ [(h, i, sl_generation (hq_slots q2 ! i) + 1)]"
    using q2(3) st(3,5) by (simp add: entryAt_def)
  have "(i, sl_generation (hq_slots q2 ! i) + 1) \<notin> snd ` set (map (entryAt q) zs)" using st(2) by (auto simp: entryAt_def)
  then show ?thesis using that [OF q2(1) st(1)] m q2(4,5) st(6,7) unfolding ents by simp
qed

lemma slotKey_entry: "slotKey (entryAt q i) = (ht_target (hintOf q i), rq_key (ht_req (hintOf q i)))"
  by (simp add: slotKey_def entryAt_def)

lemma sameSlot_key: "sameSlotAs h (fst e) \<longleftrightarrow> slotKey e = (ht_target h, rq_key (ht_req h))"
  by (auto simp: sameSlotAs_def slotKey_def)

lemma filter_others:
  assumes "distinct (map slotKey (as @ e # bs))" "sameSlotAs h (fst e)"
  shows "filter (\<lambda>e. \<not> sameSlotAs h (fst e)) (as @ e # bs) = as @ bs"
    "e' \<in> set (as @ e # bs) \<Longrightarrow> sameSlotAs h (fst e') \<Longrightarrow> e' = e"
proof -
  have k: "slotKey e = (ht_target h, rq_key (ht_req h))" using assms(2) by (simp add: sameSlot_key)
  have ne: "slotKey x \<noteq> slotKey e" if "x \<in> set as \<union> set bs" for x using assms(1) that by (auto simp: image_iff)
  then have "\<not> sameSlotAs h (fst x)" if "x \<in> set as \<union> set bs" for x using k that sameSlot_key by metis
  then show "filter (\<lambda>e. \<not> sameSlotAs h (fst e)) (as @ e # bs) = as @ bs" using assms(2) by simp
  show "e' \<in> set (as @ e # bs) \<Longrightarrow> sameSlotAs h (fst e') \<Longrightarrow> e' = e" using ne k sameSlot_key by fastforce
qed

lemma push_rep:
  assumes rep: "hqRep sz q xs fs" and key: "distinct (map slotKey (map (entryAt q) xs))"
  shows "\<exists>r q' xs' fs'. hqPush sz h q = Some (r, q') \<and> hqRep sz q' xs' fs' \<and> hintSpec sz (Push h) (Accepted r) (absQueue q) (absQueue q')"
proof (cases "estimatedPayloadBytes sz h > hq_max_bytes q")
  case True
  let ?q = "publishMetrics (q\<lparr>hq_dropped := hq_dropped q + 1\<rparr>)"
  have "hqRep sz ?q xs fs" using rep by simp
  moreover have "absQueue ?q = (absQueue q)\<lparr>hs_dropped := hs_dropped (absQueue q) + 1\<rparr>" using abs_rep [OF rep] abs_rep [OF calculation] by simp
  moreover have "hintSpec sz (Push h) (Accepted False) (absQueue q) ((absQueue q)\<lparr>hs_dropped := hs_dropped (absQueue q) + 1\<rparr>)"
    using True by (intro hintSpec.too_big) (simp add: absQueue_def)
  ultimately show ?thesis using True by (intro exI [of _ False] exI [of _ ?q] exI) (auto simp: hqPush_def)
next
  case fits: False
  let ?P = "\<lambda>i. sameSlotAs h (hintOf q i)"
  let ?inc = "estimatedPayloadBytes sz h"
  let ?idx = "if hq_size q > 0 then scanFor (sameSlotAs h) q (hq_head q) else Some K_NONE"
  have scan: "?idx = Some (case find ?P xs of None \<Rightarrow> K_NONE | Some x \<Rightarrow> x)"
    using scan_rep [of sz q "[]" xs fs "sameSlotAs h"] rep rep_links(1) [of sz q "[]" xs fs] hqRepD(10) [OF rep] by auto
  note abs = abs_rep [OF rep]
  have finish: "\<exists>r q' xs' fs'. Option.bind (evictFor sz ?inc q1) (\<lambda>q. Some (True, storeHint sz h q)) = Some (r, q') \<and> hqRep sz q' xs' fs'
      \<and> hintSpec sz (Push h) (Accepted r) (absQueue q) (absQueue q')"
    if q1: "hqRep sz q1 ys fs1" "map (entryAt q1) ys = filter (\<lambda>e. \<not> sameSlotAs h (fst e)) (map (entryAt q) xs)" "hq_max_bytes q1 = hq_max_bytes q"
      "hq_dropped q1 = hq_dropped q" "\<forall>e \<in> set (map (entryAt q) xs). sameSlotAs h (fst e) \<longrightarrow> isNewerThan (ht_req h) (ht_req (fst e))" for q1 ys fs1
  proof -
    define left where "left = evictOldest (estimatedPayloadBytes sz \<circ> fst) (hq_max_bytes q) ?inc (filter (\<lambda>e. \<not> sameSlotAs h (fst e)) (map (entryAt q) xs))"
    obtain q2 zs fs' handle where a: "evictFor sz ?inc q1 = Some q2" "hqRep sz (storeHint sz h q2) zs fs'"
      "map (entryAt (storeHint sz h q2)) zs = left @ [(h, handle)]" "handle \<notin> snd ` set left"
      "hq_max_bytes (storeHint sz h q2) = hq_max_bytes q" "hq_dropped (storeHint sz h q2) = hq_dropped q + of_nat (length ys - length left)"
      using accept_rep [OF q1(1), of h] fits unfolding left_def q1(2) [symmetric] q1(3,4) by (metis not_less)
    have len: "length ys = length (filter (\<lambda>e. \<not> sameSlotAs h (fst e)) (map (entryAt q) xs))" using arg_cong [OF q1(2), of length] by simp
    have "hintSpec sz (Push h) (Accepted True) (absQueue q) ((absQueue q)\<lparr>hs_entries := left @ [(h, handle)],
        hs_dropped := hs_dropped (absQueue q) + of_nat (length (filter (\<lambda>e. \<not> sameSlotAs h (fst e)) (hs_entries (absQueue q))) - length left)\<rparr>)"
      using fits q1(5) a(4) by (intro hintSpec.queued) (simp_all add: abs left_def)
    moreover have "absQueue (storeHint sz h q2) = (absQueue q)\<lparr>hs_entries := left @ [(h, handle)],
        hs_dropped := hs_dropped (absQueue q) + of_nat (length (filter (\<lambda>e. \<not> sameSlotAs h (fst e)) (hs_entries (absQueue q))) - length left)\<rparr>"
      using a(3,5,6) len by (simp add: abs abs_rep [OF a(2)])
    ultimately show ?thesis using a(1,2) by (intro exI [of _ True] exI [of _ "storeHint sz h q2"] exI) auto
  qed
  show ?thesis
  proof (cases "find ?P xs")
    case None
    then have no: "\<forall>e \<in> set (map (entryAt q) xs). \<not> sameSlotAs h (fst e)" by (auto simp: find_None_iff entryAt_def)
    then have "map (entryAt q) xs = filter (\<lambda>e. \<not> sameSlotAs h (fst e)) (map (entryAt q) xs)" by (simp add: filter_id_conv)
    then show ?thesis using finish [OF rep _ refl refl] no fits scan None by (simp add: hqPush_def Let_def)
  next
    case (Some x)
    then obtain as bs where x: "xs = as @ x # bs" "?P x" using find_removeFirst by metis
    have xin: "x \<in> set xs" using x by simp
    have xn: "x \<noteq> K_NONE" "hintAt x q = Some (hintOf q x)" using rep_links(3) [of sz q as "x # bs" fs x bs] rep x by simp_all
    have same: "sameSlotAs h (fst (entryAt q x))" using x(2) by (simp add: entryAt_def)
    have "distinct (map slotKey (map (entryAt q) as @ entryAt q x # map (entryAt q) bs))" using key x(1) by simp
    note oth = filter_others [OF this same]
    show ?thesis
    proof (cases "isNewerThan (ht_req h) (ht_req (hintOf q x))")
      case False
      have "hintSpec sz (Push h) (Accepted False) (absQueue q) (absQueue q)"
        using fits False same xin by (intro hintSpec.outdated [of _ _ _ "entryAt q x"]) (simp_all add: abs entryAt_def)
      then show ?thesis using fits scan Some xn False rep by (auto simp: hqPush_def Let_def)
    next
      case True
      obtain q1 where q1: "unlinkAndRelease sz x q = Some q1" "hqRep sz q1 (as @ bs) (x # fs)" "frameOf q q1" "map (entryAt q1) (as @ bs) = map (entryAt q) (as @ bs)"
        using unlink_entries [of sz q as x bs fs] rep x(1) by metis
      have "map (entryAt q1) (as @ bs) = filter (\<lambda>e. \<not> sameSlotAs h (fst e)) (map (entryAt q) xs)" using q1(4) oth(1) x(1) by simp
      moreover have "\<forall>e \<in> set (map (entryAt q) xs). sameSlotAs h (fst e) \<longrightarrow> isNewerThan (ht_req h) (ht_req (fst e))"
        using oth(2) x(1) True by (metis entryAt_def fst_conv list.simps(9) map_append)
      ultimately show ?thesis using finish [OF q1(2)] q1(1,3) fits scan Some xn True by (simp add: hqPush_def Let_def frameOf_def)
    qed
  qed
qed

lemma snap_rep:
  assumes "hqRep sz q (as @ bs) fs"
  shows "\<exists>q' rs fs'. snapLoop sz now n (firstOr bs) live q = Some (live @ fst (snapSpec now (n - length live) (map (entryAt q) bs)), q')
    \<and> hqRep sz q' (as @ rs) fs' \<and> map (entryAt q') (as @ rs) = map (entryAt q) as @ snd (snapSpec now (n - length live) (map (entryAt q) bs))
    \<and> hq_max_bytes q' = hq_max_bytes q \<and> hq_dropped q' = hq_dropped q"
  using assms
proof (induction bs arbitrary: as live q fs)
  case Nil
  then show ?case by (intro exI [of _ "publishMetrics q"] exI [of _ "[]"] exI [of _ fs]) (simp add: snapLoop.simps)
next
  case (Cons x bs)
  note rep = Cons.prems
  note l = rep_links(2,3) [OF rep refl]
  show ?case
  proof (cases "length live < n")
    case False
    then show ?thesis using rep by (intro exI [of _ "publishMetrics q"] exI [of _ "x # bs"] exI [of _ fs]) (simp add: snapLoop.simps)
  next
    case True
    then have n: "n - length live \<noteq> 0" by simp
    show ?thesis
    proof (cases "ht_expires_at (hintOf q x) \<le> now")
      case exp: True
      obtain q1 where q1: "unlinkAndRelease sz x q = Some q1" "hqRep sz q1 (as @ bs) (x # fs)" "frameOf q q1" "map (entryAt q1) (as @ bs) = map (entryAt q) (as @ bs)"
        using unlink_entries [OF rep] by metis
      have loop: "snapLoop sz now n x live q = snapLoop sz now n (firstOr bs) live q1"
        using True l exp q1(1) by (subst snapLoop.simps) (simp add: Let_def)
      have spec: "snapSpec now (n - length live) (map (entryAt q) (x # bs)) = snapSpec now (n - length live) (map (entryAt q1) bs)"
      proof -
        have "map (entryAt q1) bs = map (entryAt q) bs" using q1(4) by simp
        then show ?thesis using n exp by (simp only: list.map snapSpec.simps) (simp add: entryAt_def)
      qed
      show ?thesis using Cons.IH [OF q1(2), of live] q1(3,4) unfolding spec firstOr_simps loop by (simp add: frameOf_def)
    next
      case False
      let ?e = "entryAt q x"
      have loop: "snapLoop sz now n x live q = snapLoop sz now n (firstOr bs) (live @ [?e]) q"
        using True l False by (subst snapLoop.simps) (simp add: Let_def entryAt_def)
      obtain L R where LR: "snapSpec now (n - length (live @ [?e])) (map (entryAt q) bs) = (L, R)" by fastforce
      then have spec: "snapSpec now (n - length live) (map (entryAt q) (x # bs)) = (?e # L, ?e # R)"
        using n False by (simp add: entryAt_def)
      have "hqRep sz q ((as @ [x]) @ bs) fs" using rep by simp
      from Cons.IH [OF this, of "live @ [?e]"] obtain q' rs fs' where "snapLoop sz now n (firstOr bs) (live @ [?e]) q = Some ((live @ [?e]) @ L, q')"
        "hqRep sz q' ((as @ [x]) @ rs) fs'" "map (entryAt q') ((as @ [x]) @ rs) = map (entryAt q) (as @ [x]) @ R"
        "hq_max_bytes q' = hq_max_bytes q" "hq_dropped q' = hq_dropped q" unfolding LR by auto
      then show ?thesis unfolding spec firstOr_simps loop by (intro exI [of _ q'] exI [of _ "x # rs"] exI [of _ fs']) simp
    qed
  qed
qed

lemma snapshot_rep:
  assumes rep: "hqRep sz q xs fs"
  shows "\<exists>live q' xs' fs'. hqSnapshot sz now n q = Some (live, q') \<and> hqRep sz q' xs' fs' \<and> hintSpec sz (Snapshot now n) (Live live) (absQueue q) (absQueue q')"
proof -
  obtain L R where LR: "snapSpec now n (map (entryAt q) xs) = (L, R)" by fastforce
  have head: "hq_head q = firstOr xs" using rep_links(1) [of sz q "[]" xs fs] rep by simp
  obtain q' rs fs' where q': "snapLoop sz now n (firstOr xs) [] q = Some (L, q')" "hqRep sz q' rs fs'" "map (entryAt q') rs = R"
    "hq_max_bytes q' = hq_max_bytes q" "hq_dropped q' = hq_dropped q"
    using snap_rep [of sz q "[]" xs fs now n "[]"] rep LR by auto
  have "absQueue q' = (absQueue q)\<lparr>hs_entries := R\<rparr>" using q'(3-5) by (simp add: abs_rep [OF rep] abs_rep [OF q'(2)])
  moreover have "hintSpec sz (Snapshot now n) (Live L) (absQueue q) ((absQueue q)\<lparr>hs_entries := R\<rparr>)"
    using LR by (intro hintSpec.snapshot) (simp add: abs_rep [OF rep])
  ultimately show ?thesis using q'(1,2) head unfolding hqSnapshot_def by metis
qed

text \<open>Both removals take one entry out.\<close>

lemma unlink_abs:
  assumes rep: "hqRep sz q (as @ x # bs) fs"
  obtains q' where "map_option publishMetrics (unlinkAndRelease sz x q) = Some q'" "hqRep sz q' (as @ bs) (x # fs)"
    "absQueue q' = (absQueue q)\<lparr>hs_entries := map (entryAt q) (as @ bs)\<rparr>"
proof -
  obtain q1 where q1: "unlinkAndRelease sz x q = Some q1" "hqRep sz q1 (as @ bs) (x # fs)" "frameOf q q1" "map (entryAt q1) (as @ bs) = map (entryAt q) (as @ bs)"
    using unlink_entries [OF rep] by metis
  have rep': "hqRep sz (publishMetrics q1) (as @ bs) (x # fs)" using q1(2) by simp
  have "absQueue (publishMetrics q1) = (absQueue q)\<lparr>hs_entries := map (entryAt q) (as @ bs)\<rparr>"
    using q1(3,4) by (simp add: abs_rep [OF rep] abs_rep [OF rep'] frameOf_def)
  then show ?thesis using that q1(1) rep' by simp
qed

lemma remove_rep:
  assumes rep: "hqRep sz q xs fs"
  shows "\<exists>q' xs' fs'. hqRemove sz handle q = Some q' \<and> hqRep sz q' xs' fs' \<and> hintSpec sz (Remove handle) Done (absQueue q) (absQueue q')"
proof -
  obtain i g where h: "handle = (i, g)" by fastforce
  note r = hqRepD [OF rep]
  have spec: "hintSpec sz (Remove handle) Done (absQueue q) ((absQueue q)\<lparr>hs_entries := filter (\<lambda>e. snd e \<noteq> handle) (map (entryAt q) xs)\<rparr>)"
    using hintSpec.remove [of sz handle "absQueue q"] by (simp add: abs_rep [OF rep])
  show ?thesis
  proof (cases "i \<in> set xs \<and> sl_generation (hq_slots q ! i) = g")
    case True
    then obtain as bs where x: "xs = as @ i # bs" by (meson in_set_conv_decomp)
    obtain q' where q': "map_option publishMetrics (unlinkAndRelease sz i q) = Some q'" "hqRep sz q' (as @ bs) (i # fs)"
      "absQueue q' = (absQueue q)\<lparr>hs_entries := map (entryAt q) (as @ bs)\<rparr>" using unlink_abs [of sz q as i bs fs] rep x by metis
    have "filter (\<lambda>e. snd e \<noteq> handle) (map (entryAt q) xs) = map (entryAt q) (filter (\<lambda>j. j \<noteq> i) xs)"
      using True h by (auto simp: filter_map comp_def entryAt_def intro!: filter_cong)
    also have "filter (\<lambda>j. j \<noteq> i) xs = as @ bs"
    proof -
      have "filter (\<lambda>j. j \<noteq> i) as = as" "filter (\<lambda>j. j \<noteq> i) bs = bs" using r(4) x by (auto simp: filter_id_conv)
      then show ?thesis using x by simp
    qed
    finally have "hintSpec sz (Remove handle) Done (absQueue q) (absQueue q')" using spec q'(3) by simp
    moreover have "hqRemove sz handle q = Some q'" using True r(9,12) [of i] q'(1) by (auto simp: hqRemove_def h)
    ultimately show ?thesis using q'(2) by blast
  next
    case False
    then have "filter (\<lambda>e. snd e \<noteq> handle) (map (entryAt q) xs) = map (entryAt q) xs" by (auto simp: filter_id_conv entryAt_def h)
    then have "hintSpec sz (Remove handle) Done (absQueue q) (absQueue q)" using spec by (simp add: abs_rep [OF rep])
    moreover have "hqRemove sz handle q = Some q" using False r(9) [of i] by (auto simp: hqRemove_def h)
    ultimately show ?thesis using rep by blast
  qed
qed

lemma removeFirst_map: "removeFirst P (map f xs) = map f (removeFirst (P \<circ> f) xs)"
  by (induction xs) auto

lemma removeReq_rep:
  assumes rep: "hqRep sz q xs fs"
  shows "\<exists>q' xs' fs'. hqRemoveReq sz t r q = Some q' \<and> hqRep sz q' xs' fs' \<and> hintSpec sz (RemoveReq t r) Done (absQueue q) (absQueue q')"
proof -
  define P where "P = (\<lambda>h :: Hint. ht_target h = t \<and> rq_key (ht_req h) = rq_key r \<and> rq_version (ht_req h) = rq_version r)"
  let ?P = "\<lambda>i. P (hintOf q i)"
  have head: "hq_head q = firstOr xs" using rep_links(1) [of sz q "[]" xs fs] rep by simp
  have scan: "scanFor P q (hq_head q) = Some (case find ?P xs of None \<Rightarrow> K_NONE | Some x \<Rightarrow> x)" using scan_rep [of sz q "[]" xs fs P] rep head by simp
  have "hintSpec sz (RemoveReq t r) Done (absQueue q) ((absQueue q)\<lparr>hs_entries := removeFirst (\<lambda>e. P (fst e)) (map (entryAt q) xs)\<rparr>)"
    using hintSpec.remove_req [of sz t r "absQueue q"] by (simp add: abs_rep [OF rep] P_def)
  then have spec: "hintSpec sz (RemoveReq t r) Done (absQueue q) ((absQueue q)\<lparr>hs_entries := map (entryAt q) (removeFirst ?P xs)\<rparr>)"
    by (simp add: removeFirst_map comp_def entryAt_def)
  show ?thesis
  proof (cases "find ?P xs")
    case None
    then have "hintSpec sz (RemoveReq t r) Done (absQueue q) (absQueue q)" using spec by (simp add: find_none_removeFirst abs_rep [OF rep])
    then show ?thesis using None scan rep unfolding hqRemoveReq_def P_def [symmetric] by auto
  next
    case (Some x)
    obtain as bs where x: "xs = as @ x # bs" "removeFirst ?P xs = as @ bs" using find_removeFirst [OF Some] by blast
    have xn: "x \<noteq> K_NONE" using rep_links(3) [of sz q as "x # bs" fs x bs] rep x(1) by simp
    obtain q' where q': "map_option publishMetrics (unlinkAndRelease sz x q) = Some q'" "hqRep sz q' (as @ bs) (x # fs)"
      "absQueue q' = (absQueue q)\<lparr>hs_entries := map (entryAt q) (as @ bs)\<rparr>" using unlink_abs [of sz q as x bs fs] rep x(1) by metis
    have "hqRemoveReq sz t r q = Some q'" using Some scan xn q'(1) unfolding hqRemoveReq_def P_def [symmetric] by simp
    then show ?thesis using q'(2,3) spec x(2) by auto
  qed
qed

section \<open>Runs\<close>

lemma evictOldest_drop: "\<exists>k. evictOldest w b i xs = drop k xs"
proof (induction xs)
  case (Cons x xs)
  then obtain k where "evictOldest w b i xs = drop k xs" by blast
  then have "evictOldest w b i (x # xs) = drop (Suc k) (x # xs) \<or> evictOldest w b i (x # xs) = drop 0 (x # xs)" by simp
  then show ?case by blast
qed simp

lemma snapSpec_sub: "snapSpec now n es = (live, left) \<Longrightarrow> set left \<subseteq> set es \<and> (distinct (map f es) \<longrightarrow> distinct (map f left))"
  by (induction now n es arbitrary: live left rule: snapSpec.induct) (fastforce split: if_splits prod.splits)+

lemma removeFirst_sub: "set (removeFirst P es) \<subseteq> set es \<and> (distinct (map f es) \<longrightarrow> distinct (map f (removeFirst P es)))"
  by (induction es) auto

lemma hintSpec_distinct:
  assumes "hintSpec sz c r s s'" "distinct (map slotKey (hs_entries s))"
  shows "distinct (map slotKey (hs_entries s'))"
  using assms
proof (induction rule: hintSpec.induct)
  case (queued h s kept left handle)
  obtain k where k: "left = drop k kept" using evictOldest_drop queued.hyps(4) by blast
  have "distinct (map slotKey kept)" using queued by (simp add: distinct_map_filter)
  then have "distinct (map slotKey left)" unfolding k drop_map [symmetric] by (rule distinct_drop)
  moreover have "slotKey (h, handle) \<notin> slotKey ` set left"
  proof
    assume "slotKey (h, handle) \<in> slotKey ` set left"
    then obtain e where "e \<in> set kept" "slotKey e = slotKey (h, handle)" using k by (auto dest: in_set_dropD)
    then show False using queued.hyps(3) sameSlot_key [of h e] by (simp add: slotKey_def)
  qed
  ultimately show ?case by simp
next
  case (snapshot now n s live left)
  then show ?case using snapSpec_sub [OF snapshot.hyps, of slotKey] by simp
next
  case (remove_req t r s)
  then show ?case using removeFirst_sub [of _ "hs_entries s" slotKey] by simp
qed (simp_all add: distinct_map_filter)

lemma new_rep: "hqRep sz newHintQueue [] []"
  by (auto simp: hqRep_def newHintQueue_def emptySlot_def)

lemma call_rep:
  assumes rep: "hqRep sz q xs fs" and key: "distinct (map slotKey (hs_entries (absQueue q)))"
  shows "\<exists>r q' xs' fs'. hqCall sz c q = Some (r, q') \<and> hqRep sz q' xs' fs' \<and> hintSpec sz c r (absQueue q) (absQueue q')"
proof (cases c)
  case (Push h)
  then show ?thesis using push_rep [OF rep, of h] key by (fastforce simp: abs_rep [OF rep])
next
  case (Snapshot now n)
  then show ?thesis using snapshot_rep [OF rep, of now n] by fastforce
next
  case (Remove handle)
  then show ?thesis using remove_rep [OF rep, of handle] by fastforce
next
  case (RemoveReq t r)
  then show ?thesis using removeReq_rep [OF rep, of t r] by fastforce
next
  case (SetMaxBytes n)
  have "absQueue (hqSetMaxBytes n q) = (absQueue q)\<lparr>hs_max := n\<rparr>"
    using abs_rep [of sz "hqSetMaxBytes n q" xs fs] rep by (simp add: hqSetMaxBytes_def abs_rep [OF rep])
  moreover have "hqRep sz (hqSetMaxBytes n q) xs fs" using rep by (simp add: hqSetMaxBytes_def)
  ultimately show ?thesis using SetMaxBytes hintSpec.set_max [of sz n "absQueue q"] by (intro exI conjI) (auto intro: exI)
qed

lemma run_rep:
  assumes "hqRep sz q xs fs" "distinct (map slotKey (hs_entries (absQueue q)))"
  shows "\<exists>rets q' xs' fs'. hqRun sz calls q = Some (rets, q') \<and> hqRep sz q' xs' fs' \<and> hintSpecRun sz calls rets (absQueue q) (absQueue q')
    \<and> distinct (map slotKey (hs_entries (absQueue q')))"
  using assms
proof (induction calls arbitrary: q xs fs)
  case Nil
  then show ?case by (auto intro: hintSpecRun.finished)
next
  case (Cons c cs)
  obtain r q1 xs1 fs1 where c: "hqCall sz c q = Some (r, q1)" "hqRep sz q1 xs1 fs1" "hintSpec sz c r (absQueue q) (absQueue q1)"
    using call_rep [OF Cons.prems] by blast
  obtain rets q' xs' fs' where cs: "hqRun sz cs q1 = Some (rets, q')" "hqRep sz q' xs' fs'" "hintSpecRun sz cs rets (absQueue q1) (absQueue q')"
    "distinct (map slotKey (hs_entries (absQueue q')))"
    using Cons.IH [OF c(2) hintSpec_distinct [OF c(3) Cons.prems(2)]] by blast
  show ?case using c cs hintSpecRun.step [OF c(3) cs(3)] by auto
qed

lemma rep_length: "hqRep sz q xs fs \<Longrightarrow> length xs \<le> K_CAPACITY"
  using card_mono [of "{..<K_CAPACITY}" "set xs"] hqRepD(12) [of sz q xs fs] distinct_card [OF hqRepD(4), of sz q xs fs] by fastforce

lemma reachable_rep:
  obtains rets q xs fs where "hqRun sz calls newHintQueue = Some (rets, q)" "hqRep sz q xs fs"
    "hintSpecRun sz calls rets (absQueue newHintQueue) (absQueue q)" "distinct (map slotKey (hs_entries (absQueue q)))"
  using run_rep [OF new_rep, of sz calls] abs_rep [OF new_rep] by fastforce

text \<open>Without the size check of \<open>push\<close> the eviction loop empties the queue and then reads the slot \<open>K_NONE\<close>.\<close>

lemma evict_diverges:
  assumes "hqRep sz q xs fs" "incoming > hq_max_bytes q"
  shows "evictFor sz incoming q = None"
  using assms
proof (induction xs arbitrary: q fs)
  case Nil
  have "unlinkAndRelease sz (hq_head q) q = None"
    using rep_links(1) [of sz q "[]" "[]" fs] Nil.prems by (simp add: unlinkAndRelease_def hintAt_def K_NONE_def)
  then show ?case using Nil.prems by (simp add: evictFor.simps [of sz incoming q])
next
  case (Cons x xs)
  obtain q1 where q1: "unlinkAndRelease sz x q = Some q1" "hqRep sz q1 xs (x # fs)" "frameOf q q1"
    using unlink_entries [of sz q "[]" x xs fs] Cons.prems(1) by auto
  have "evictFor sz incoming (q1\<lparr>hq_dropped := hq_dropped q1 + 1\<rparr>) = None"
    using q1(2,3) Cons.prems(2) by (intro Cons.IH [of _ "x # fs"]) (simp_all add: frameOf_def)
  moreover have "hq_head q = x" using rep_links(1) [of sz q "[]" "x # xs" fs] Cons.prems(1) by simp
  ultimately show ?case using q1(1) Cons.prems(2) by (simp add: evictFor.simps [of sz incoming q])
qed

section \<open>A handle keeps its meaning\<close>

lemma nth_update: "xs[i := v] ! j = (if i = j \<and> i < length xs then v else xs ! j)"
  by (cases "i < length xs") (auto simp: nth_list_update not_less list_update_beyond)

definition quiet :: "HintQueue \<Rightarrow> HintQueue \<Rightarrow> bool" where
  "quiet q q' \<longleftrightarrow> (\<forall>j. sl_generation (hq_slots q' ! j) = sl_generation (hq_slots q ! j)
     \<and> (sl_hint (hq_slots q' ! j) = sl_hint (hq_slots q ! j) \<or> sl_hint (hq_slots q' ! j) = None))"

lemma quiet_refl: "hq_slots q' = hq_slots q \<Longrightarrow> quiet q q'"
  by (simp add: quiet_def)

lemma quiet_trans: "quiet a b \<Longrightarrow> quiet b c \<Longrightarrow> quiet a c"
  unfolding quiet_def by metis

lemma quiet_publish: "quiet q (publishMetrics q)"
  by (simp add: quiet_refl)

lemma quiet_mod:
  assumes "\<And>s. sl_generation (f s) = sl_generation s" "\<And>s. sl_hint (f s) = sl_hint s \<or> sl_hint (f s) = None" "hq_slots q1 = hq_slots q"
  shows "quiet q (modSlot i f q1)"
  using assms by (auto simp: quiet_def modSlot_def nth_update)

lemma quiet_unlink:
  assumes "unlinkAndRelease sz x q = Some q'"
  shows "quiet q q'"
proof -
  obtain h where h: "hintAt x q = Some h" using assms by (auto simp: unlinkAndRelease_def split: bind_splits)
  let ?p = "sl_prev (hq_slots q ! x)" and ?n = "sl_next (hq_slots q ! x)"
  define q1 where "q1 = q\<lparr>hq_bytes := hq_bytes q - estimatedPayloadBytes sz h\<rparr>"
  define q2 where "q2 = (if ?p \<noteq> K_NONE then modSlot ?p (\<lambda>s. s\<lparr>sl_next := ?n\<rparr>) q1 else q1\<lparr>hq_head := ?n\<rparr>)"
  define q3 where "q3 = (if ?n \<noteq> K_NONE then modSlot ?n (\<lambda>s. s\<lparr>sl_prev := ?p\<rparr>) q2 else q2\<lparr>hq_tail := ?p\<rparr>)"
  define q4 where "q4 = modSlot x (\<lambda>s. s\<lparr>sl_hint := None, sl_prev := K_NONE, sl_next := K_NONE, sl_free_next := hq_free_head q3\<rparr>) q3"
  have "q' = q4\<lparr>hq_free_head := x, hq_size := hq_size q4 - 1\<rparr>"
    using assms h by (cases "?p = K_NONE"; cases "?n = K_NONE") (simp_all add: unlinkAndRelease_def q4_def q3_def q2_def q1_def Let_def)
  then have "quiet q4 q'" by (intro quiet_refl) simp
  moreover have "quiet q3 q4" unfolding q4_def by (rule quiet_mod) simp_all
  moreover have "quiet q2 q3" unfolding q3_def by (simp add: quiet_mod quiet_refl)
  moreover have "quiet q1 q2" unfolding q2_def by (simp add: quiet_mod quiet_refl)
  moreover have "quiet q q1" unfolding q1_def by (rule quiet_refl) simp
  ultimately show ?thesis by (meson quiet_trans)
qed

lemma quiet_evict:
  assumes "evictFor sz incoming q = Some q'"
  shows "quiet q q'"
proof (rule evictFor.raw_induct [where P = "\<lambda>sz incoming q q'. quiet q q'", OF _ assms])
  fix f sz incoming q y
  assume ih: "\<And>sz incoming q y. f sz incoming q = Some y \<Longrightarrow> quiet q y"
    and step: "(if hq_size q = K_CAPACITY \<or> hq_max_bytes q < hq_bytes q + incoming
       then Option.bind (unlinkAndRelease sz (hq_head q) q) (\<lambda>q. f sz incoming (q\<lparr>hq_dropped := hq_dropped q + 1\<rparr>)) else Some q) = Some y"
  show "quiet q y"
  proof (cases "hq_size q = K_CAPACITY \<or> hq_max_bytes q < hq_bytes q + incoming")
    case True
    then obtain q1 where q1: "unlinkAndRelease sz (hq_head q) q = Some q1" "f sz incoming (q1\<lparr>hq_dropped := hq_dropped q1 + 1\<rparr>) = Some y"
      using step by (auto split: bind_splits)
    have "quiet q1 (q1\<lparr>hq_dropped := hq_dropped q1 + 1\<rparr>)" by (rule quiet_refl) simp
    then show ?thesis using quiet_unlink [OF q1(1)] ih [OF q1(2)] quiet_trans by blast
  next
    case False
    then show ?thesis using step by (auto simp: quiet_refl)
  qed
qed

lemma quiet_snap:
  assumes "snapLoop sz now n index live q = Some (live', q')"
  shows "quiet q q'"
proof -
  have "quiet q (snd (live', q'))"
  proof (rule snapLoop.raw_induct [where P = "\<lambda>sz now n index live q r. quiet q (snd r)", OF _ assms])
    fix f sz now n index live q y
    assume ih: "\<And>sz now n index live q y. f sz now n index live q = Some y \<Longrightarrow> quiet q (snd y)"
      and step: "(if index \<noteq> K_NONE \<and> length live < n then
        Option.bind (hintAt index q) (\<lambda>h.
          let next = sl_next (hq_slots q ! index) in
          if ht_expires_at h \<le> now then Option.bind (unlinkAndRelease sz index q) (\<lambda>q. f sz now n next live q)
          else f sz now n next (live @ [(h, index, sl_generation (hq_slots q ! index))]) q)
        else Some (live, publishMetrics q)) = Some y"
    show "quiet q (snd y)"
    proof (cases "index \<noteq> K_NONE \<and> length live < n")
      case True
      then show ?thesis using step by (auto simp: Let_def split: bind_splits if_splits intro: ih quiet_trans [OF quiet_unlink])
    next
      case False
      then show ?thesis using step by (auto simp: quiet_refl)
    qed
  qed
  then show ?thesis by simp
qed

lemma quiet_acquire: "acquireSlot q = (i, q1) \<Longrightarrow> quiet q q1"
  by (auto simp: acquireSlot_def Let_def quiet_mod quiet_refl split: if_splits)

lemma store_generations:
  obtains i where "\<And>j. j \<noteq> i \<Longrightarrow> sl_generation (hq_slots (storeHint sz h q) ! j) = sl_generation (hq_slots q ! j)
      \<and> (sl_hint (hq_slots (storeHint sz h q) ! j) = sl_hint (hq_slots q ! j) \<or> sl_hint (hq_slots (storeHint sz h q) ! j) = None)"
    "sl_generation (hq_slots (storeHint sz h q) ! i) = sl_generation (hq_slots q ! i) + 1 \<or> quiet q (storeHint sz h q)"
proof -
  obtain i q1 where a: "acquireSlot q = (i, q1)" by fastforce
  define q2 where "q2 = (modSlot i (\<lambda>s. s\<lparr>sl_hint := Some h\<rparr>) ((modSlot i (\<lambda>s. s\<lparr>sl_generation := sl_generation s + 1\<rparr>) q1)
     \<lparr>hq_bytes := hq_bytes q1 + estimatedPayloadBytes sz h\<rparr>))"
  define q3 where "q3 = modSlot i (\<lambda>s. s\<lparr>sl_prev := hq_tail q2, sl_next := K_NONE\<rparr>) q2"
  have sq: "storeHint sz h q = publishMetrics ((linkAtTail i q2)\<lparr>hq_size := hq_size (linkAtTail i q2) + 1\<rparr>)"
    by (simp add: storeHint_def a q2_def Let_def)
  have link: "linkAtTail i q2 = (if hq_tail q3 \<noteq> K_NONE then modSlot (hq_tail q3) (\<lambda>s. s\<lparr>sl_next := i\<rparr>) q3 else q3\<lparr>hq_head := i\<rparr>)\<lparr>hq_tail := i\<rparr>"
    by (simp add: linkAtTail_def q3_def Let_def)
  have "quiet q2 q3" unfolding q3_def by (rule quiet_mod) simp_all
  moreover have "quiet q3 (if hq_tail q3 \<noteq> K_NONE then modSlot (hq_tail q3) (\<lambda>s. s\<lparr>sl_next := i\<rparr>) q3 else q3\<lparr>hq_head := i\<rparr>)"
    by (simp add: quiet_mod quiet_refl)
  moreover have "quiet (if hq_tail q3 \<noteq> K_NONE then modSlot (hq_tail q3) (\<lambda>s. s\<lparr>sl_next := i\<rparr>) q3 else q3\<lparr>hq_head := i\<rparr>) (storeHint sz h q)"
    unfolding sq link by (rule quiet_refl) simp
  ultimately have late: "quiet q2 (storeHint sz h q)" by (meson quiet_trans)
  note early = quiet_acquire [OF a]
  have mid: "sl_generation (hq_slots q2 ! j) = sl_generation (hq_slots q1 ! j) \<and> sl_hint (hq_slots q2 ! j) = sl_hint (hq_slots q1 ! j)" if "j \<noteq> i" for j
    using that by (simp add: q2_def modSlot_def)
  show ?thesis
  proof (rule that [of i])
    show "sl_generation (hq_slots (storeHint sz h q) ! j) = sl_generation (hq_slots q ! j)
      \<and> (sl_hint (hq_slots (storeHint sz h q) ! j) = sl_hint (hq_slots q ! j) \<or> sl_hint (hq_slots (storeHint sz h q) ! j) = None)" if "j \<noteq> i" for j
      using early late mid [OF that] unfolding quiet_def by metis
    show "sl_generation (hq_slots (storeHint sz h q) ! i) = sl_generation (hq_slots q ! i) + 1 \<or> quiet q (storeHint sz h q)"
    proof (cases "i < length (hq_slots q1)")
      case True
      then have "sl_generation (hq_slots q2 ! i) = sl_generation (hq_slots q1 ! i) + 1" by (simp add: q2_def modSlot_def)
      then show ?thesis using early late unfolding quiet_def by metis
    next
      case False
      then have "quiet q1 q2" by (intro quiet_refl) (simp add: q2_def modSlot_def list_update_beyond)
      then show ?thesis using early late by (meson quiet_trans)
    qed
  qed
qed

text \<open>Over a run, a slot whose generation has moved by \<open>k\<close> pushes, none of which wraps, still holds its old hint only if \<open>k\<close> is 0.\<close>

definition drift :: "HintQueue \<Rightarrow> nat \<Rightarrow> HintQueue \<Rightarrow> bool" where
  "drift q m q' \<longleftrightarrow> (\<forall>j. \<exists>k \<le> m. sl_generation (hq_slots q' ! j) = sl_generation (hq_slots q ! j) + of_nat k
     \<and> (k = 0 \<longrightarrow> sl_hint (hq_slots q' ! j) = sl_hint (hq_slots q ! j) \<or> sl_hint (hq_slots q' ! j) = None))"

lemma drift_quiet: "quiet q q' \<Longrightarrow> drift q m q'"
  unfolding drift_def quiet_def by (intro allI exI [of _ 0]) simp

lemma drift_trans: "drift a m b \<Longrightarrow> drift b n c \<Longrightarrow> drift a (m + n) c"
  unfolding drift_def
proof
  fix j
  assume "\<forall>j. \<exists>k\<le>m. sl_generation (hq_slots b ! j) = sl_generation (hq_slots a ! j) + word_of_nat k
      \<and> (k = 0 \<longrightarrow> sl_hint (hq_slots b ! j) = sl_hint (hq_slots a ! j) \<or> sl_hint (hq_slots b ! j) = None)"
    "\<forall>j. \<exists>k\<le>n. sl_generation (hq_slots c ! j) = sl_generation (hq_slots b ! j) + word_of_nat k
      \<and> (k = 0 \<longrightarrow> sl_hint (hq_slots c ! j) = sl_hint (hq_slots b ! j) \<or> sl_hint (hq_slots c ! j) = None)"
  then obtain k l where "k \<le> m" "sl_generation (hq_slots b ! j) = sl_generation (hq_slots a ! j) + of_nat k"
      "k = 0 \<longrightarrow> sl_hint (hq_slots b ! j) = sl_hint (hq_slots a ! j) \<or> sl_hint (hq_slots b ! j) = None"
      "l \<le> n" "sl_generation (hq_slots c ! j) = sl_generation (hq_slots b ! j) + of_nat l"
      "l = 0 \<longrightarrow> sl_hint (hq_slots c ! j) = sl_hint (hq_slots b ! j) \<or> sl_hint (hq_slots c ! j) = None" by blast
  then show "\<exists>k\<le>m + n. sl_generation (hq_slots c ! j) = sl_generation (hq_slots a ! j) + of_nat k
      \<and> (k = 0 \<longrightarrow> sl_hint (hq_slots c ! j) = sl_hint (hq_slots a ! j) \<or> sl_hint (hq_slots c ! j) = None)"
    by (intro exI [of _ "k + l"]) (auto simp: add.assoc)
qed

lemma drift_store: "drift q 1 (storeHint sz h q)"
proof -
  obtain i where i: "\<And>j. j \<noteq> i \<Longrightarrow> sl_generation (hq_slots (storeHint sz h q) ! j) = sl_generation (hq_slots q ! j)
      \<and> (sl_hint (hq_slots (storeHint sz h q) ! j) = sl_hint (hq_slots q ! j) \<or> sl_hint (hq_slots (storeHint sz h q) ! j) = None)"
    "sl_generation (hq_slots (storeHint sz h q) ! i) = sl_generation (hq_slots q ! i) + 1 \<or> quiet q (storeHint sz h q)"
    using store_generations by blast
  show ?thesis
  proof (cases "quiet q (storeHint sz h q)")
    case False
    then have g: "sl_generation (hq_slots (storeHint sz h q) ! i) = sl_generation (hq_slots q ! i) + 1" using i(2) by blast
    show ?thesis
      unfolding drift_def
    proof
      fix j
      show "\<exists>k\<le>1. sl_generation (hq_slots (storeHint sz h q) ! j) = sl_generation (hq_slots q ! j) + of_nat k
        \<and> (k = 0 \<longrightarrow> sl_hint (hq_slots (storeHint sz h q) ! j) = sl_hint (hq_slots q ! j) \<or> sl_hint (hq_slots (storeHint sz h q) ! j) = None)"
        using i(1) [of j] g by (intro exI [of _ "if j = i then 1 else 0"]) auto
    qed
  qed (rule drift_quiet)
qed

lemma drift_call:
  assumes "hqCall sz c q = Some (r, q')"
  shows "drift q 1 q'"
proof (cases c)
  case (Push h)
  then obtain b where p: "hqPush sz h q = Some (b, q')" using assms by auto
  show ?thesis
  proof (cases "estimatedPayloadBytes sz h > hq_max_bytes q")
    case True
    then have "hq_slots q' = hq_slots q" using p by (auto simp: hqPush_def Let_def)
    then show ?thesis by (intro drift_quiet quiet_refl)
  next
    case False
    then obtain index where i: "(if index \<noteq> K_NONE \<and> \<not> isNewerThan (ht_req h) (ht_req (the (hintAt index q))) then Some (False, q)
        else Option.bind (if index \<noteq> K_NONE then unlinkAndRelease sz index q else Some q)
          (\<lambda>q. Option.bind (evictFor sz (estimatedPayloadBytes sz h) q) (\<lambda>q. Some (True, storeHint sz h q)))) = Some (b, q')"
      using p by (auto simp: hqPush_def Let_def split: bind_splits)
    show ?thesis
    proof (cases "index \<noteq> K_NONE \<and> \<not> isNewerThan (ht_req h) (ht_req (the (hintAt index q)))")
      case True
      then show ?thesis using i by (auto simp: drift_quiet quiet_refl)
    next
      case False
      then obtain q1 q2 where q: "(if index \<noteq> K_NONE then unlinkAndRelease sz index q else Some q) = Some q1"
        "evictFor sz (estimatedPayloadBytes sz h) q1 = Some q2" "q' = storeHint sz h q2"
        using i by (auto simp: if_not_P simp del: de_Morgan_conj split: bind_splits)
      have "quiet q q1" using q(1) by (auto split: if_splits intro: quiet_unlink simp: quiet_refl)
      then have "quiet q q2" using quiet_evict [OF q(2)] by (rule quiet_trans)
      then show ?thesis using drift_trans [OF drift_quiet [of q q2 0] drift_store [of q2 sz h]] q(3) by simp
    qed
  qed
next
  case (Snapshot now n)
  then show ?thesis using assms quiet_snap by (intro drift_quiet) (auto simp: hqSnapshot_def)
next
  case (Remove handle)
  then show ?thesis using assms
    by (intro drift_quiet) (auto simp: hqRemove_def quiet_refl split: prod.splits if_splits intro!: quiet_trans [OF quiet_unlink quiet_publish])
next
  case (RemoveReq t r)
  then show ?thesis using assms
    by (intro drift_quiet) (auto simp: hqRemoveReq_def quiet_refl split: bind_splits if_splits intro!: quiet_trans [OF quiet_unlink quiet_publish])
next
  case (SetMaxBytes n)
  then show ?thesis using assms by (intro drift_quiet quiet_refl) (auto simp: hqSetMaxBytes_def)
qed

lemma drift_run: "hqRun sz calls q = Some (rets, q') \<Longrightarrow> drift q (length calls) q'"
proof (induction calls arbitrary: q rets)
  case Nil
  then show ?case by (auto simp: drift_quiet quiet_refl)
next
  case (Cons c cs)
  then obtain r q1 rets' where "hqCall sz c q = Some (r, q1)" "hqRun sz cs q1 = Some (rets', q')" by (auto split: bind_splits)
  then show ?case using drift_trans [OF drift_call] Cons.IH by fastforce
qed

section \<open>Properties\<close>

text \<open>
  C13. The slot array with its links is a coalescing FIFO. From the empty queue, any sequence of \<open>push\<close>,
  \<open>snapshot\<close>, both forms of \<open>remove\<close> and \<open>setMaxBytes\<close> returns, never follows a link out of the array or reads
  an empty slot, and returns and leaves what the abstract queue does; the size and byte counters are those of
  the queued hints, there are at most \<open>K_CAPACITY\<close>, and no two of them are for the same target and key.
\<close>

theorem hint_queue_refines_fifo:
  "\<exists>rets q. hqRun sz calls newHintQueue = Some (rets, q)
    \<and> hintSpecRun sz calls rets \<lparr>hs_entries = [], hs_max = K_DEFAULT_MAX_BYTES, hs_dropped = 0\<rparr> (absQueue q)
    \<and> hq_size q = length (hs_entries (absQueue q)) \<and> hq_size q \<le> K_CAPACITY
    \<and> hq_bytes q = sum_list (map (estimatedPayloadBytes sz \<circ> fst) (hs_entries (absQueue q)))
    \<and> distinct (map slotKey (hs_entries (absQueue q)))"
proof -
  obtain rets q xs fs where r: "hqRun sz calls newHintQueue = Some (rets, q)" "hqRep sz q xs fs"
    "hintSpecRun sz calls rets (absQueue newHintQueue) (absQueue q)" "distinct (map slotKey (hs_entries (absQueue q)))"
    by (rule reachable_rep [of sz calls])
  have "absQueue newHintQueue = \<lparr>hs_entries = [], hs_max = K_DEFAULT_MAX_BYTES, hs_dropped = 0\<rparr>"
    using abs_rep [OF new_rep] by (simp add: newHintQueue_def)
  moreover have "hs_entries (absQueue q) = map (entryAt q) xs" using abs_rep [OF r(2)] by simp
  moreover have "(estimatedPayloadBytes sz \<circ> fst) \<circ> entryAt q = estimatedPayloadBytes sz \<circ> hintOf q" by (auto simp: entryAt_def)
  ultimately show ?thesis using r rep_length [OF r(2)] hqRepD(10,11) [OF r(2)] by (intro exI [of _ rets] exI [of _ q]) simp
qed

text \<open>
  C26. The eviction loop of \<open>push\<close> ends, on every queue that can arise, exactly when the incoming hint fits the
  byte budget; the check that rejects an oversized hint first is what keeps it from emptying the queue and
  dereferencing the slot \<open>K_NONE\<close>.
\<close>

theorem eviction_loop_terminates:
  "\<exists>rets q. hqRun sz calls newHintQueue = Some (rets, q)
    \<and> (\<forall>incoming. (\<exists>q'. evictFor sz incoming q = Some q' \<and> hq_size q' \<le> hq_size q) \<longleftrightarrow> incoming \<le> hq_max_bytes q)"
proof -
  obtain rets q xs fs where r: "hqRun sz calls newHintQueue = Some (rets, q)" "hqRep sz q xs fs" by (rule reachable_rep [of sz calls])
  have "(\<exists>q'. evictFor sz incoming q = Some q' \<and> hq_size q' \<le> hq_size q) \<longleftrightarrow> incoming \<le> hq_max_bytes q" for incoming
  proof (cases "incoming \<le> hq_max_bytes q")
    case True
    define ys where "ys = evictOldest (estimatedPayloadBytes sz \<circ> hintOf q) (hq_max_bytes q) incoming xs"
    obtain q' fs' where q': "evictFor sz incoming q = Some q'" "hqRep sz q' ys fs'" using evict_rep [OF r(2) True] unfolding Let_def ys_def [symmetric] by blast
    have "length ys \<le> length xs" unfolding ys_def by (rule evictOldest_sub(2))
    then have "hq_size q' \<le> hq_size q" using hqRepD(10) [OF q'(2)] hqRepD(10) [OF r(2)] by simp
    then show ?thesis using True q'(1) by simp
  next
    case False
    then show ?thesis using evict_diverges [OF r(2)] by simp
  qed
  then show ?thesis using r(1) by blast
qed

text \<open>
  C19. A replay completion cannot remove a hint it was not sent for: whatever happens to the queue between a
  snapshot and the removal by its handle, in fewer than \<open>2 ^ 64\<close> calls, the removal takes out the hint the handle
  was issued for if it is still queued, and nothing otherwise.
\<close>

theorem stale_handle_harmless:
  assumes "hqRun sz calls newHintQueue = Some (rets, q)" "(h, handle) \<in> set (hs_entries (absQueue q))"
    and "hqRun sz calls' q = Some (rets', q')" "length calls' < 2 ^ 64"
  shows "\<exists>q''. hqRemove sz handle q' = Some q'' \<and> hs_entries (absQueue q'') = removeAll (h, handle) (hs_entries (absQueue q'))"
proof -
  obtain xs fs where r: "hqRep sz q xs fs" "distinct (map slotKey (hs_entries (absQueue q)))" by (rule reachable_rep [of sz calls]) (use assms(1) in auto)
  obtain xs' fs' where r': "hqRep sz q' xs' fs'" using run_rep [OF r, of calls'] assms(3) by force
  obtain i where i: "i \<in> set xs" "h = hintOf q i" "handle = (i, sl_generation (hq_slots q ! i))"
    using assms(2) by (auto simp: abs_rep [OF r(1)] entryAt_def)
  have same: "e = (h, handle)" if e: "e \<in> set (hs_entries (absQueue q'))" "snd e = handle" for e
  proof -
    have e': "e = entryAt q' i" "i \<in> set xs'" "sl_generation (hq_slots q' ! i) = sl_generation (hq_slots q ! i)"
      using e i(3) by (auto simp: abs_rep [OF r'] entryAt_def)
    obtain k where k: "k \<le> length calls'" "sl_generation (hq_slots q' ! i) = sl_generation (hq_slots q ! i) + of_nat k"
      "k = 0 \<longrightarrow> sl_hint (hq_slots q' ! i) = sl_hint (hq_slots q ! i) \<or> sl_hint (hq_slots q' ! i) = None"
      using drift_run [OF assms(3)] unfolding drift_def by blast
    have "(of_nat k :: u64) = 0" using e'(3) k(2) by simp
    then have "2 ^ 64 dvd k" by (simp add: word_of_nat_eq_0_iff)
    then have "k = 0" using k(1) assms(4) dvd_imp_le [of "2 ^ 64" k] by linarith
    moreover have "sl_hint (hq_slots q' ! i) \<noteq> None" using hqRepD(9,12) [OF r'] e'(2) by blast
    ultimately have "hintOf q' i = h" using k(3) i(2) by (auto simp: hintOf_def)
    then show ?thesis using e'(1,3) i(3) by (simp add: entryAt_def)
  qed
  obtain q'' where q'': "hqRemove sz handle q' = Some q''" "hintSpec sz (Remove handle) Done (absQueue q') (absQueue q'')"
    using remove_rep [OF r', of handle] by blast
  then have "hs_entries (absQueue q'') = filter (\<lambda>e. snd e \<noteq> handle) (hs_entries (absQueue q'))" by (auto elim: hintSpec_RemoveE)
  also have "\<dots> = removeAll (h, handle) (hs_entries (absQueue q'))"
    unfolding removeAll_filter_not_eq
  proof (rule filter_cong [OF refl])
    fix e assume "e \<in> set (hs_entries (absQueue q'))"
    then show "(snd e \<noteq> handle) = ((h, handle) \<noteq> e)" using same [of e] by (cases "snd e = handle") auto
  qed
  finally show ?thesis using q''(1) by blast
qed

definition demoHint :: "nat \<Rightarrow> Hint" where
  "demoHint v = \<lparr>ht_target = ''n2'', ht_req = \<lparr>rq_opcode = OpReplicate, rq_trace_id = 0, rq_span_id = 0, rq_key = ''k'', rq_value = ''v'',
     rq_version = of_nat v, rq_writer = 7, rq_ttl = None, rq_expires_at = None, rq_tombstone = False\<rparr>, ht_expires_at = 30\<rparr>"

lemma demo_facts:
  "estimatedPayloadBytes 0 (demoHint v) = 4" "sameSlotAs (demoHint v) (demoHint w)" "demoHint 3 \<noteq> demoHint 5"
  "isNewerThan (ht_req (demoHint 5)) (ht_req (demoHint 3))"
  by (simp_all add: estimatedPayloadBytes_def demoHint_def sameSlotAs_def isNewerThan_def reqStamp_def lwwCovers_def compareLww_def)

theorem stale_handle_harmless_witness:
  "\<exists>handle q q' q''. hqRun 0 [Push (demoHint 3)] newHintQueue = Some ([Accepted True], q) \<and> hs_entries (absQueue q) = [(demoHint 3, handle)]
     \<and> hqRun 0 [Push (demoHint 5)] q = Some ([Accepted True], q') \<and> map fst (hs_entries (absQueue q')) = [demoHint 5]
     \<and> hqRemove 0 handle q' = Some q'' \<and> hs_entries (absQueue q'') = hs_entries (absQueue q')"
proof -
  obtain rets q xs fs where r: "hqRun 0 [Push (demoHint 3)] newHintQueue = Some (rets, q)" "hqRep 0 q xs fs"
    "hintSpecRun 0 [Push (demoHint 3)] rets (absQueue newHintQueue) (absQueue q)" "distinct (map slotKey (hs_entries (absQueue q)))"
    by (rule reachable_rep [of 0 "[Push (demoHint 3)]"])
  have "absQueue newHintQueue = \<lparr>hs_entries = [], hs_max = 67108864, hs_dropped = 0\<rparr>"
    using abs_rep [OF new_rep] by (simp add: newHintQueue_def K_DEFAULT_MAX_BYTES_def)
  then obtain handle where e: "rets = [Accepted True]" "hs_entries (absQueue q) = [(demoHint 3, handle)]" "hs_max (absQueue q) = 67108864"
    using r(3) by (auto elim!: hintSpecRun_ConsE hintSpecRun_NilE hintSpec_PushE simp: demo_facts)
  obtain rets' q' xs' fs' where r': "hqRun 0 [Push (demoHint 5)] q = Some (rets', q')"
    "hintSpecRun 0 [Push (demoHint 5)] rets' (absQueue q) (absQueue q')"
    using run_rep [OF r(2,4), of "[Push (demoHint 5)]"] by blast
  have e': "rets' = [Accepted True]" "map fst (hs_entries (absQueue q')) = [demoHint 5]"
    using r'(2) e(2,3) by (auto elim!: hintSpecRun_ConsE hintSpecRun_NilE hintSpec_PushE simp: demo_facts)
  obtain q'' where "hqRemove 0 handle q' = Some q''" "hs_entries (absQueue q'') = removeAll (demoHint 3, handle) (hs_entries (absQueue q'))"
    using stale_handle_harmless [OF r(1) _ r'(1), of "demoHint 3" handle] e(2) by auto
  moreover have "(demoHint 3, handle) \<notin> set (hs_entries (absQueue q'))" using e'(2) demo_facts(3) by (auto simp: map_eq_Cons_conv)
  ultimately show ?thesis using r(1) r'(1) e e' by auto
qed

end
