(* ===== verification/TtlWheel.thy ===== *)
theory TtlWheel
  imports Prelude "HOL-Library.Multiset"
begin

text \<open>
  The intrusive TTL wheel (\<open>include/cinder/store/ttl_wheel.hpp\<close>): 256 slots for near expiries and
  a binary min-heap for long ones. Each slot's circular doubly-linked list, read from its sentinel,
  is a list of node names; \<open>wheel_slot\<close> and \<open>heap_index\<close> are the node's own linkage fields, kept as
  functions from node names. \<open>K_NOT_IN_HEAP\<close> is \<^term>\<open>None\<close>. The abstract view is one map from
  scheduled nodes to the absolute tick at which they fire.
\<close>

section \<open>State and operations\<close>

definition K_SLOT_COUNT :: nat where "K_SLOT_COUNT = 256"

record 'n TtlWheel =
  slots :: "'n list list"
  cursor :: nat
  tick_count :: nat
  heap :: "(nat \<times> 'n) list"
  wheel_slot :: "'n \<Rightarrow> nat"
  heap_index :: "'n \<Rightarrow> nat option"

definition emptyWheel :: "'n TtlWheel" where
  "emptyWheel = \<lparr>slots = replicate K_SLOT_COUNT [], cursor = 0, tick_count = 0, heap = [],
     wheel_slot = (\<lambda>_. 0), heap_index = (\<lambda>_. None)\<rparr>"

definition unlink :: "'n \<Rightarrow> 'n TtlWheel \<Rightarrow> 'n TtlWheel" where
  "unlink n w =
     (if wheel_slot w n = 0 then w
      else let i = wheel_slot w n - 1 in
        w\<lparr>slots := (slots w)[i := remove1 n (slots w ! i)],
          wheel_slot := (wheel_slot w)(n := 0)\<rparr>)"

definition linkBefore :: "'n \<Rightarrow> nat \<Rightarrow> 'n TtlWheel \<Rightarrow> 'n TtlWheel" where
  "linkBefore n slot w = w\<lparr>slots := (slots w)[slot := slots w ! slot @ [n]]\<rparr>"

definition earlier :: "nat \<Rightarrow> nat \<Rightarrow> 'n TtlWheel \<Rightarrow> bool" where
  "earlier lhs rhs w \<longleftrightarrow> fst (heap w ! lhs) < fst (heap w ! rhs)"

definition swapHeap :: "nat \<Rightarrow> nat \<Rightarrow> 'n TtlWheel \<Rightarrow> 'n TtlWheel" where
  "swapHeap lhs rhs w =
     (let h = (heap w)[lhs := heap w ! rhs, rhs := heap w ! lhs] in
      w\<lparr>heap := h,
        heap_index := (heap_index w)(snd (h ! lhs) := Some lhs, snd (h ! rhs) := Some rhs)\<rparr>)"

lemma length_swapHeap [simp]: "length (heap (swapHeap i j w)) = length (heap w)"
  by (simp add: swapHeap_def Let_def)

fun siftUp :: "nat \<Rightarrow> 'n TtlWheel \<Rightarrow> 'n TtlWheel" where
  "siftUp index w =
     (if index > 0 then
        let parent = (index - 1) div 2 in
        if \<not> earlier index parent w then w
        else siftUp parent (swapHeap index parent w)
      else w)"

function siftDown :: "nat \<Rightarrow> 'n TtlWheel \<Rightarrow> 'n TtlWheel" where
  "siftDown index w =
     (let left = index * 2 + 1; right = left + 1 in
      if left \<ge> length (heap w) then w
      else
        let child = (if right < length (heap w) \<and> earlier right left w then right else left) in
        if \<not> earlier child index w then w
        else siftDown child (swapHeap index child w))"
  by pat_completeness auto
termination
  by (relation "measure (\<lambda>(i, w). length (heap w) - i)") (auto simp: Let_def split: if_splits)

declare siftUp.simps [simp del] siftDown.simps [simp del]

definition removeHeapAt :: "nat \<Rightarrow> 'n TtlWheel \<Rightarrow> 'n TtlWheel" where
  "removeHeapAt index w =
     (let last_ix = length (heap w) - 1;
          removed = snd (heap w ! index);
          w1 = (if index \<noteq> last_ix
                then w\<lparr>heap := (heap w)[index := heap w ! last_ix],
                       heap_index := (heap_index w)(snd (heap w ! last_ix) := Some index)\<rparr>
                else w);
          w2 = w1\<lparr>heap := butlast (heap w1), heap_index := (heap_index w1)(removed := None)\<rparr>
      in if index < length (heap w2) then
           if index > 0 \<and> earlier index ((index - 1) div 2) w2 then siftUp index w2
           else siftDown index w2
         else w2)"

definition wheelRemove :: "'n \<Rightarrow> 'n TtlWheel \<Rightarrow> 'n TtlWheel" where
  "wheelRemove n w =
     (let w1 = unlink n w in
      case heap_index w1 n of None \<Rightarrow> w1 | Some i \<Rightarrow> removeHeapAt i w1)"

definition wheelInsert :: "'n \<Rightarrow> nat \<Rightarrow> 'n TtlWheel \<Rightarrow> 'n TtlWheel" where
  "wheelInsert n ttl_ticks w =
     (let w = wheelRemove n w in
      if ttl_ticks \<le> K_SLOT_COUNT then
        let slot = (cursor w + ttl_ticks) mod K_SLOT_COUNT in
        linkBefore n slot (w\<lparr>wheel_slot := (wheel_slot w)(n := slot + 1)\<rparr>)
      else
        let index = length (heap w) in
        siftUp index (w\<lparr>heap := heap w @ [(tick_count w + ttl_ticks, n)],
                        heap_index := (heap_index w)(n := Some index)\<rparr>))"

text \<open>
  The expiry callback works on the client's state and on the wheel. Draining a slot empties it
  before the first callback runs, so a callback may schedule its node again. The heap loop ends
  only if the callback does not keep scheduling due entries, so it is a partial function: its
  result is \<^term>\<open>None\<close> exactly if it does not return.
\<close>

type_synonym ('n, 's) expiry_cb = "'n \<Rightarrow> 's \<Rightarrow> 'n TtlWheel \<Rightarrow> 's \<times> 'n TtlWheel"

fun fire_all :: "('n, 's) expiry_cb \<Rightarrow> 'n list \<Rightarrow> 's \<Rightarrow> 'n TtlWheel \<Rightarrow> 's \<times> 'n TtlWheel" where
  "fire_all cb [] s w = (s, w)"
| "fire_all cb (n # ns) s w = (case cb n s w of (s', w') \<Rightarrow> fire_all cb ns s' w')"

definition expireSlot :: "('n, 's) expiry_cb \<Rightarrow> 's \<Rightarrow> 'n TtlWheel \<Rightarrow> 's \<times> 'n TtlWheel" where
  "expireSlot cb s w =
     (let batch = slots w ! cursor w in fire_all cb batch s (fold unlink batch w))"

partial_function (option) expireHeap ::
  "('n, 's) expiry_cb \<Rightarrow> 's \<Rightarrow> 'n TtlWheel \<Rightarrow> ('s \<times> 'n TtlWheel) option" where
  "expireHeap cb s w =
     (if heap w \<noteq> [] \<and> fst (heap w ! 0) \<le> tick_count w then
        (case cb (snd (heap w ! 0)) s (removeHeapAt 0 w) of (s', w') \<Rightarrow> expireHeap cb s' w')
      else Some (s, w))"

definition tick :: "('n, 's) expiry_cb \<Rightarrow> 's \<Rightarrow> 'n TtlWheel \<Rightarrow> ('s \<times> 'n TtlWheel) option" where
  "tick cb s w =
     (let w1 = w\<lparr>cursor := (cursor w + 1) mod K_SLOT_COUNT, tick_count := tick_count w + 1\<rparr>
      in case expireSlot cb s w1 of (s', w') \<Rightarrow> expireHeap cb s' w')"

section \<open>The heap\<close>

definition par :: "nat \<Rightarrow> nat" where "par i = (i - 1) div 2"

lemma par_less: "0 < i \<Longrightarrow> par i < i"
  by (auto simp: par_def)

abbreviation hkey :: "(nat \<times> 'n) list \<Rightarrow> nat \<Rightarrow> nat" where "hkey h i \<equiv> fst (h ! i)"

definition heap_ok :: "(nat \<times> 'n) list \<Rightarrow> bool" where
  "heap_ok h \<longleftrightarrow> (\<forall>i. 0 < i \<and> i < length h \<longrightarrow> hkey h (par i) \<le> hkey h i)"

text \<open>The heap order with one possible violation: above position \<open>k\<close>, and below position \<open>k\<close>.\<close>

definition grandparent_ok :: "(nat \<times> 'n) list \<Rightarrow> nat \<Rightarrow> bool" where
  "grandparent_ok h k \<longleftrightarrow>
     (\<forall>i. 0 < i \<and> i < length h \<and> par i = k \<and> 0 < k \<longrightarrow> hkey h (par k) \<le> hkey h i)"

definition heap_up :: "(nat \<times> 'n) list \<Rightarrow> nat \<Rightarrow> bool" where
  "heap_up h k \<longleftrightarrow> grandparent_ok h k \<and>
     (\<forall>i. 0 < i \<and> i < length h \<and> i \<noteq> k \<longrightarrow> hkey h (par i) \<le> hkey h i)"

definition heap_down :: "(nat \<times> 'n) list \<Rightarrow> nat \<Rightarrow> bool" where
  "heap_down h k \<longleftrightarrow> grandparent_ok h k \<and>
     (\<forall>i. 0 < i \<and> i < length h \<and> par i \<noteq> k \<longrightarrow> hkey h (par i) \<le> hkey h i)"

definition hswap :: "'a list \<Rightarrow> nat \<Rightarrow> nat \<Rightarrow> 'a list" where
  "hswap h i j = h[i := h ! j, j := h ! i]"

definition idx_ok :: "(nat \<times> 'n) list \<Rightarrow> ('n \<Rightarrow> nat option) \<Rightarrow> bool" where
  "idx_ok h f \<longleftrightarrow> (\<forall>n i. f n = Some i \<longleftrightarrow> i < length h \<and> snd (h ! i) = n)"

lemma nth_hswap:
  "i < length h \<Longrightarrow> j < length h \<Longrightarrow> hswap h i j ! k = (if k = i then h ! j else if k = j then h ! i else h ! k)"
  by (auto simp: hswap_def nth_list_update)

lemma length_hswap [simp]: "length (hswap h i j) = length h"
  by (simp add: hswap_def)

lemma mset_hswap: "i < length h \<Longrightarrow> j < length h \<Longrightarrow> mset (hswap h i j) = mset h"
  unfolding hswap_def by (rule mset_swap)

lemma heap_swapHeap [simp]: "heap (swapHeap i j w) = hswap (heap w) i j"
  by (simp add: swapHeap_def hswap_def Let_def)

lemma idx_ok_inj: "idx_ok h f \<Longrightarrow> i < length h \<Longrightarrow> j < length h \<Longrightarrow> snd (h ! i) = snd (h ! j) \<Longrightarrow> i = j"
  by (metis idx_ok_def option.inject)

lemma heap_index_swapHeap:
  "i < length (heap w) \<Longrightarrow> j < length (heap w) \<Longrightarrow>
   heap_index (swapHeap i j w) = (heap_index w)(snd (heap w ! j) := Some i, snd (heap w ! i) := Some j)"
  by (simp add: swapHeap_def Let_def nth_list_update)

lemma idx_ok_swap:
  assumes ok: "idx_ok (heap w) (heap_index w)" and ij: "i < length (heap w)" "j < length (heap w)"
  shows "idx_ok (heap (swapHeap i j w)) (heap_index (swapHeap i j w))"
  unfolding idx_ok_def heap_swapHeap length_hswap heap_index_swapHeap [OF ij] nth_hswap [OF ij]
proof (intro allI)
  fix n k
  have f: "heap_index w n = Some k \<longleftrightarrow> k < length (heap w) \<and> snd (heap w ! k) = n"
    using ok by (simp add: idx_ok_def)
  note inj = idx_ok_inj [OF ok]
  show "((heap_index w)(snd (heap w ! j) := Some i, snd (heap w ! i) := Some j)) n = Some k \<longleftrightarrow>
      k < length (heap w) \<and>
      snd (if k = i then heap w ! j else if k = j then heap w ! i else heap w ! k) = n"
  proof (cases "n = snd (heap w ! i) \<or> n = snd (heap w ! j)")
    case True
    then show ?thesis using ij inj [of i j] inj [of k i] inj [of k j] by auto
  next
    case False
    then show ?thesis using f by auto
  qed
qed

lemma heap_up_swap:
  assumes "heap_up h k" "0 < k" "k < length h" "hkey h k < hkey h (par k)"
  shows "heap_up (hswap h k (par k)) (par k)"
proof -
  let ?p = "par k"
  have pk: "?p < k" "?p < length h" "?p \<noteq> k" using assms(2,3) par_less [of k] by auto
  have ord: "\<And>i. 0 < i \<Longrightarrow> i < length h \<Longrightarrow> i \<noteq> k \<Longrightarrow> hkey h (par i) \<le> hkey h i"
    and gp: "\<And>i. 0 < i \<Longrightarrow> i < length h \<Longrightarrow> par i = k \<Longrightarrow> hkey h ?p \<le> hkey h i"
    using assms(1,2) by (auto simp: heap_up_def grandparent_ok_def)
  have nth: "hswap h k ?p ! i = (if i = k then h ! ?p else if i = ?p then h ! k else h ! i)" for i
    using pk assms(3) by (simp add: nth_hswap)
  have "hkey (hswap h k ?p) (par i) \<le> hkey (hswap h k ?p) i"
    if "0 < i" "i < length h" "i \<noteq> ?p" for i
  proof (cases "i = k")
    case True
    with assms(4) pk show ?thesis by (simp add: nth)
  next
    case False
    then have "hkey h (par i) \<le> hkey h i" using ord that by blast
    with False gp [of i] that assms(4) pk show ?thesis by (auto simp: nth)
  qed
  moreover have "hkey (hswap h k ?p) (par ?p) \<le> hkey (hswap h k ?p) i"
    if "0 < i" "i < length h" "par i = ?p" "0 < ?p" for i
  proof -
    have "par ?p < ?p" "hkey h (par ?p) \<le> hkey h ?p" "par ?p \<noteq> k"
      using that(4) ord [of ?p] pk par_less [of ?p] by auto
    moreover have "i \<noteq> ?p" using that par_less [of i] by auto
    ultimately show ?thesis using ord [of i] that pk by (cases "i = k") (auto simp: nth)
  qed
  ultimately show ?thesis by (simp add: heap_up_def grandparent_ok_def)
qed

lemma heap_down_swap:
  assumes "heap_down h k" "par c = k" "0 < c" "c < length h" "hkey h c < hkey h k"
    and small: "\<And>i. 0 < i \<Longrightarrow> i < length h \<Longrightarrow> par i = k \<Longrightarrow> hkey h c \<le> hkey h i"
  shows "heap_down (hswap h k c) c"
proof -
  have kc: "k < c" "k < length h" "k \<noteq> c" using assms(2-4) par_less [of c] by auto
  have ord: "\<And>i. 0 < i \<Longrightarrow> i < length h \<Longrightarrow> par i \<noteq> k \<Longrightarrow> hkey h (par i) \<le> hkey h i"
    and gp: "\<And>i. 0 < i \<Longrightarrow> i < length h \<Longrightarrow> par i = k \<Longrightarrow> 0 < k \<Longrightarrow> hkey h (par k) \<le> hkey h i"
    using assms(1) by (auto simp: heap_down_def grandparent_ok_def)
  have nth: "hswap h k c ! i = (if i = k then h ! c else if i = c then h ! k else h ! i)" for i
    using kc assms(4) by (simp add: nth_hswap)
  have "hkey (hswap h k c) (par i) \<le> hkey (hswap h k c) i"
    if "0 < i" "i < length h" "par i \<noteq> c" for i
  proof (cases "par i = k")
    case True
    have "i \<noteq> k" using True that(1) par_less [of i] by auto
    with True small [OF that(1,2) True] assms(5) kc show ?thesis by (auto simp: nth)
  next
    case False
    then have "i \<noteq> c" "hkey h (par i) \<le> hkey h i" using ord that assms(2) by auto
    with False gp [OF assms(3,4,2)] that kc show ?thesis by (auto simp: nth)
  qed
  moreover have "hkey (hswap h k c) (par c) \<le> hkey (hswap h k c) i"
    if "0 < i" "i < length h" "par i = c" for i
  proof -
    have "i \<noteq> k" "i \<noteq> c" "par i \<noteq> k" using that kc par_less [of i] by auto
    then show ?thesis using ord [of i] that assms(2) by (simp add: nth)
  qed
  ultimately show ?thesis by (simp add: heap_down_def grandparent_ok_def)
qed

lemma heap_ok_root:
  assumes "heap_ok h"
  shows "i < length h \<Longrightarrow> hkey h 0 \<le> hkey h i"
proof (induction i rule: less_induct)
  case (less i)
  show ?case
  proof (cases "i = 0")
    case False
    then have "par i < i" "par i < length h" using less.prems par_less [of i] by auto
    then have "hkey h 0 \<le> hkey h (par i)" using less.IH by blast
    also have "\<dots> \<le> hkey h i" using assms less.prems False by (simp add: heap_ok_def)
    finally show ?thesis .
  qed simp
qed

definition reheap :: "'n TtlWheel \<Rightarrow> 'n TtlWheel \<Rightarrow> bool" where
  "reheap w w' \<longleftrightarrow> mset (heap w') = mset (heap w) \<and> idx_ok (heap w') (heap_index w')
     \<and> slots w' = slots w \<and> cursor w' = cursor w \<and> tick_count w' = tick_count w
     \<and> wheel_slot w' = wheel_slot w"

lemma reheap_refl: "idx_ok (heap w) (heap_index w) \<Longrightarrow> reheap w w"
  by (simp add: reheap_def)

lemma reheap_swap:
  "idx_ok (heap w) (heap_index w) \<Longrightarrow> i < length (heap w) \<Longrightarrow> j < length (heap w) \<Longrightarrow>
   reheap w (swapHeap i j w)"
  by (simp add: reheap_def mset_hswap idx_ok_swap del: heap_swapHeap)
    (simp add: mset_hswap swapHeap_def hswap_def [symmetric] Let_def)

lemma reheap_trans: "reheap w w' \<Longrightarrow> reheap w' w'' \<Longrightarrow> reheap w w''"
  by (simp add: reheap_def)

lemma siftUp_unfold:
  "siftUp i w = (if 0 < i \<and> earlier i (par i) w then siftUp (par i) (swapHeap i (par i) w) else w)"
  using siftUp.simps [of i w] unfolding Let_def par_def by presburger

lemma siftUp_correct:
  "idx_ok (heap w) (heap_index w) \<Longrightarrow> i < length (heap w) \<Longrightarrow> heap_up (heap w) i \<Longrightarrow>
   heap_ok (heap (siftUp i w)) \<and> reheap w (siftUp i w)"
proof (induction i arbitrary: w rule: less_induct)
  case (less i)
  show ?case
  proof (cases "0 < i \<and> earlier i (par i) w")
    case True
    have p: "par i < i" "par i < length (heap w)" using True less.prems(2) par_less [of i] by simp_all
    have "heap_up (hswap (heap w) i (par i)) (par i)"
      using True less.prems by (intro heap_up_swap) (simp_all add: earlier_def)
    then have "heap_ok (heap (siftUp i w)) \<and> reheap (swapHeap i (par i) w) (siftUp i w)"
      using True less.IH [OF p(1) idx_ok_swap [OF less.prems(1,2) p(2)]] p
      by (simp add: siftUp_unfold [of i])
    then show ?thesis using reheap_trans [OF reheap_swap [OF less.prems(1,2) p(2)]] by blast
  next
    case False
    then have "siftUp i w = w" by (subst siftUp_unfold) (rule if_not_P)
    moreover have "hkey (heap w) (par j) \<le> hkey (heap w) j" if "0 < j" "j < length (heap w)" for j
      using less.prems(3) False that unfolding heap_up_def earlier_def by (cases "j = i") (simp_all add: not_less)
    then have "heap_ok (heap w)" by (simp add: heap_ok_def)
    ultimately show ?thesis using less.prems(1) by (simp add: reheap_refl)
  qed
qed

lemma par_child: "0 < i \<and> par i = k \<longleftrightarrow> i = k * 2 + 1 \<or> i = k * 2 + 2"
  by (auto simp: par_def)

lemma siftDown_correct:
  "idx_ok (heap w) (heap_index w) \<Longrightarrow> i < length (heap w) \<Longrightarrow> heap_down (heap w) i \<Longrightarrow>
   heap_ok (heap (siftDown i w)) \<and> reheap w (siftDown i w)"
proof (induction i w rule: siftDown.induct)
  case (1 i w)
  define c where "c = (if i * 2 + 1 + 1 < length (heap w) \<and> earlier (i * 2 + 1 + 1) (i * 2 + 1) w
    then i * 2 + 1 + 1 else i * 2 + 1)"
  have unf: "siftDown i w = (if i * 2 + 1 \<ge> length (heap w) then w
    else if \<not> earlier c i w then w else siftDown c (swapHeap i c w))"
    by (subst siftDown.simps) (simp only: Let_def c_def)
  have child: "hkey (heap w) c \<le> hkey (heap w) j" if "0 < j" "j < length (heap w)" "par j = i" for j
    using par_child [of j i] that by (auto simp: c_def earlier_def)
  have cp: "par c = i" "0 < c" using par_child [of c i] by (auto simp: c_def)
  show ?case
  proof (cases "i * 2 + 1 < length (heap w) \<and> earlier c i w")
    case True
    have cl: "c < length (heap w)" using True by (auto simp: c_def)
    have "siftDown i w = siftDown c (swapHeap i c w)"
      using True unf by simp
    moreover have "heap_down (hswap (heap w) i c) c"
      using 1(4) cp cl True child by (intro heap_down_swap) (auto simp: earlier_def)
    moreover have "\<And>w'. w' = swapHeap i c w \<Longrightarrow> idx_ok (heap w') (heap_index w') \<Longrightarrow> c < length (heap w')
      \<Longrightarrow> heap_down (heap w') c \<Longrightarrow> heap_ok (heap (siftDown c w')) \<and> reheap w' (siftDown c w')"
      using 1(1) [OF refl refl _ c_def] True by (simp add: not_le)
    ultimately show ?thesis
      using reheap_swap [OF 1(2,3) cl] idx_ok_swap [OF 1(2,3) cl] cl by (auto intro: reheap_trans)
  next
    case False
    then have "siftDown i w = w" using unf by auto
    moreover have "hkey (heap w) i \<le> hkey (heap w) j" if "0 < j" "j < length (heap w)" "par j = i" for j
    proof -
      have "i * 2 + 1 < length (heap w)" using that par_child [of j i] by auto
      then have "hkey (heap w) i \<le> hkey (heap w) c" using False by (simp add: earlier_def)
      with child [OF that] show ?thesis by simp
    qed
    then have "heap_ok (heap w)"
      using 1(4) by (auto simp: heap_down_def heap_ok_def)
    ultimately show ?thesis using 1(2) by (simp add: reheap_refl)
  qed
qed

text \<open>
  The heap after the overwrite-by-last step of \<open>removeHeapAt\<close>: one entry less, and the heap order
  violated at most at the hole, above or below it.
\<close>

definition punch :: "'a list \<Rightarrow> nat \<Rightarrow> 'a list" where
  "punch h i = butlast (h[i := h ! (length h - 1)])"

lemma length_punch [simp]: "length (punch h i) = length h - 1"
  by (simp add: punch_def)

lemma nth_punch: "j < length h - 1 \<Longrightarrow> punch h i ! j = (if j = i then h ! (length h - 1) else h ! j)"
  by (auto simp: punch_def nth_butlast nth_list_update)

lemma mset_punch:
  assumes "i < length h"
  shows "mset (punch h i) = mset h - {#h ! i#}"
proof -
  let ?l = "length h - 1"
  have ne: "h \<noteq> []" using assms by auto
  have "last (h[i := h ! ?l]) = h ! ?l"
    using ne assms by (subst last_conv_nth) (auto simp: nth_list_update)
  then have "add_mset (h ! ?l) (mset (punch h i)) = mset (h[i := h ! ?l])"
    using ne append_butlast_last_id [of "h[i := h ! ?l]"] unfolding punch_def
    by (metis list_update_nonempty mset_append mset_single_iff_right union_mset_add_mset_right
        add.right_neutral mset.simps add_mset_add_single)
  also have "\<dots> = add_mset (h ! ?l) (mset h - {#h ! i#})"
    using assms by (simp add: mset_update)
  finally show ?thesis by simp
qed

lemma punch_order:
  assumes "heap_ok h" "i < length h - 1"
  shows "if 0 < i \<and> hkey (punch h i) i < hkey (punch h i) (par i) then heap_up (punch h i) i
    else heap_down (punch h i) i"
proof -
  let ?g = "punch h i"
  have ord: "\<And>j. 0 < j \<Longrightarrow> j < length h \<Longrightarrow> hkey h (par j) \<le> hkey h j"
    using assms(1) by (simp add: heap_ok_def)
  have p: "par j < j" "par j < length h - 1" if "0 < j" "j < length h - 1" for j
    using par_less [OF that(1)] that by auto
  have gp: "grandparent_ok ?g i"
    unfolding grandparent_ok_def
  proof (intro allI impI)
    fix j assume j: "0 < j \<and> j < length ?g \<and> par j = i \<and> 0 < i"
    then have "hkey h (par i) \<le> hkey h i" "hkey h i \<le> hkey h j" "j \<noteq> i" "par i \<noteq> i"
      using ord [of i] ord [of j] par_less [of i] par_less [of j] assms(2) by auto
    then show "hkey ?g (par i) \<le> hkey ?g j" using j p [of i] assms(2) by (simp add: nth_punch)
  qed
  have other: "hkey ?g (par j) \<le> hkey ?g j" if "0 < j" "j < length h - 1" "j \<noteq> i" "par j \<noteq> i" for j
    using ord [of j] that p [of j] by (simp add: nth_punch)
  show ?thesis
  proof (cases "0 < i \<and> hkey ?g i < hkey ?g (par i)")
    case True
    have "hkey ?g (par j) \<le> hkey ?g j" if "0 < j" "j < length h - 1" "par j = i" for j
    proof -
      have "hkey ?g (par i) \<le> hkey ?g j" using gp that True by (simp add: grandparent_ok_def)
      with True that(3) show ?thesis by simp
    qed
    with True gp other show ?thesis by (auto simp: heap_up_def)
  next
    case False
    then have "0 < i \<Longrightarrow> hkey ?g (par i) \<le> hkey ?g i" by simp
    with False gp other show ?thesis by (auto simp: heap_down_def)
  qed
qed

lemma idx_ok_punch:
  assumes ok: "idx_ok h f" and i: "i < length h"
  shows "idx_ok (punch h i) (if i \<noteq> length h - 1
    then f(snd (h ! (length h - 1)) := Some i, snd (h ! i) := None) else f(snd (h ! i) := None))"
proof -
  let ?l = "length h - 1"
  have inj: "\<And>a b. a < length h \<Longrightarrow> b < length h \<Longrightarrow> snd (h ! a) = snd (h ! b) \<longleftrightarrow> a = b"
    using idx_ok_inj [OF ok] by blast
  have f: "\<And>n k. f n = Some k \<longleftrightarrow> k < length h \<and> snd (h ! k) = n" using ok by (simp add: idx_ok_def)
  have l: "?l < length h" using i by auto
  have k: "k < length h \<longleftrightarrow> k < ?l \<or> k = ?l" for k using i by auto
  show ?thesis
    unfolding idx_ok_def length_punch
  proof (intro allI)
    fix n k
    show "(if i \<noteq> ?l then f(snd (h ! ?l) := Some i, snd (h ! i) := None) else f(snd (h ! i) := None)) n = Some k
      \<longleftrightarrow> k < ?l \<and> snd (punch h i ! k) = n"
    proof (cases "k < ?l")
      case True
      then show ?thesis
        using inj [of k i] inj [of i ?l] inj [of k ?l] f [of n k] i l k [of k] by (auto simp: nth_punch)
    next
      case False
      then show ?thesis using f [of n k] inj [of k ?l] i l k [of k] by auto
    qed
  qed
qed

definition sameLinks :: "'n TtlWheel \<Rightarrow> 'n TtlWheel \<Rightarrow> bool" where
  "sameLinks w w' \<longleftrightarrow> slots w' = slots w \<and> cursor w' = cursor w \<and> tick_count w' = tick_count w
     \<and> wheel_slot w' = wheel_slot w"

lemma removeHeapAt_correct:
  assumes "idx_ok (heap w) (heap_index w)" "heap_ok (heap w)" "i < length (heap w)"
  defines "w' \<equiv> removeHeapAt i w"
  shows "heap_ok (heap w')" "idx_ok (heap w') (heap_index w')"
    "mset (heap w') = mset (heap w) - {#heap w ! i#}" "sameLinks w w'"
proof -
  let ?h = "heap w" and ?l = "length (heap w) - 1"
  define w2 where "w2 = w\<lparr>heap := punch ?h i, heap_index := (if i \<noteq> ?l
    then (heap_index w)(snd (?h ! ?l) := Some i, snd (?h ! i) := None)
    else (heap_index w)(snd (?h ! i) := None))\<rparr>"
  have "w' = (if i < length (heap w2) then
           if i > 0 \<and> earlier i (par i) w2 then siftUp i w2 else siftDown i w2
         else w2)"
    unfolding w'_def removeHeapAt_def Let_def par_def w2_def
    by (auto simp: punch_def)
  moreover have ok: "idx_ok (heap w2) (heap_index w2)"
    unfolding w2_def using idx_ok_punch [OF assms(1,3)] by simp
  moreover have "mset (heap w2) = mset ?h - {#?h ! i#}" "sameLinks w w2"
    using mset_punch [OF assms(3)] by (simp_all add: w2_def sameLinks_def)
  moreover have "heap_ok (heap w2)" if "\<not> i < length (heap w2)"
  proof -
    have "i = ?l" using that assms(3) by (simp add: w2_def)
    then have "heap w2 = butlast ?h" by (simp add: w2_def punch_def)
    then show ?thesis using assms(2) by (auto simp: heap_ok_def nth_butlast par_def)
  qed
  moreover have "if 0 < i \<and> earlier i (par i) w2 then heap_up (heap w2) i else heap_down (heap w2) i"
    if "i < length (heap w2)"
    using punch_order [OF assms(2), of i] that by (simp add: w2_def earlier_def)
  ultimately have "heap_ok (heap w') \<and> reheap w2 w'"
    using siftUp_correct [OF ok, of i] siftDown_correct [OF ok, of i] reheap_refl [OF ok]
    by presburger
  with ok show "heap_ok (heap w')" "idx_ok (heap w') (heap_index w')"
    "mset (heap w') = mset (heap w) - {#heap w ! i#}" "sameLinks w w'"
    using \<open>mset (heap w2) = _\<close> \<open>sameLinks w w2\<close> by (auto simp: reheap_def sameLinks_def)
qed

section \<open>Invariant and abstract view\<close>

definition wheel_inv :: "'n TtlWheel \<Rightarrow> bool" where
  "wheel_inv w \<longleftrightarrow> length (slots w) = K_SLOT_COUNT \<and> cursor w < K_SLOT_COUNT
     \<and> (\<forall>i < K_SLOT_COUNT. distinct (slots w ! i) \<and> (\<forall>n. n \<in> set (slots w ! i) \<longleftrightarrow> wheel_slot w n = i + 1))
     \<and> (\<forall>n. wheel_slot w n \<le> K_SLOT_COUNT)
     \<and> idx_ok (heap w) (heap_index w) \<and> heap_ok (heap w)
     \<and> (\<forall>n. wheel_slot w n \<noteq> 0 \<longrightarrow> heap_index w n = None)"

text \<open>Between ticks the heap holds no entry that is due.\<close>

definition none_due :: "'n TtlWheel \<Rightarrow> bool" where
  "none_due w \<longleftrightarrow> (\<forall>(a, n) \<in> set (heap w). tick_count w < a)"

text \<open>The absolute tick at which the wheel fires a node, if it is scheduled.\<close>

definition slot_due :: "'n TtlWheel \<Rightarrow> nat \<Rightarrow> nat" where
  "slot_due w i = tick_count w + (i + K_SLOT_COUNT - cursor w - 1) mod K_SLOT_COUNT + 1"

definition deadline :: "'n TtlWheel \<Rightarrow> 'n \<Rightarrow> nat option" where
  "deadline w n =
     (if wheel_slot w n \<noteq> 0 then Some (slot_due w (wheel_slot w n - 1))
      else map_option (hkey (heap w)) (heap_index w n))"

lemma map_eqI: "(\<And>k v. m k = Some v \<longleftrightarrow> m' k = Some v) \<Longrightarrow> m = m'"
  by (metis ext not_None_eq)

lemma in_heap_iff:
  assumes "idx_ok (heap w) (heap_index w)"
  shows "map_option (hkey (heap w)) (heap_index w n) = Some a \<longleftrightarrow> (a, n) \<in> set (heap w)"
  using assms unfolding idx_ok_def in_set_conv_nth by (auto simp: prod_eq_iff)

lemma deadline_iff:
  assumes "wheel_inv w"
  shows "deadline w n = Some a \<longleftrightarrow>
    (wheel_slot w n \<noteq> 0 \<and> a = slot_due w (wheel_slot w n - 1)) \<or> (a, n) \<in> set (heap w)"
proof -
  have ok: "idx_ok (heap w) (heap_index w)" and x: "wheel_slot w n \<noteq> 0 \<Longrightarrow> heap_index w n = None"
    using assms by (auto simp: wheel_inv_def)
  show ?thesis
    using in_heap_iff [OF ok, of n a] x by (auto simp: deadline_def)
qed

lemma emptyWheel_inv [simp]: "wheel_inv emptyWheel" "none_due emptyWheel" "deadline emptyWheel = (\<lambda>_. None)"
  by (auto simp: wheel_inv_def emptyWheel_def none_due_def idx_ok_def heap_ok_def deadline_def
      K_SLOT_COUNT_def fun_eq_iff)

lemma unlink_inv:
  assumes "wheel_inv w"
  shows "wheel_inv (unlink n w)" "wheel_slot (unlink n w) = (wheel_slot w)(n := 0)"
    "heap (unlink n w) = heap w" "heap_index (unlink n w) = heap_index w"
    "cursor (unlink n w) = cursor w" "tick_count (unlink n w) = tick_count w"
proof -
  show f: "wheel_slot (unlink n w) = (wheel_slot w)(n := 0)"
    "heap (unlink n w) = heap w" "heap_index (unlink n w) = heap_index w"
    "cursor (unlink n w) = cursor w" "tick_count (unlink n w) = tick_count w"
    by (auto simp: unlink_def Let_def fun_eq_iff)
  have l: "length (slots (unlink n w)) = length (slots w)" by (simp add: unlink_def Let_def)
  have "distinct (slots (unlink n w) ! i) \<and>
      (\<forall>m. m \<in> set (slots (unlink n w) ! i) \<longleftrightarrow> wheel_slot (unlink n w) m = i + 1)"
    if "i < K_SLOT_COUNT" for i
  proof -
    have "distinct (slots w ! i)" "\<And>m. m \<in> set (slots w ! i) \<longleftrightarrow> wheel_slot w m = i + 1"
      using assms that by (auto simp: wheel_inv_def)
    moreover have "slots (unlink n w) ! i = remove1 n (slots w ! i)"
    proof (cases "wheel_slot w n")
      case 0
      with calculation(2) [of n] show ?thesis by (simp add: unlink_def remove1_idem)
    next
      case (Suc j)
      with assms have "j < length (slots w)" by (auto simp: wheel_inv_def) (metis Suc_le_eq)
      with Suc calculation(2) [of n] show ?thesis
        by (auto simp: unlink_def Let_def nth_list_update remove1_idem)
    qed
    ultimately show ?thesis by (simp add: f(1))
  qed
  then show "wheel_inv (unlink n w)"
    using assms unfolding wheel_inv_def f l by auto
qed

lemma wheel_inv_heap:
  assumes "wheel_inv w"
  shows "idx_ok (heap w) (heap_index w)" "heap_ok (heap w)"
  using assms by (auto simp: wheel_inv_def)

lemma heap_index_None_iff:
  assumes "idx_ok (heap w) (heap_index w)"
  shows "heap_index w n = None \<longleftrightarrow> n \<notin> snd ` set (heap w)"
proof -
  have "heap_index w n = None \<longleftrightarrow> (\<forall>i. heap_index w n \<noteq> Some i)" by (cases "heap_index w n") auto
  also have "\<dots> \<longleftrightarrow> (\<forall>i < length (heap w). snd (heap w ! i) \<noteq> n)" using assms by (auto simp: idx_ok_def)
  also have "\<dots> \<longleftrightarrow> n \<notin> snd ` set (heap w)" by (auto simp: set_conv_nth)
  finally show ?thesis .
qed

lemma distinct_heap_names:
  assumes "idx_ok (heap w) (heap_index w)"
  shows "distinct (map snd (heap w))"
  using idx_ok_inj [OF assms] by (auto simp: distinct_conv_nth)

lemma removeHeapAt_set:
  assumes "wheel_inv w" "heap_index w n = Some i"
  shows "set (heap (removeHeapAt i w)) = {e \<in> set (heap w). snd e \<noteq> n}"
proof -
  note ok = wheel_inv_heap [OF assms(1)]
  have i: "i < length (heap w)" "snd (heap w ! i) = n" using ok(1) assms(2) by (auto simp: idx_ok_def)
  have m: "mset (heap (removeHeapAt i w)) = mset (heap w) - {#heap w ! i#}"
    using removeHeapAt_correct(3) [OF ok i(1)] .
  have "set (heap (removeHeapAt i w)) = set (remove1 (heap w ! i) (heap w))"
    by (rule mset_eq_setD) (simp add: m)
  also have "\<dots> = set (heap w) - {heap w ! i}"
    using distinct_heap_names [OF ok(1)] by (simp add: distinct_map)
  also have "\<dots> = {e \<in> set (heap w). snd e \<noteq> n}"
  proof -
    have "e = heap w ! i" if e: "e \<in> set (heap w)" "snd e = n" for e
    proof -
      obtain j where j: "j < length (heap w)" "e = heap w ! j" using e(1) unfolding in_set_conv_nth by blast
      then have "snd (heap w ! j) = snd (heap w ! i)" using i(2) e(2) by simp
      then show ?thesis using idx_ok_inj [OF ok(1) j(1) i(1)] j(2) by simp
    qed
    with i show ?thesis by auto
  qed
  finally show ?thesis .
qed

lemma removeHeapAt_inv:
  assumes "wheel_inv w" "heap_index w n = Some i"
  shows "wheel_inv (removeHeapAt i w)" "sameLinks w (removeHeapAt i w)"
    "deadline (removeHeapAt i w) = (deadline w)(n := None)"
proof -
  let ?w = "removeHeapAt i w"
  note ok = wheel_inv_heap [OF assms(1)]
  have i: "i < length (heap w)" using ok(1) assms(2) by (auto simp: idx_ok_def)
  note rm = removeHeapAt_correct [OF ok i] and st = removeHeapAt_set [OF assms]
  have "heap_index ?w m = None" if "wheel_slot w m \<noteq> 0" for m
    using that assms(1) st heap_index_None_iff [OF rm(2), of m] heap_index_None_iff [OF ok(1), of m]
    by (auto simp: wheel_inv_def)
  then show inv: "wheel_inv ?w"
    using assms(1) rm unfolding wheel_inv_def sameLinks_def by simp
  show "sameLinks w ?w" by (rule rm(4))
  have n: "wheel_slot w n = 0" using assms by (auto simp: wheel_inv_def)
  have "deadline ?w m = Some a \<longleftrightarrow> ((deadline w)(n := None)) m = Some a" for m a
    using deadline_iff [OF inv, of m a] deadline_iff [OF assms(1), of m a] st rm(4) n
    by (auto simp: sameLinks_def slot_due_def)
  then show "deadline ?w = (deadline w)(n := None)"
    by (rule map_eqI)
qed

lemma wheelRemove_inv:
  assumes "wheel_inv w"
  shows "wheel_inv (wheelRemove n w)" "deadline (wheelRemove n w) = (deadline w)(n := None)"
    "cursor (wheelRemove n w) = cursor w" "tick_count (wheelRemove n w) = tick_count w"
    "set (heap (wheelRemove n w)) = {e \<in> set (heap w). snd e \<noteq> n}"
proof -
  note u = unlink_inv [OF assms, of n]
  have d: "deadline (unlink n w) = (if heap_index w n = None then (deadline w)(n := None) else deadline w)"
    using assms by (auto simp: deadline_def u slot_due_def fun_eq_iff wheel_inv_def)
  show "wheel_inv (wheelRemove n w)" "deadline (wheelRemove n w) = (deadline w)(n := None)"
    "cursor (wheelRemove n w) = cursor w" "tick_count (wheelRemove n w) = tick_count w"
    "set (heap (wheelRemove n w)) = {e \<in> set (heap w). snd e \<noteq> n}"
    using u(1) d removeHeapAt_inv [OF u(1), of n] removeHeapAt_set [OF u(1), of n]
      heap_index_None_iff [OF wheel_inv_heap(1) [OF assms], of n]
    by (auto simp: wheelRemove_def Let_def u sameLinks_def split: option.splits)
qed

lemma deadline_NoneD:
  "deadline w n = None \<Longrightarrow> wheel_slot w n = 0 \<and> heap_index w n = None"
  by (auto simp: deadline_def split: if_splits)

lemma slot_dist:
  assumes "i < K_SLOT_COUNT" "c < K_SLOT_COUNT"
  shows "(i + K_SLOT_COUNT - c - 1) mod K_SLOT_COUNT = (if c < i then i - c - 1 else i + K_SLOT_COUNT - c - 1)"
proof (cases "c < i")
  case True
  then have "i + K_SLOT_COUNT - c - 1 = K_SLOT_COUNT + (i - c - 1)" by simp
  then have "(i + K_SLOT_COUNT - c - 1) mod K_SLOT_COUNT = (i - c - 1) mod K_SLOT_COUNT"
    by (simp only: mod_add_self1)
  with True assms show ?thesis by simp
qed (use assms in simp)

lemma slot_due_insert:
  assumes "cursor w < K_SLOT_COUNT" "1 \<le> t" "t \<le> K_SLOT_COUNT"
  shows "slot_due w ((cursor w + t) mod K_SLOT_COUNT) = tick_count w + t"
proof -
  have "(cursor w + t) mod K_SLOT_COUNT = (if cursor w + t < K_SLOT_COUNT then cursor w + t
      else cursor w + t - K_SLOT_COUNT)"
    using assms by (simp add: mod_if [of "cursor w + t"])
  then show ?thesis
    using assms slot_dist [of "(cursor w + t) mod K_SLOT_COUNT" "cursor w"]
    by (auto simp: slot_due_def K_SLOT_COUNT_def split: if_splits)
qed

lemma heap_up_append:
  assumes "heap_ok h"
  shows "heap_up (h @ [e]) (length h)"
proof -
  have "par i < length h" if "0 < i" "i < length h" for i using par_less [of i] that by simp
  moreover have "par i \<noteq> length h" if "0 < i" "i < Suc (length h)" for i using par_less [of i] that by simp
  ultimately show ?thesis
    using assms by (auto simp: heap_up_def heap_ok_def grandparent_ok_def nth_append)
qed

lemma idx_ok_append:
  assumes "idx_ok h f" "f n = None"
  shows "idx_ok (h @ [(a, n)]) (f(n := Some (length h)))"
proof -
  have f: "\<And>m i. f m = Some i \<longleftrightarrow> i < length h \<and> snd (h ! i) = m" using assms(1) by (simp add: idx_ok_def)
  then have "\<And>i. i < length h \<Longrightarrow> snd (h ! i) \<noteq> n" using assms(2) by (metis option.distinct(1))
  with f show ?thesis by (auto simp: idx_ok_def nth_append less_Suc_eq)
qed

lemma link_inv:
  assumes "wheel_inv w" "deadline w n = None" "slot < K_SLOT_COUNT"
  defines "w' \<equiv> linkBefore n slot (w\<lparr>wheel_slot := (wheel_slot w)(n := slot + 1)\<rparr>)"
  shows "wheel_inv w'" "deadline w' = (deadline w)(n \<mapsto> slot_due w slot)" "heap w' = heap w"
    "cursor w' = cursor w" "tick_count w' = tick_count w"
proof -
  note n = deadline_NoneD [OF assms(2)]
  show "heap w' = heap w" "cursor w' = cursor w" "tick_count w' = tick_count w"
    by (simp_all add: w'_def linkBefore_def)
  show "deadline w' = (deadline w)(n \<mapsto> slot_due w slot)"
    by (auto simp: w'_def linkBefore_def deadline_def fun_eq_iff slot_due_def)
  have "distinct (slots w' ! i) \<and> (\<forall>m. m \<in> set (slots w' ! i) \<longleftrightarrow> wheel_slot w' m = i + 1)"
    if "i < K_SLOT_COUNT" for i
  proof -
    have "distinct (slots w ! i)" "\<And>m. m \<in> set (slots w ! i) \<longleftrightarrow> wheel_slot w m = i + 1"
      "length (slots w) = K_SLOT_COUNT"
      using assms(1) that by (auto simp: wheel_inv_def)
    then show ?thesis
      using n assms(3) that by (auto simp: w'_def linkBefore_def nth_list_update)
  qed
  moreover have "length (slots w') = length (slots w)" "heap_index w' = heap_index w"
    by (simp_all add: w'_def linkBefore_def)
  moreover have "wheel_slot w' m \<le> K_SLOT_COUNT \<and> (wheel_slot w' m \<noteq> 0 \<longrightarrow> heap_index w m = None)" for m
    using assms(1,3) n by (auto simp: w'_def linkBefore_def wheel_inv_def)
  ultimately show "wheel_inv w'"
    using assms(1) \<open>heap w' = heap w\<close> \<open>cursor w' = cursor w\<close> by (simp add: wheel_inv_def)
qed

lemma push_inv:
  fixes a :: nat
  assumes "wheel_inv w" "deadline w n = None"
  defines "w' \<equiv> siftUp (length (heap w)) (w\<lparr>heap := heap w @ [(a, n)],
    heap_index := (heap_index w)(n := Some (length (heap w)))\<rparr>)"
  shows "wheel_inv w'" "deadline w' = (deadline w)(n \<mapsto> a)" "set (heap w') = insert (a, n) (set (heap w))"
    "cursor w' = cursor w" "tick_count w' = tick_count w"
proof -
  let ?v = "w\<lparr>heap := heap w @ [(a, n)], heap_index := (heap_index w)(n := Some (length (heap w)))\<rparr>"
  note n = deadline_NoneD [OF assms(2)] and ok = wheel_inv_heap [OF assms(1)]
  have "idx_ok (heap ?v) (heap_index ?v)" using idx_ok_append [OF ok(1)] n by simp
  then have "heap_ok (heap w')" and r: "reheap ?v w'"
    using siftUp_correct [of ?v "length (heap w)"] heap_up_append [OF ok(2)] by (auto simp: w'_def)
  show st: "set (heap w') = insert (a, n) (set (heap w))"
    using mset_eq_setD [of "heap w'" "heap ?v"] r by (simp add: reheap_def)
  show c: "cursor w' = cursor w" "tick_count w' = tick_count w" using r by (simp_all add: reheap_def)
  have "heap_index w' m = None" if "wheel_slot w m \<noteq> 0" for m
    using heap_index_None_iff [of w' m] heap_index_None_iff [OF ok(1), of m] that assms(1) st r n
    by (auto simp: reheap_def wheel_inv_def)
  then show inv: "wheel_inv w'"
    using assms(1) r \<open>heap_ok (heap w')\<close> by (simp add: wheel_inv_def reheap_def)
  have "deadline w' m = Some b \<longleftrightarrow> ((deadline w)(n \<mapsto> a)) m = Some b" for m b
    using deadline_iff [OF inv, of m b] deadline_iff [OF assms(1), of m b] st r n assms(2)
    by (auto simp: reheap_def slot_due_def)
  then show "deadline w' = (deadline w)(n \<mapsto> a)" by (rule map_eqI)
qed

lemma wheelInsert_inv:
  assumes "wheel_inv w" "1 \<le> t"
  shows "wheel_inv (wheelInsert n t w)" "deadline (wheelInsert n t w) = (deadline w)(n \<mapsto> tick_count w + t)"
    "cursor (wheelInsert n t w) = cursor w" "tick_count (wheelInsert n t w) = tick_count w"
proof -
  let ?r = "wheelRemove n w"
  note r = wheelRemove_inv [OF assms(1), of n]
  have d: "deadline ?r n = None" by (simp add: r)
  have c: "cursor ?r < K_SLOT_COUNT" using r(1) by (simp add: wheel_inv_def)
  have "(cursor ?r + t) mod K_SLOT_COUNT < K_SLOT_COUNT" by (simp add: K_SLOT_COUNT_def)
  note l = link_inv [OF r(1) d this] and h = push_inv [OF r(1) d, of "tick_count ?r + t"]
  show "wheel_inv (wheelInsert n t w)" "deadline (wheelInsert n t w) = (deadline w)(n \<mapsto> tick_count w + t)"
    "cursor (wheelInsert n t w) = cursor w" "tick_count (wheelInsert n t w) = tick_count w"
    using l h slot_due_insert [OF c assms(2)] r
    by (auto simp: wheelInsert_def Let_def fun_upd_upd)
qed

section \<open>Ticking\<close>

definition due :: "'n TtlWheel \<Rightarrow> 'n set" where
  "due w = {n. \<exists>a. deadline w n = Some a \<and> a \<le> tick_count w}"

lemma due_heap:
  assumes "wheel_inv w"
  shows "due w = snd ` {e \<in> set (heap w). fst e \<le> tick_count w}"
  using deadline_iff [OF assms] by (force simp: due_def slot_due_def)

lemma finite_due [simp]: "wheel_inv w \<Longrightarrow> finite (due w)"
  by (simp add: due_heap)

lemma none_due_iff: "wheel_inv w \<Longrightarrow> none_due w \<longleftrightarrow> due w = {}"
  by (auto simp: due_heap none_due_def not_le)

lemma root_due_iff:
  assumes "wheel_inv w"
  shows "heap w \<noteq> [] \<and> fst (heap w ! 0) \<le> tick_count w \<longleftrightarrow> due w \<noteq> {}"
proof
  assume "heap w \<noteq> [] \<and> fst (heap w ! 0) \<le> tick_count w"
  then have "snd (heap w ! 0) \<in> due w"
    using nth_mem [of 0 "heap w"] unfolding due_heap [OF assms] by (intro image_eqI [OF refl]) simp
  then show "due w \<noteq> {}" by blast
next
  assume "due w \<noteq> {}"
  then obtain i where "i < length (heap w)" "hkey (heap w) i \<le> tick_count w"
    using due_heap [OF assms] by (auto simp: in_set_conv_nth)
  with heap_ok_root [OF wheel_inv_heap(2) [OF assms], of i]
  show "heap w \<noteq> [] \<and> fst (heap w ! 0) \<le> tick_count w" by auto
qed

lemma pop_root:
  assumes "wheel_inv w" "heap w \<noteq> []"
  defines "n \<equiv> snd (heap w ! 0)"
  shows "wheel_inv (removeHeapAt 0 w)" "sameLinks w (removeHeapAt 0 w)"
    "deadline (removeHeapAt 0 w) = (deadline w)(n := None)" "deadline w n = Some (hkey (heap w) 0)"
proof -
  have "heap_index w n = Some 0"
    using wheel_inv_heap(1) [OF assms(1)] assms(2) by (auto simp: idx_ok_def n_def)
  then show "wheel_inv (removeHeapAt 0 w)" "sameLinks w (removeHeapAt 0 w)"
    "deadline (removeHeapAt 0 w) = (deadline w)(n := None)"
    by (rule removeHeapAt_inv [OF assms(1)])+
  have "(hkey (heap w) 0, n) \<in> set (heap w)"
    using assms(2) nth_mem [of 0 "heap w"] by (simp add: n_def)
  then show "deadline w n = Some (hkey (heap w) 0)" using deadline_iff [OF assms(1)] by blast
qed

lemma fold_unlink:
  "wheel_inv w \<Longrightarrow> wheel_inv (fold unlink ns w)
   \<and> wheel_slot (fold unlink ns w) = (\<lambda>n. if n \<in> set ns then 0 else wheel_slot w n)
   \<and> heap (fold unlink ns w) = heap w \<and> heap_index (fold unlink ns w) = heap_index w
   \<and> cursor (fold unlink ns w) = cursor w \<and> tick_count (fold unlink ns w) = tick_count w"
proof (induction ns arbitrary: w)
  case (Cons n ns)
  show ?case
    using Cons.IH [OF unlink_inv(1) [OF Cons.prems, of n]] by (auto simp: unlink_inv [OF Cons.prems] fun_eq_iff)
qed (simp add: fun_eq_iff)

text \<open>
  Advancing the clock and draining the slot under the cursor: exactly the slot nodes whose
  deadline is the new tick lose their schedule, every other deadline is unchanged.
\<close>

definition advance :: "'n TtlWheel \<Rightarrow> 'n TtlWheel" where
  "advance w = w\<lparr>cursor := (cursor w + 1) mod K_SLOT_COUNT, tick_count := tick_count w + 1\<rparr>"

lemma tick_advance: "tick cb s w = (case expireSlot cb s (advance w) of (s', w') \<Rightarrow> expireHeap cb s' w')"
  by (simp add: tick_def advance_def)

lemma slot_due_advance:
  assumes "cursor w < K_SLOT_COUNT" "i < K_SLOT_COUNT"
  shows "if i = (cursor w + 1) mod K_SLOT_COUNT then slot_due w i = tick_count w + 1
    else slot_due (advance w) i = slot_due w i"
proof -
  have "(cursor w + 1) mod K_SLOT_COUNT = (if cursor w + 1 = K_SLOT_COUNT then 0 else cursor w + 1)"
    using assms by auto
  moreover have "(cursor w + 1) mod K_SLOT_COUNT < K_SLOT_COUNT" by (simp add: K_SLOT_COUNT_def)
  ultimately show ?thesis
    using assms slot_dist [of i "cursor w"] slot_dist [of i "(cursor w + 1) mod K_SLOT_COUNT"]
    by (auto simp: slot_due_def advance_def split: if_splits)
qed

lemma advance_inv: "wheel_inv w \<Longrightarrow> wheel_inv (advance w)"
  by (simp add: wheel_inv_def advance_def K_SLOT_COUNT_def)

lemma drain_correct:
  assumes "wheel_inv w"
  defines "batch \<equiv> slots (advance w) ! cursor (advance w)"
  defines "w' \<equiv> fold unlink batch (advance w)"
  shows "wheel_inv w'" "tick_count w' = tick_count w + 1" "distinct batch"
    "deadline w' = (\<lambda>n. if n \<in> set batch then None else deadline w n)"
    "n \<in> set batch \<longleftrightarrow> wheel_slot w n \<noteq> 0 \<and> deadline w n = Some (tick_count w + 1)"
proof -
  let ?c = "(cursor w + 1) mod K_SLOT_COUNT"
  note f = fold_unlink [OF advance_inv [OF assms(1)], of batch]
  have c: "?c < K_SLOT_COUNT" "cursor w < K_SLOT_COUNT" using assms(1) by (auto simp: wheel_inv_def)
  have b: "batch = slots w ! ?c" by (simp add: batch_def advance_def)
  show "wheel_inv w'" "tick_count w' = tick_count w + 1" using f by (simp_all add: w'_def advance_def)
  show "distinct batch" using assms(1) c by (simp add: b wheel_inv_def)
  have mem: "m \<in> set batch \<longleftrightarrow> wheel_slot w m = ?c + 1" for m using assms(1) c by (simp add: b wheel_inv_def)
  have ws: "wheel_slot w m - 1 < K_SLOT_COUNT" if "wheel_slot w m \<noteq> 0" for m
  proof -
    have "wheel_slot w m \<le> K_SLOT_COUNT" using assms(1) by (simp add: wheel_inv_def)
    with that show ?thesis by linarith
  qed
  have eq: "slot_due w (wheel_slot w m - 1) = tick_count w + 1 \<longleftrightarrow> m \<in> set batch" if "wheel_slot w m \<noteq> 0" for m
    using slot_due_advance [OF c(2) ws [OF that]] that mem [of m]
    by (auto simp: slot_due_def advance_def split: if_splits)
  show "n \<in> set batch \<longleftrightarrow> wheel_slot w n \<noteq> 0 \<and> deadline w n = Some (tick_count w + 1)"
    using eq [of n] mem [of n] by (auto simp: deadline_def)
  show "deadline w' = (\<lambda>n. if n \<in> set batch then None else deadline w n)"
  proof
    fix m
    have "heap_index w m = None" if "m \<in> set batch" using that mem [of m] assms(1) by (auto simp: wheel_inv_def)
    moreover have "slot_due w' (wheel_slot w m - 1) = slot_due w (wheel_slot w m - 1)"
      if "wheel_slot w m \<noteq> 0" "m \<notin> set batch"
      using slot_due_advance [OF c(2) ws [OF that(1)]] that mem [of m] f
      by (auto simp: slot_due_def w'_def split: if_splits)
    ultimately show "deadline w' m = (if m \<in> set batch then None else deadline w m)"
      using f by (auto simp: deadline_def w'_def advance_def)
  qed
qed

text \<open>
  What the wheel asks of an expiry callback: handed a node that is no longer scheduled, it may
  schedule that node again, strictly in the future, and leaves every other schedule and the clock
  alone. Under this contract a tick returns, and any client property that survives the removal of
  due schedules and each callback holds after it.
\<close>

definition clockOf :: "'n TtlWheel \<Rightarrow> nat \<times> nat" where
  "clockOf w = (cursor w, tick_count w)"

locale expiry_callback =
  fixes cb :: "('n, 's) expiry_cb"
  assumes cb_keeps: "wheel_inv w \<Longrightarrow> deadline w n = None \<Longrightarrow> cb n s w = (s', w') \<Longrightarrow>
      wheel_inv w' \<and> clockOf w' = clockOf w \<and> (\<forall>m. m \<noteq> n \<longrightarrow> deadline w' m = deadline w m)"
    and cb_future: "wheel_inv w \<Longrightarrow> deadline w n = None \<Longrightarrow> cb n s w = (s', w') \<Longrightarrow>
      deadline w' n = Some a \<Longrightarrow> tick_count w < a"
begin

lemma cb_due: "wheel_inv w \<Longrightarrow> deadline w n = None \<Longrightarrow> cb n s w = (s', w') \<Longrightarrow> due w' \<subseteq> due w"
  using cb_keeps [of w n s s' w'] cb_future [of w n s s' w'] unfolding due_def clockOf_def
  by (auto, metis not_le)

lemma fire_all_rule:
  assumes step: "\<And>n P s w s' w'. J (insert n P) s w \<Longrightarrow> n \<notin> P \<Longrightarrow> wheel_inv w \<Longrightarrow> deadline w n = None \<Longrightarrow>
      cb n s w = (s', w') \<Longrightarrow> J P s' w'"
  shows "wheel_inv w \<Longrightarrow> distinct ns \<Longrightarrow> \<forall>n \<in> set ns. deadline w n = None \<Longrightarrow> J (set ns) s w \<Longrightarrow>
    \<exists>s' w'. fire_all cb ns s w = (s', w') \<and> J {} s' w' \<and> wheel_inv w' \<and> clockOf w' = clockOf w"
proof (induction ns arbitrary: s w)
  case (Cons n ns)
  obtain s1 w1 where c: "cb n s w = (s1, w1)" by fastforce
  have k: "wheel_inv w1" "clockOf w1 = clockOf w" "\<And>m. m \<noteq> n \<Longrightarrow> deadline w1 m = deadline w m"
    using cb_keeps [OF Cons.prems(1) _ c] Cons.prems(3) by auto
  have "J (set ns) s1 w1" using step [of n "set ns" s w s1 w1] Cons.prems c by simp
  moreover have "\<forall>m \<in> set ns. deadline w1 m = None"
  proof
    fix m assume m: "m \<in> set ns"
    with Cons.prems(2) have "m \<noteq> n" by auto
    with k(3) Cons.prems(3) m show "deadline w1 m = None" by simp
  qed
  ultimately show ?case using Cons.IH [OF k(1), of s1] Cons.prems(2) c k(2) by auto
qed auto

lemma expireHeap_rule:
  assumes step: "\<And>n P s w s' w'. J (insert n P) s w \<Longrightarrow> n \<notin> P \<Longrightarrow> wheel_inv w \<Longrightarrow> deadline w n = None \<Longrightarrow>
      cb n s w = (s', w') \<Longrightarrow> J P s' w'"
    and pop: "\<And>n a s w w'. J {} s w \<Longrightarrow> wheel_inv w \<Longrightarrow> wheel_inv w' \<Longrightarrow> deadline w n = Some a \<Longrightarrow>
      a \<le> tick_count w \<Longrightarrow> deadline w' = (deadline w)(n := None) \<Longrightarrow> clockOf w' = clockOf w \<Longrightarrow> J {n} s w'"
  shows "wheel_inv w \<Longrightarrow> J {} s w \<Longrightarrow>
    \<exists>s' w'. expireHeap cb s w = Some (s', w') \<and> J {} s' w' \<and> wheel_inv w' \<and> none_due w'
      \<and> clockOf w' = clockOf w"
proof (induction "card (due w)" arbitrary: s w rule: less_induct)
  case less
  show ?case
  proof (cases "due w = {}")
    case True
    then have "expireHeap cb s w = Some (s, w)"
      using root_due_iff [OF less.prems(1)] by (subst expireHeap.simps) auto
    with True less.prems show ?thesis by (simp add: none_due_iff)
  next
    case False
    let ?n = "snd (heap w ! 0)" and ?w1 = "removeHeapAt 0 w"
    have h: "heap w \<noteq> []" "fst (heap w ! 0) \<le> tick_count w" using root_due_iff [OF less.prems(1)] False by auto
    note p = pop_root [OF less.prems(1) h(1)]
    have ck: "clockOf ?w1 = clockOf w" using p(2) by (simp add: sameLinks_def clockOf_def)
    obtain s2 w2 where c: "cb ?n s ?w1 = (s2, w2)" by fastforce
    have n: "deadline ?w1 ?n = None" using p(3) by simp
    have "J {?n} s ?w1" using pop [OF less.prems(2,1) p(1,4) h(2) p(3) ck] .
    then have j: "J {} s2 w2" using step [OF _ _ p(1) n c] by simp
    have k: "wheel_inv w2" "clockOf w2 = clockOf ?w1" using cb_keeps [OF p(1) n c] by auto
    have "due ?w1 \<subseteq> due w - {?n}" "?n \<in> due w"
      using p(3,4) ck h(2) by (auto simp: due_def clockOf_def split: if_splits)
    then have "due w2 \<subset> due w" using cb_due [OF p(1) n c] by blast
    then have "card (due w2) < card (due w)" using less.prems(1) by (simp add: psubset_card_mono)
    from less.hyps [OF this k(1) j] show ?thesis
      using h c k(2) ck by (subst expireHeap.simps) simp
  qed
qed

lemma tick_rule:
  assumes inv: "wheel_inv w"
    and start: "\<And>w'. wheel_inv w' \<Longrightarrow> tick_count w' = tick_count w + 1 \<Longrightarrow>
      (\<And>n. n \<in> B \<Longrightarrow> deadline w n = Some (tick_count w + 1)) \<Longrightarrow>
      deadline w' = (\<lambda>n. if n \<in> B then None else deadline w n) \<Longrightarrow> J B s w'"
    and B: "B = {n. wheel_slot w n \<noteq> 0 \<and> deadline w n = Some (tick_count w + 1)}"
    and step: "\<And>n P s w s' w'. J (insert n P) s w \<Longrightarrow> n \<notin> P \<Longrightarrow> wheel_inv w \<Longrightarrow> deadline w n = None \<Longrightarrow>
      cb n s w = (s', w') \<Longrightarrow> J P s' w'"
    and pop: "\<And>n a s w w'. J {} s w \<Longrightarrow> wheel_inv w \<Longrightarrow> wheel_inv w' \<Longrightarrow> deadline w n = Some a \<Longrightarrow>
      a \<le> tick_count w \<Longrightarrow> deadline w' = (deadline w)(n := None) \<Longrightarrow> clockOf w' = clockOf w \<Longrightarrow> J {n} s w'"
  shows "\<exists>s' w'. tick cb s w = Some (s', w') \<and> J {} s' w' \<and> wheel_inv w' \<and> none_due w'
    \<and> tick_count w' = tick_count w + 1"
proof -
  let ?b = "slots (advance w) ! cursor (advance w)" and ?w = "fold unlink (slots (advance w) ! cursor (advance w)) (advance w)"
  note d = drain_correct [OF inv]
  have b: "set ?b = B" using d(5) B by blast
  have j: "J (set ?b) s ?w" using start [OF d(1,2) _ d(4) [unfolded b]] B b by simp
  have none: "\<forall>n \<in> set ?b. deadline ?w n = None" using d(4) by simp
  have "\<exists>s' w'. fire_all cb ?b s ?w = (s', w') \<and> J {} s' w' \<and> wheel_inv w' \<and> clockOf w' = clockOf ?w"
    by (intro fire_all_rule [of J] d(1,3) none j) (fact step)
  then obtain s1 w1 where f: "fire_all cb ?b s ?w = (s1, w1)" "J {} s1 w1" "wheel_inv w1"
    "clockOf w1 = clockOf ?w"
    by blast
  have "\<exists>s' w'. expireHeap cb s1 w1 = Some (s', w') \<and> J {} s' w' \<and> wheel_inv w' \<and> none_due w'
      \<and> clockOf w' = clockOf w1"
    by (intro expireHeap_rule [of J] f(2,3)) (fact step, fact pop)
  then obtain s2 w2 where
    "expireHeap cb s1 w1 = Some (s2, w2)" "J {} s2 w2" "wheel_inv w2" "none_due w2" "clockOf w2 = clockOf w1"
    by blast
  with f d(2) show ?thesis
    by (simp add: tick_advance expireSlot_def Let_def clockOf_def)
qed

end

text \<open>The recording callback: it notes the nodes in the order the wheel fires them.\<close>

definition recordFired :: "('n, 'n list) expiry_cb" where
  "recordFired n fired w = (fired @ [n], w)"

interpretation rec_cb: expiry_callback recordFired
  by unfold_locales (auto simp: recordFired_def)

lemma deadline_future:
  assumes "wheel_inv w" "none_due w" "deadline w n = Some a"
  shows "tick_count w < a"
  using assms none_due_iff [OF assms(1)] by (auto simp: due_def not_le [symmetric])

lemma tick_record:
  fixes w :: "'n TtlWheel"
  assumes "wheel_inv w" "none_due w"
  defines "D \<equiv> {n. deadline w n = Some (tick_count w + 1)}"
  shows "\<exists>fired w'. tick recordFired [] w = Some (fired, w') \<and> distinct fired \<and> set fired = D
    \<and> deadline w' = (\<lambda>n. if n \<in> D then None else deadline w n)
    \<and> tick_count w' = tick_count w + 1 \<and> wheel_inv w' \<and> none_due w'"
proof -
  define J where "J = (\<lambda>P fired (w' :: 'n TtlWheel). distinct fired \<and> set fired \<inter> P = {} \<and> set fired \<union> P \<subseteq> D
    \<and> deadline w' = (\<lambda>n. if n \<in> set fired \<union> P then None else deadline w n) \<and> tick_count w' = tick_count w + 1)"
  have "\<exists>s' w'. tick recordFired [] w = Some (s', w') \<and> J {} s' w' \<and> wheel_inv w' \<and> none_due w'
    \<and> tick_count w' = tick_count w + 1"
  proof (rule rec_cb.tick_rule [OF assms(1) _ refl, of J])
    fix n P s w1 s' w' assume "J (insert n P) s w1" "n \<notin> P" "recordFired n s w1 = (s', w')"
    then show "J P s' w'" by (auto simp: J_def recordFired_def)
  next
    fix n a s w1 w' assume j: "J {} s w1" and a: "deadline w1 n = Some a" "a \<le> tick_count w1"
      and w': "deadline w' = (deadline w1)(n := None)" "clockOf w' = clockOf w1"
    have "n \<notin> set s" "deadline w n = Some a" "a \<le> tick_count w + 1"
      using j a by (auto simp: J_def split: if_splits)
    moreover from this deadline_future [OF assms(1,2)] have "n \<in> D" by (fastforce simp: D_def)
    ultimately show "J {n} s w'" using j w' by (auto simp: J_def clockOf_def fun_eq_iff)
  qed (auto simp: J_def D_def)
  then obtain fired w' where t: "tick recordFired [] w = Some (fired, w')" "wheel_inv w'" "none_due w'"
    and j: "J {} fired w'" by blast
  have "D \<subseteq> set fired"
  proof
    fix n assume "n \<in> D"
    show "n \<in> set fired"
    proof (rule ccontr)
      assume "n \<notin> set fired"
      then have "deadline w' n = Some (tick_count w')" using j \<open>n \<in> D\<close> by (simp add: J_def D_def)
      then show False using deadline_future [OF t(2,3)] by blast
    qed
  qed
  then have "set fired = D" using j by (auto simp: J_def)
  with t j show ?thesis by (auto simp: J_def)
qed

fun runTicks :: "nat \<Rightarrow> 'n TtlWheel \<Rightarrow> ('n list list \<times> 'n TtlWheel) option" where
  "runTicks 0 w = Some ([], w)"
| "runTicks (Suc k) w =
     (case tick recordFired [] w of
        None \<Rightarrow> None
      | Some (fired, w1) \<Rightarrow> map_option (apfst (Cons fired)) (runTicks k w1))"

lemma runTicks_fires:
  "wheel_inv w \<Longrightarrow> none_due w \<Longrightarrow>
   \<exists>fs w'. runTicks k w = Some (fs, w') \<and> length fs = k \<and> wheel_inv w' \<and> none_due w'
     \<and> (\<forall>i < k. distinct (fs ! i) \<and> set (fs ! i) = {n. deadline w n = Some (tick_count w + 1 + i)})"
proof (induction k arbitrary: w)
  case (Suc k)
  obtain fired w1 where t: "tick recordFired [] w = Some (fired, w1)" "distinct fired"
    "set fired = {n. deadline w n = Some (tick_count w + 1)}"
    "deadline w1 = (\<lambda>n. if n \<in> {n. deadline w n = Some (tick_count w + 1)} then None else deadline w n)"
    "tick_count w1 = tick_count w + 1" "wheel_inv w1" "none_due w1"
    using tick_record [OF Suc.prems] by blast
  from Suc.IH [OF t(6,7)] obtain fs w' where f: "runTicks k w1 = Some (fs, w')" "length fs = k"
    "wheel_inv w'" "none_due w'"
    "\<forall>i < k. distinct (fs ! i) \<and> set (fs ! i) = {n. deadline w1 n = Some (tick_count w1 + 1 + i)}" by blast
  have "distinct ((fired # fs) ! i) \<and> set ((fired # fs) ! i) = {n. deadline w n = Some (tick_count w + 1 + i)}"
    if "i < Suc k" for i
    using that t(2-5) f(5) by (cases i) auto
  with t(1) f show ?case by auto
qed simp

section \<open>Properties\<close>

lemma insert_none_due: "wheel_inv w \<Longrightarrow> none_due w \<Longrightarrow> 1 \<le> t \<Longrightarrow> none_due (wheelInsert n t w)"
  by (auto simp: none_due_iff wheelInsert_inv due_def split: if_splits)

lemma remove_none_due: "wheel_inv w \<Longrightarrow> none_due w \<Longrightarrow> none_due (wheelRemove n w)"
  by (auto simp: none_due_iff wheelRemove_inv due_def)

text \<open>
  C29. Refinement of the wheel (slots, intrusive links, heap with back pointers) to one map from
  nodes to absolute expiry ticks: \<open>insert\<close> updates the map at the node, replacing an earlier schedule,
  \<open>remove\<close> deletes the node from it, both leave every other node and the clock alone and keep the
  structural invariant and that nothing is overdue.
\<close>

theorem wheel_refines_schedule:
  assumes "wheel_inv w" "none_due w" "1 \<le> t"
  shows "deadline (wheelInsert n t w) = (deadline w)(n \<mapsto> tick_count w + t)
    \<and> deadline (wheelRemove n w) = (deadline w)(n := None)
    \<and> wheel_inv (wheelInsert n t w) \<and> none_due (wheelInsert n t w)
    \<and> wheel_inv (wheelRemove n w) \<and> none_due (wheelRemove n w)
    \<and> clockOf (wheelInsert n t w) = clockOf w \<and> clockOf (wheelRemove n w) = clockOf w"
  using assms by (simp add: wheelInsert_inv wheelRemove_inv insert_none_due remove_none_due clockOf_def)

theorem wheel_refines_schedule_witness:
  "deadline (wheelInsert ''a'' 300 (wheelInsert ''b'' 7 emptyWheel)) = [''b'' \<mapsto> 7, ''a'' \<mapsto> 300]"
proof -
  let ?b = "wheelInsert ''b'' 7 emptyWheel :: string TtlWheel"
  have b: "deadline ?b = [''b'' \<mapsto> 7]" "wheel_inv ?b" "none_due ?b" "tick_count ?b = 0"
    using wheel_refines_schedule [of "emptyWheel :: string TtlWheel" 7 "''b''"]
    by (simp_all add: clockOf_def) (simp_all add: emptyWheel_def)
  show ?thesis using wheel_refines_schedule [OF b(2,3), of 300 "''a''"] b by simp
qed

text \<open>
  C27. Exact firing: a node scheduled with a TTL of \<open>t\<close> ticks, in a slot or in the heap, fires on the
  \<open>t\<close>-th following tick and on no other; every other node fires when its own deadline says.
  Each tick returns.
\<close>

theorem wheel_fires_at_ttl:
  assumes "wheel_inv w" "none_due w" "1 \<le> t"
  shows "\<exists>fs w'. runTicks k (wheelInsert n t w) = Some (fs, w') \<and> length fs = k
    \<and> (\<forall>i < k. distinct (fs ! i)
        \<and> set (fs ! i) = {m. if m = n then i + 1 = t else deadline w m = Some (tick_count w + 1 + i)})"
proof -
  let ?w = "wheelInsert n t w"
  have d: "deadline ?w = (deadline w)(n \<mapsto> tick_count w + t)" "tick_count ?w = tick_count w"
    using assms by (simp_all add: wheelInsert_inv)
  have eq: "{m. deadline ?w m = Some (tick_count ?w + 1 + i)}
    = {m. if m = n then i + 1 = t else deadline w m = Some (tick_count w + 1 + i)}" for i
    unfolding d by auto
  have "wheel_inv ?w" "none_due ?w" using assms by (simp_all add: wheelInsert_inv insert_none_due)
  from runTicks_fires [OF this, of k] show ?thesis unfolding eq by blast
qed

theorem wheel_fires_at_ttl_witness:
  "\<exists>fs w'. runTicks 400 (wheelInsert ''a'' 300 emptyWheel) = Some (fs, w') \<and> length fs = 400
    \<and> set (fs ! 299) = {''a''} \<and> set (fs ! 43) = {}"
proof -
  obtain fs w' where f: "runTicks 400 (wheelInsert ''a'' 300 emptyWheel) = Some (fs, w')" "length fs = 400"
    and s: "\<forall>i < 400. distinct (fs ! i) \<and> set (fs ! i) = {m. if m = ''a'' then i + 1 = (300 :: nat)
        else deadline (emptyWheel :: string TtlWheel) m = Some (tick_count (emptyWheel :: string TtlWheel) + 1 + i)}"
    using wheel_fires_at_ttl [of "emptyWheel :: string TtlWheel" 300 400 "''a''"] by auto
  have "set (fs ! 299) = {''a''}" "set (fs ! 43) = {}"
    using s [rule_format, of 299] s [rule_format, of 43] by auto
  with f show ?thesis by blast
qed

end
