(* ===== verification/Wal.thy ===== *)
theory Wal
  imports Bytes CinderTypes "HOL-Library.Sublist"
begin

text \<open>
  The write-ahead log (\<open>include/cinder/store/wal.hpp\<close>, \<open>src/store/wal.cpp\<close>): record encoder, writer
  with its short-write loop, and the reader that stops at a torn tail. The 64-bit XXH3 hash is a
  parameter \<open>xxh\<close>; a file is its byte list. The outcome of each \<open>::write\<close> call is an argument,
  so a crash in the middle of an append is a list of outcomes that ends early.
\<close>

section \<open>Formats and records\<close>

definition K_WAL_MAGIC :: u32 where "K_WAL_MAGIC = 0x57414C30"
definition K_WAL_FORMAT_VERSION :: u32 where "K_WAL_FORMAT_VERSION = 2"
definition K_WAL_FORMAT_VERSION_V1 :: u32 where "K_WAL_FORMAT_VERSION_V1 = 1"

datatype WalFormat = Legacy | V1 | V2

definition parseWalFormat :: "u32 \<Rightarrow> WalFormat option" where
  "parseWalFormat v = (if v = 1 then Some V1 else if v = 2 then Some V2 else None)"

definition walHasTombstone :: "WalFormat \<Rightarrow> bool" where
  "walHasTombstone f \<longleftrightarrow> f = V2"

datatype WalOp = WalSet | WalDel

primrec walOpByte :: "WalOp \<Rightarrow> u8" where
  "walOpByte WalSet = 1"
| "walOpByte WalDel = 2"

definition byteWalOp :: "u8 \<Rightarrow> WalOp option" where
  "byteWalOp b = (if b = 1 then Some WalSet else if b = 2 then Some WalDel else None)"

record WalEntry =
  we_op :: WalOp
  we_key :: string
  we_value :: string
  we_version :: Version
  we_writer :: u64
  we_expires_ms :: u64
  we_has_ttl :: bool
  we_tombstone :: bool

datatype WalOpenMode = Truncate | Append

section \<open>Writing\<close>

definition encodedRecordSize :: "WalEntry \<Rightarrow> nat" where
  "encodedRecordSize e = 1 + 4 + length (we_key e) + 4 + length (we_value e) + 8 + 8 + 8 + 1 + 1 + 8"

definition boolByte :: "bool \<Rightarrow> u8" where
  "boolByte b = (if b then 1 else 0)"

definition encodeWalRecord :: "(bytes \<Rightarrow> u64) \<Rightarrow> WalEntry \<Rightarrow> Writer \<Rightarrow> Writer" where
  "encodeWalRecord xxh e out =
     (let record_start = wr_off out;
          out = bufWrite (walOpByte (we_op e)) out;
          out = bufWrite (word_of_nat (length (we_key e)) :: u32) out;
          out = bufWriteString (we_key e) out;
          out = bufWrite (word_of_nat (length (we_value e)) :: u32) out;
          out = bufWriteString (we_value e) out;
          out = bufWrite (we_version e) out;
          out = bufWrite (we_writer e) out;
          out = bufWrite (we_expires_ms e) out;
          out = bufWrite (boolByte (we_has_ttl e)) out;
          out = bufWrite (boolByte (we_tombstone e)) out;
          digest = xxh (take (wr_off out - record_start) (drop record_start (wr_out out)))
      in bufWrite digest out)"

text \<open>One result of \<open>::write\<close>: a count, \<open>EINTR\<close>, or a hard error.\<close>

datatype WriteRes = Wrote nat | Interrupted | WriteError

fun writeAll :: "WriteRes list \<Rightarrow> bytes \<Rightarrow> bytes \<Rightarrow> bool \<times> bytes" where
  "writeAll rs [] file = (True, file)"
| "writeAll [] data file = (False, file)"
| "writeAll (Interrupted # rs) data file = writeAll rs data file"
| "writeAll (WriteError # rs) data file = (False, file)"
| "writeAll (Wrote n # rs) data file =
     (if n = 0 then (False, file) else writeAll rs (drop n data) (file @ take n data))"

record WalWriter =
  ww_open :: bool
  ww_file :: bytes

text \<open>
  What the system answers while a writer opens its file: the first \<open>open\<close>, the read-only probe,
  the truncating reopen, and the writes of the header.
\<close>

record OpenEnv =
  oe_open :: bool
  oe_probe :: bool
  oe_reopen :: bool
  oe_writes :: "WriteRes list"

definition walHeader :: bytes where
  "walHeader = wr_out (bufWrite K_WAL_FORMAT_VERSION (bufWrite K_WAL_MAGIC (ByteWriter 8)))"

definition writeHeader :: "WriteRes list \<Rightarrow> bytes \<Rightarrow> WalWriter" where
  "writeHeader rs file =
     (case writeAll rs walHeader file of (ok, f) \<Rightarrow> \<lparr>ww_open = ok, ww_file = f\<rparr>)"

definition openWriter :: "OpenEnv \<Rightarrow> WalOpenMode \<Rightarrow> bytes \<Rightarrow> WalWriter" where
  "openWriter env mode file =
     (if \<not> oe_open env then \<lparr>ww_open = False, ww_file = file\<rparr>
      else case mode of
        Truncate \<Rightarrow> writeHeader (oe_writes env) []
      | Append \<Rightarrow>
          let have_header = (oe_probe env \<and> length file \<ge> 8);
              valid = (have_header \<and> leWord (take 4 file) = K_WAL_MAGIC
                       \<and> parseWalFormat (leWord (take 4 (drop 4 file))) \<noteq> None)
          in if \<not> have_header then writeHeader (oe_writes env) file
             else if \<not> valid then
               (if \<not> oe_reopen env then \<lparr>ww_open = False, ww_file = file\<rparr>
                else writeHeader (oe_writes env) [])
             else \<lparr>ww_open = True, ww_file = file\<rparr>)"

definition tooLong :: "WalEntry \<Rightarrow> bool" where
  "tooLong e \<longleftrightarrow> length (we_key e) > 2 ^ 32 - 1 \<or> length (we_value e) > 2 ^ 32 - 1"

definition writeScratch :: "WriteRes list \<Rightarrow> bytes \<Rightarrow> WalWriter \<Rightarrow> unit Result \<times> WalWriter" where
  "writeScratch rs scratch w =
     (case writeAll rs scratch (ww_file w) of
        (ok, f) \<Rightarrow> (if ok then Inr () else Inl (mkError InternalError ''WAL write failed''), w\<lparr>ww_file := f\<rparr>))"

definition walAppend :: "(bytes \<Rightarrow> u64) \<Rightarrow> WriteRes list \<Rightarrow> WalEntry \<Rightarrow> WalWriter \<Rightarrow> unit Result \<times> WalWriter" where
  "walAppend xxh rs e w =
     (if \<not> ww_open w then (Inl (mkError InternalError ''WAL file not open''), w)
      else if tooLong e then (Inl (mkError InvalidArgument ''WAL entry too large''), w)
      else writeScratch rs (wr_out (encodeWalRecord xxh e (ByteWriter (encodedRecordSize e)))) w)"

definition appendBatch ::
  "(bytes \<Rightarrow> u64) \<Rightarrow> WriteRes list \<Rightarrow> WalEntry list \<Rightarrow> WalWriter \<Rightarrow> nat Result \<times> WalWriter" where
  "appendBatch xxh rs es w =
     (if \<not> ww_open w then (Inl (mkError InternalError ''WAL file not open''), w)
      else if es = [] then (Inr 0, w)
      else if list_ex tooLong es then (Inl (mkError InvalidArgument ''WAL entry too large''), w)
      else
        let n = sum_list (map encodedRecordSize es);
            scratch = wr_out (fold (encodeWalRecord xxh) es (ByteWriter n))
        in case writeScratch rs scratch w of
             (Inl e, w') \<Rightarrow> (Inl e, w')
           | (Inr _, w') \<Rightarrow> (Inr n, w'))"

section \<open>Reading\<close>

record ParsedEntry =
  pe_op :: WalOp
  pe_key_len :: u32
  pe_key :: string
  pe_val_len :: u32
  pe_value :: string
  pe_version :: u64
  pe_writer :: u64
  pe_expires_ms :: u64
  pe_has_ttl :: u8
  pe_tombstone :: u8

text \<open>A failed read ends the record with \<open>invalid = false\<close>: a torn tail.\<close>

definition bindO ::
  "'a option \<times> Reader \<Rightarrow> ('a \<Rightarrow> Reader \<Rightarrow> 'b option \<times> bool \<times> Reader) \<Rightarrow> 'b option \<times> bool \<times> Reader" where
  "bindO m k = (case m of (None, r) \<Rightarrow> (None, False, r) | (Some a, r) \<Rightarrow> k a r)"

definition buf_u8 :: "Reader \<Rightarrow> u8 option \<times> Reader" where "buf_u8 = bufRead 1 leWord"
definition buf_u32 :: "Reader \<Rightarrow> u32 option \<times> Reader" where "buf_u32 = bufRead 4 leWord"
definition buf_u64 :: "Reader \<Rightarrow> u64 option \<times> Reader" where "buf_u64 = bufRead 8 leWord"

definition readTombstone :: "WalFormat \<Rightarrow> (u8 \<Rightarrow> Reader \<Rightarrow> 'b option \<times> bool \<times> Reader) \<Rightarrow>
    Reader \<Rightarrow> 'b option \<times> bool \<times> Reader" where
  "readTombstone fmt k r =
     (if walHasTombstone fmt then
        bindO (buf_u8 r) (\<lambda>t r. if t > 1 then (None, True, r) else k t r)
      else k 0 r)"

definition readEntryFields :: "WalFormat \<Rightarrow> Reader \<Rightarrow> ParsedEntry option \<times> bool \<times> Reader" where
  "readEntryFields fmt r =
     bindO (buf_u8 r) (\<lambda>op_byte r.
     case byteWalOp op_byte of
       None \<Rightarrow> (None, True, r)
     | Some op \<Rightarrow>
     bindO (buf_u32 r) (\<lambda>key_len r.
     bindO (bufReadString (unat key_len) r) (\<lambda>key r.
     bindO (buf_u32 r) (\<lambda>val_len r.
     bindO (bufReadString (unat val_len) r) (\<lambda>value r.
     bindO (buf_u64 r) (\<lambda>ver r.
     bindO (buf_u64 r) (\<lambda>writer r.
     bindO (buf_u64 r) (\<lambda>expires r.
     bindO (buf_u8 r) (\<lambda>has_ttl r.
     readTombstone fmt (\<lambda>tombstone r.
       (Some \<lparr>pe_op = op, pe_key_len = key_len, pe_key = key, pe_val_len = val_len,
              pe_value = value, pe_version = ver, pe_writer = writer, pe_expires_ms = expires,
              pe_has_ttl = has_ttl, pe_tombstone = tombstone\<rparr>, False, r)) r)))))))))"

text \<open>The streaming hash over the fields is the hash of their concatenation.\<close>

definition computeEntryChecksum :: "(bytes \<Rightarrow> u64) \<Rightarrow> ParsedEntry \<Rightarrow> WalFormat \<Rightarrow> u64" where
  "computeEntryChecksum xxh e fmt =
     xxh (leBytes (walOpByte (pe_op e)) @ leBytes (pe_key_len e) @ pe_key e @ leBytes (pe_val_len e)
       @ pe_value e @ leBytes (pe_version e) @ leBytes (pe_writer e) @ leBytes (pe_expires_ms e)
       @ leBytes (pe_has_ttl e) @ (if walHasTombstone fmt then leBytes (pe_tombstone e) else []))"

definition toWalEntry :: "ParsedEntry \<Rightarrow> WalEntry" where
  "toWalEntry e = \<lparr>we_op = pe_op e, we_key = pe_key e, we_value = pe_value e,
     we_version = pe_version e, we_writer = pe_writer e, we_expires_ms = pe_expires_ms e,
     we_has_ttl = (pe_has_ttl e \<noteq> 0), we_tombstone = (pe_tombstone e \<noteq> 0)\<rparr>"

record WalReader =
  wl_data :: bytes
  wl_pos :: nat
  wl_commit_pos :: nat
  wl_format :: WalFormat
  wl_corrupted :: bool

definition openReader :: "bytes \<Rightarrow> WalReader" where
  "openReader file =
     (let fresh = \<lparr>wl_data = file, wl_pos = 0, wl_commit_pos = 0, wl_format = Legacy, wl_corrupted = False\<rparr>
      in case buf_u32 (BufferReader file) of
           (None, _) \<Rightarrow> fresh
         | (Some magic, r) \<Rightarrow>
             if magic = K_WAL_MAGIC then
               (case buf_u32 r of
                  (None, _) \<Rightarrow> fresh
                | (Some ver, r') \<Rightarrow>
                    (case parseWalFormat ver of
                       Some fmt \<Rightarrow> fresh\<lparr>wl_format := fmt, wl_pos := rd_off r'\<rparr>
                     | None \<Rightarrow> fresh))
             else fresh)"

definition walNext :: "(bytes \<Rightarrow> u64) \<Rightarrow> WalReader \<Rightarrow> WalEntry option \<times> WalReader" where
  "walNext xxh w =
     (case readEntryFields (wl_format w) (seek (wl_pos w) (BufferReader (wl_data w))) of
        (None, invalid, r) \<Rightarrow>
          (None, w\<lparr>wl_corrupted := (wl_corrupted w \<or> invalid), wl_pos := rd_off r\<rparr>)
      | (Some parsed, _, r) \<Rightarrow>
          if wl_format w = Legacy then
            (Some (toWalEntry parsed), w\<lparr>wl_pos := rd_off r, wl_commit_pos := rd_off r\<rparr>)
          else
            (case buf_u64 r of
               (None, r') \<Rightarrow> (None, w\<lparr>wl_pos := rd_off r'\<rparr>)
             | (Some stored, r') \<Rightarrow>
                 if computeEntryChecksum xxh parsed (wl_format w) \<noteq> stored
                 then (None, w\<lparr>wl_corrupted := True, wl_pos := rd_off r'\<rparr>)
                 else (Some (toWalEntry parsed), w\<lparr>wl_pos := rd_off r', wl_commit_pos := rd_off r'\<rparr>)))"

definition hasMore :: "WalReader \<Rightarrow> bool" where
  "hasMore w \<longleftrightarrow> wl_pos w < length (wl_data w)"

lemma bindO_simps [codec_simps]:
  "bindO (None, r) k = (None, False, r)" "bindO (Some a, r) k = k a r"
  by (simp_all add: bindO_def)

lemma bindO_SomeE:
  assumes "bindO m k = (Some b, i, r')"
  obtains a r where "m = (Some a, r)" "k a r = (Some b, i, r')"
  using assms by (cases m) (auto simp: bindO_def split: option.splits)

lemma buf_off:
  "buf_u8 r = (Some a, r') \<Longrightarrow> rd_off r' = rd_off r + 1"
  "buf_u32 r = (Some b, r') \<Longrightarrow> rd_off r' = rd_off r + 4"
  "buf_u64 r = (Some c, r') \<Longrightarrow> rd_off r' = rd_off r + 8"
  "bufReadString n r = (Some d, r') \<Longrightarrow> rd_off r' = rd_off r + n"
  by (auto simp: buf_u8_def buf_u32_def buf_u64_def bufRead_def bufReadString_def adv_def split: if_splits)

lemma readTombstone_SomeE:
  assumes "readTombstone fmt k r = (Some b, i, r')"
  obtains t r1 where "k t r1 = (Some b, i, r')" "rd_off r \<le> rd_off r1"
proof (cases "walHasTombstone fmt")
  case True
  with assms have "bindO (buf_u8 r) (\<lambda>t r. if t > 1 then (None, True, r) else k t r) = (Some b, i, r')"
    by (simp add: readTombstone_def)
  then show ?thesis
    by (elim bindO_SomeE) (use that buf_off(1) in \<open>fastforce split: if_splits\<close>)
qed (use assms that in \<open>auto simp: readTombstone_def\<close>)

lemma readEntryFields_progress:
  assumes "readEntryFields fmt r = (Some p, i, r')"
  shows "rd_off r < rd_off r'"
proof -
  from assms obtain b r1 where 1: "buf_u8 r = (Some b, r1)" "byteWalOp b \<noteq> None"
    and k: "\<exists>op. bindO (buf_u32 r1) (\<lambda>key_len r.
     bindO (bufReadString (unat key_len) r) (\<lambda>key r.
     bindO (buf_u32 r) (\<lambda>val_len r.
     bindO (bufReadString (unat val_len) r) (\<lambda>value r.
     bindO (buf_u64 r) (\<lambda>ver r.
     bindO (buf_u64 r) (\<lambda>writer r.
     bindO (buf_u64 r) (\<lambda>expires r.
     bindO (buf_u8 r) (\<lambda>has_ttl r.
     readTombstone fmt (\<lambda>tombstone r.
       (Some \<lparr>pe_op = op, pe_key_len = key_len, pe_key = key, pe_val_len = val_len,
              pe_value = value, pe_version = ver, pe_writer = writer, pe_expires_ms = expires,
              pe_has_ttl = has_ttl, pe_tombstone = tombstone\<rparr>, False, r)) r)))))))) = (Some p, i, r')"
    unfolding readEntryFields_def by (elim bindO_SomeE) (auto split: option.splits)
  from k show ?thesis
    by (elim exE bindO_SomeE readTombstone_SomeE) (use buf_off(1) [OF 1(1)] in \<open>auto dest!: buf_off\<close>)
qed

lemma walNext_progress:
  assumes "walNext xxh w = (Some e, w')" "hasMore w"
  shows "wl_pos w < wl_pos w'" "wl_data w' = wl_data w"
proof -
  let ?r = "seek (wl_pos w) (BufferReader (wl_data w))"
  have o: "rd_off ?r = wl_pos w" using assms(2) by (simp add: seek_def BufferReader_def hasMore_def)
  obtain p i r where p: "readEntryFields (wl_format w) ?r = (p, i, r)" by (metis prod_cases3)
  with assms(1) obtain q where q: "p = Some q" by (cases p) (auto simp: walNext_def)
  have "wl_pos w < rd_off r" using readEntryFields_progress p q o by metis
  with assms(1) p q show "wl_pos w < wl_pos w'" "wl_data w' = wl_data w"
    by (auto simp: walNext_def split: if_splits prod.splits option.splits dest!: buf_off)
qed

text \<open>The record loop of \<open>PersistenceManager::replayWal\<close>: it stops at the first record that does not decode.\<close>

function walReplay :: "(bytes \<Rightarrow> u64) \<Rightarrow> WalReader \<Rightarrow> WalEntry list \<times> WalReader" where
  "walReplay xxh w =
     (if \<not> hasMore w then ([], w)
      else case walNext xxh w of
        (None, w') \<Rightarrow> ([], w')
      | (Some e, w') \<Rightarrow> (case walReplay xxh w' of (es, w'') \<Rightarrow> (e # es, w'')))"
  by pat_completeness auto
termination
proof (relation "measure (\<lambda>(x, w). length (wl_data w) - wl_pos w)", goal_cases)
  case (2 xxh w)
  have "length (wl_data w') - wl_pos w' < length (wl_data w) - wl_pos w"
    if "hasMore w" "walNext xxh w = (Some e, w')" for e w'
    using walNext_progress [OF that(2,1)] that(1) by (simp add: hasMore_def)
  with 2 show ?case by (simp only: in_measure case_prod_conv) metis
qed simp

declare walReplay.simps [simp del]

section \<open>Round trip and torn tails\<close>

text \<open>
  A parser \<open>k\<close> decodes \<open>bs\<close> to \<open>b\<close>: on input that starts with \<open>bs\<close> it consumes \<open>bs\<close> and returns \<open>b\<close>;
  on input that is a strict prefix of \<open>bs\<close> it reports a short read, never corruption.
\<close>

definition rd_ok :: "Reader \<Rightarrow> bool" where
  "rd_ok r \<longleftrightarrow> rd_off r \<le> length (rd_data r)"

definition field_ok :: "(Reader \<Rightarrow> 'a option \<times> Reader) \<Rightarrow> 'a \<Rightarrow> bytes \<Rightarrow> bool" where
  "field_ok m a bs \<longleftrightarrow> (\<forall>r. rd_ok r \<longrightarrow>
     (\<forall>xs. rest r = bs @ xs \<longrightarrow> m r = (Some a, adv (length bs) r)) \<and>
     (strict_prefix (rest r) bs \<longrightarrow> m r = (None, r)))"

definition parser_ok :: "(Reader \<Rightarrow> 'b option \<times> bool \<times> Reader) \<Rightarrow> 'b \<Rightarrow> bytes \<Rightarrow> bool" where
  "parser_ok k b bs \<longleftrightarrow> (\<forall>r. rd_ok r \<longrightarrow>
     (\<forall>xs. rest r = bs @ xs \<longrightarrow> k r = (Some b, False, adv (length bs) r)) \<and>
     (strict_prefix (rest r) bs \<longrightarrow> (\<exists>r'. k r = (None, False, r'))))"

lemma rd_ok_adv: "rd_ok r \<Longrightarrow> n \<le> length (rest r) \<Longrightarrow> rd_ok (adv n r)"
  by (auto simp: rd_ok_def rest_def adv_def)

lemma field_ok_bufRead:
  assumes "length (enc a) = w" "dec (enc a) = a"
  shows "field_ok (bufRead w dec) a (enc a)"
  unfolding field_ok_def using assms
  by (auto simp: bufRead_rest rd_ok_def dest!: prefix_length_less)

lemma field_ok_le [codec_simps]:
  "field_ok buf_u8 a8 (leBytes a8)" "field_ok buf_u32 a32 (leBytes a32)" "field_ok buf_u64 a64 (leBytes a64)"
  unfolding buf_u8_def buf_u32_def buf_u64_def
  by (rule field_ok_bufRead, simp_all add: le8.dec_enc le32.dec_enc le64.dec_enc del: One_nat_def)+

lemma field_ok_string [codec_simps]: "n = length s \<Longrightarrow> field_ok (bufReadString n) s s"
  by (auto simp: field_ok_def bufReadString_rest dest!: prefix_length_less)

lemma parser_ok_return [codec_simps]: "parser_ok (\<lambda>r. (Some b, False, r)) b []"
  by (auto simp: parser_ok_def adv_def)

lemma strict_prefix_append_cases:
  assumes "strict_prefix p (as @ bs)"
  obtains "strict_prefix p as" | p' where "p = as @ p'" "strict_prefix p' bs"
proof -
  have p: "prefix p (as @ bs)" "p \<noteq> as @ bs" using assms by (auto simp: strict_prefix_def)
  show ?thesis
  proof (cases "strict_prefix p as")
    case False
    with p(1) obtain us where "p = as @ us" "prefix us bs"
      unfolding prefix_append strict_prefix_def by (metis append_Nil2 Nil_prefix)
    with p(2) that(2) show ?thesis by (auto simp: strict_prefix_def)
  qed (rule that(1))
qed

lemma parser_ok_bindO:
  assumes m: "field_ok m a bs" and k: "parser_ok (k a) b bs'"
  shows "parser_ok (\<lambda>r. bindO (m r) k) b (bs @ bs')"
  unfolding parser_ok_def
proof (intro allI impI conjI)
  fix r xs assume r: "rd_ok r" "rest r = (bs @ bs') @ xs"
  then have "m r = (Some a, adv (length bs) r)" using m by (simp add: field_ok_def)
  moreover have "rd_ok (adv (length bs) r)" "rest (adv (length bs) r) = bs' @ xs"
    using r by (simp_all add: rd_ok_adv)
  ultimately show "bindO (m r) k = (Some b, False, adv (length (bs @ bs')) r)"
    using k by (simp add: parser_ok_def bindO_def)
next
  fix r assume r: "rd_ok r" "strict_prefix (rest r) (bs @ bs')"
  from r(2) show "\<exists>r'. bindO (m r) k = (None, False, r')"
  proof (cases rule: strict_prefix_append_cases)
    case 1
    then show ?thesis using m r(1) by (simp add: field_ok_def bindO_def)
  next
    case (2 p')
    then have "m r = (Some a, adv (length bs) r)" "rd_ok (adv (length bs) r)" "rest (adv (length bs) r) = p'"
      using m r(1) by (simp_all add: field_ok_def rd_ok_adv)
    then show ?thesis using k 2(2) by (simp add: parser_ok_def bindO_def)
  qed
qed

text \<open>The bytes of one record, as the encoder lays them out.\<close>

definition recordBody :: "WalEntry \<Rightarrow> bytes" where
  "recordBody e = leBytes (walOpByte (we_op e)) @ leBytes (word_of_nat (length (we_key e)) :: u32) @ we_key e
     @ leBytes (word_of_nat (length (we_value e)) :: u32) @ we_value e @ leBytes (we_version e)
     @ leBytes (we_writer e) @ leBytes (we_expires_ms e) @ leBytes (boolByte (we_has_ttl e))
     @ leBytes (boolByte (we_tombstone e))"

definition walRecord :: "(bytes \<Rightarrow> u64) \<Rightarrow> WalEntry \<Rightarrow> bytes" where
  "walRecord xxh e = recordBody e @ leBytes (xxh (recordBody e))"

lemma length_walRecord [simp]: "length (walRecord xxh e) = encodedRecordSize e"
  by (simp add: walRecord_def recordBody_def encodedRecordSize_def)

lemma encodeWalRecord_eq:
  assumes "fits (encodedRecordSize e) w"
  shows "encodeWalRecord xxh e w = writeBytes (walRecord xxh e) w"
proof -
  have f: "fits n w" if "n \<le> encodedRecordSize e" for n using assms that by (simp add: fits_def)
  let ?w = "writeBytes (recordBody e) w"
  have l: "length (recordBody e) + 8 = encodedRecordSize e" by (simp add: recordBody_def encodedRecordSize_def)
  have o: "wr_off ?w = wr_off w + length (recordBody e)" by (simp add: writeBytes_def)
  have "take (wr_off ?w - wr_off w) (drop (wr_off w) (wr_out ?w)) = recordBody e"
    using assms l by (simp add: writeBytes_def fits_def)
  moreover have "encodeWalRecord xxh e w
    = bufWrite (xxh (take (wr_off ?w - wr_off w) (drop (wr_off w) (wr_out ?w)))) ?w"
    unfolding encodeWalRecord_def Let_def writer_defs recordBody_def
    by (simp add: writeBytes_append f encodedRecordSize_def)
  ultimately show ?thesis
    using assms l by (simp add: writer_defs walRecord_def writeBytes_append)
qed

lemma encode_one: "wr_out (encodeWalRecord xxh e (ByteWriter (encodedRecordSize e))) = walRecord xxh e"
  by (simp add: encodeWalRecord_eq fits_def ByteWriter_def [of "encodedRecordSize e"])
    (simp add: ByteWriter_def [symmetric] writeBytes_all)

lemma encode_many:
  "fits (sum_list (map encodedRecordSize es)) w \<Longrightarrow>
   fold (encodeWalRecord xxh) es w = writeBytes (concat (map (walRecord xxh) es)) w"
proof (induction es arbitrary: w)
  case Nil
  then show ?case by (simp add: writeBytes_def)
next
  case (Cons e es)
  let ?w = "writeBytes (walRecord xxh e) w"
  have f: "fits (encodedRecordSize e) w" using Cons.prems by (simp add: fits_def)
  have "fits (sum_list (map encodedRecordSize es)) ?w"
    using Cons.prems by (simp add: fits_def writeBytes_def)
  moreover have "length (concat (map (walRecord xxh) es)) = sum_list (map encodedRecordSize es)"
    by (simp add: length_concat comp_def)
  ultimately show ?case
    using Cons.IH [of ?w] Cons.prems f
    by (simp add: encodeWalRecord_eq writeBytes_append)
qed

lemma readTombstone_ok:
  assumes "parser_ok (k (boolByte b)) x []"
  shows "parser_ok (readTombstone V2 k) x (leBytes (boolByte b))"
proof -
  let ?k = "\<lambda>t r. if t > 1 then (None, True, r) else k t r"
  have "parser_ok (?k (boolByte b)) x []"
    using assms by (cases b) (simp_all add: boolByte_def)
  then have "parser_ok (\<lambda>r. bindO (buf_u8 r) ?k) x (leBytes (boolByte b) @ [])"
    using parser_ok_bindO [of buf_u8 "boolByte b" "leBytes (boolByte b)" ?k] field_ok_le(1) by blast
  then show ?thesis by (simp add: readTombstone_def [abs_def] walHasTombstone_def)
qed

definition parsedOf :: "WalEntry \<Rightarrow> ParsedEntry" where
  "parsedOf e = \<lparr>pe_op = we_op e, pe_key_len = word_of_nat (length (we_key e)),
      pe_key = we_key e, pe_val_len = word_of_nat (length (we_value e)), pe_value = we_value e,
      pe_version = we_version e, pe_writer = we_writer e, pe_expires_ms = we_expires_ms e,
      pe_has_ttl = boolByte (we_has_ttl e), pe_tombstone = boolByte (we_tombstone e)\<rparr>"

lemma parsedOf_back: "toWalEntry (parsedOf e) = e" "computeEntryChecksum xxh (parsedOf e) V2 = xxh (recordBody e)"
  by (cases e; simp add: toWalEntry_def parsedOf_def boolByte_def)
    (simp add: computeEntryChecksum_def parsedOf_def recordBody_def walHasTombstone_def)

lemma readEntryFields_ok:
  assumes "\<not> tooLong e"
  shows "parser_ok (readEntryFields V2) (parsedOf e) (recordBody e)"
proof -
  have op: "byteWalOp (walOpByte (we_op e)) = Some (we_op e)"
    by (cases "we_op e") (simp_all add: byteWalOp_def)
  have n: "unat (word_of_nat (length (we_key e)) :: u32) = length (we_key e)"
    "unat (word_of_nat (length (we_value e)) :: u32) = length (we_value e)"
    using assms by (auto simp: tooLong_def unat_of_nat)
  show ?thesis
    unfolding readEntryFields_def recordBody_def parsedOf_def
    apply (rule parser_ok_bindO, rule codec_simps)
    apply (simp only: op option.case)
    apply (rule parser_ok_bindO, rule codec_simps)
    apply (rule parser_ok_bindO, rule field_ok_string, simp only: n)
    apply (rule parser_ok_bindO, rule codec_simps)
    apply (rule parser_ok_bindO, rule field_ok_string, simp only: n)
    apply (rule parser_ok_bindO, rule codec_simps)+
    apply (rule readTombstone_ok, rule codec_simps)
    done
qed

text \<open>
  One step of the reader standing at byte \<open>p\<close> of a V2 log: before a whole record it returns the
  entry and commits its end; before a torn record it returns nothing and reports no corruption.
\<close>

lemma walNext_record:
  assumes "\<not> tooLong e" "wl_format w = V2" "wl_pos w \<le> length (wl_data w)"
    and "drop (wl_pos w) (wl_data w) = walRecord xxh e @ xs"
  shows "walNext xxh w = (Some e, w\<lparr>wl_pos := wl_pos w + encodedRecordSize e,
    wl_commit_pos := wl_pos w + encodedRecordSize e\<rparr>)"
proof -
  let ?r = "seek (wl_pos w) (BufferReader (wl_data w))"
  have r: "rd_ok ?r" "rest ?r = recordBody e @ leBytes (xxh (recordBody e)) @ xs" "rd_off ?r = wl_pos w"
    using assms(3,4) by (simp_all add: rd_ok_def seek_def BufferReader_def rest_def walRecord_def min_def)
  note parsed = readEntryFields_ok [OF assms(1), unfolded parser_ok_def, rule_format, OF r(1), THEN conjunct1,
      rule_format, OF r(2)]
  let ?r1 = "adv (length (recordBody e)) ?r"
  have r1: "rd_ok ?r1" "rest ?r1 = leBytes (xxh (recordBody e)) @ xs" using r by (simp_all add: rd_ok_adv)
  have ck: "buf_u64 ?r1 = (Some (xxh (recordBody e)), adv 8 ?r1)"
    using field_ok_le(3) [of "xxh (recordBody e)"] r1 by (simp add: field_ok_def)
  have n: "length (recordBody e) + 8 = encodedRecordSize e" by (simp add: recordBody_def encodedRecordSize_def)
  have "rd_off (adv (length (recordBody e) + 8) ?r) = wl_pos w + encodedRecordSize e"
    using r(3) n by (simp add: adv_def)
  then show ?thesis
    unfolding walNext_def assms(2) by (simp add: parsed ck parsedOf_back)
qed

lemma walNext_torn:
  assumes "\<not> tooLong e" "wl_format w = V2" "wl_pos w \<le> length (wl_data w)"
    and "strict_prefix (drop (wl_pos w) (wl_data w)) (walRecord xxh e)"
  shows "\<exists>p. walNext xxh w = (None, w\<lparr>wl_pos := p\<rparr>)"
proof -
  let ?r = "seek (wl_pos w) (BufferReader (wl_data w))"
  have r: "rd_ok ?r" "rest ?r = drop (wl_pos w) (wl_data w)"
    using assms(3) by (simp_all add: rd_ok_def seek_def BufferReader_def rest_def min_def)
  note ok = readEntryFields_ok [OF assms(1), unfolded parser_ok_def, rule_format, OF r(1)]
  from assms(4) have "strict_prefix (rest ?r) (recordBody e @ leBytes (xxh (recordBody e)))"
    by (simp add: r walRecord_def)
  then show ?thesis
  proof (cases rule: strict_prefix_append_cases)
    case 1
    then obtain r' where "readEntryFields V2 ?r = (None, False, r')" using ok by blast
    then show ?thesis by (auto simp: walNext_def assms(2) intro: exI [of _ "rd_off r'"])
  next
    case (2 p')
    let ?r1 = "adv (length (recordBody e)) ?r"
    have r1: "rd_ok ?r1" "rest ?r1 = p'" using r(1) 2(1) by (simp_all add: rd_ok_adv)
    have "buf_u64 ?r1 = (None, ?r1)"
      using field_ok_le(3) [of "xxh (recordBody e)"] r1 2(2) by (simp add: field_ok_def)
    then show ?thesis
      using ok 2(1) unfolding walNext_def assms(2) by (auto intro: exI [of _ "rd_off ?r1"])
  qed
qed

lemma walReplay_log:
  assumes torn: "torn = [] \<or> (\<exists>e. \<not> tooLong e \<and> strict_prefix torn (walRecord xxh e))"
  shows "list_all (\<lambda>e. \<not> tooLong e) es \<Longrightarrow> wl_format w = V2 \<Longrightarrow> wl_pos w \<le> length (wl_data w) \<Longrightarrow>
    drop (wl_pos w) (wl_data w) = concat (map (walRecord xxh) es) @ torn \<Longrightarrow>
    \<exists>w'. walReplay xxh w = (es, w') \<and> wl_corrupted w' = wl_corrupted w
      \<and> wl_commit_pos w' = (if es = [] then wl_commit_pos w
           else wl_pos w + length (concat (map (walRecord xxh) es)))"
proof (induction es arbitrary: w)
  case Nil
  then have d: "drop (wl_pos w) (wl_data w) = torn" by simp
  show ?case
  proof (cases "torn = []")
    case True
    then have "\<not> hasMore w" using d Nil by (simp add: hasMore_def)
    then show ?thesis by (subst walReplay.simps) simp
  next
    case False
    then have "hasMore w" using d by (auto simp: hasMore_def)
    moreover obtain p where "walNext xxh w = (None, w\<lparr>wl_pos := p\<rparr>)"
      using torn False walNext_torn [OF _ Nil(2,3)] d by metis
    ultimately show ?thesis by (subst walReplay.simps) simp
  qed
next
  case (Cons e es)
  have d: "drop (wl_pos w) (wl_data w) = walRecord xxh e @ concat (map (walRecord xxh) es) @ torn"
    using Cons.prems(4) by simp
  let ?p = "wl_pos w + encodedRecordSize e"
  let ?w = "w\<lparr>wl_pos := ?p, wl_commit_pos := ?p\<rparr>"
  have nx: "walNext xxh w = (Some e, ?w)"
    using walNext_record [OF _ Cons.prems(2,3) d] Cons.prems(1) by simp
  have len: "length (drop (wl_pos w) (wl_data w)) \<ge> encodedRecordSize e" by (simp add: d)
  moreover have "0 < encodedRecordSize e" by (simp add: encodedRecordSize_def)
  ultimately have more: "hasMore w" "?p \<le> length (wl_data w)"
    using Cons.prems(3) by (auto simp: hasMore_def)
  have "drop ?p (wl_data w) = concat (map (walRecord xxh) es) @ torn"
    using arg_cong [OF d, of "drop (encodedRecordSize e)"] by (simp add: add.commute)
  with Cons.IH [of ?w] Cons.prems more(2) obtain w' where
    "walReplay xxh ?w = (es, w')" "wl_corrupted w' = wl_corrupted w"
    "wl_commit_pos w' = (if es = [] then ?p else ?p + length (concat (map (walRecord xxh) es)))"
    by auto
  with nx more(1) show ?case by (subst walReplay.simps) auto
qed

section \<open>Files\<close>

lemma writeAll_result:
  "writeAll rs d f = (ok, f') \<Longrightarrow> \<exists>p. f' = f @ p \<and> (if ok then p = d else strict_prefix p d)"
proof (induction rs d f rule: writeAll.induct)
  case (5 n rs v va f)
  let ?d = "v # va"
  show ?case
  proof (cases "n = 0")
    case False
    with 5 obtain p where p: "f' = (f @ take n ?d) @ p" "if ok then p = drop n ?d else strict_prefix p (drop n ?d)"
      by auto
    have "strict_prefix (take n ?d @ p) ?d" if "strict_prefix p (drop n ?d)"
      using that append_take_drop_id [of n ?d] by (metis same_prefix_prefix strict_prefix_def same_append_eq)
    with p have "f' = f @ (take n ?d @ p) \<and> (if ok then take n ?d @ p = ?d else strict_prefix (take n ?d @ p) ?d)"
      by (auto simp del: take_Suc_Cons drop_Suc_Cons)
    then show ?thesis by blast
  qed (use 5 in auto)
qed auto

lemma walHeader_eq: "walHeader = leBytes K_WAL_MAGIC @ leBytes K_WAL_FORMAT_VERSION"
  by (simp add: walHeader_def writer_defs writeBytes_append fits_def ByteWriter_def [symmetric])
    (simp add: ByteWriter_def writeBytes_def)

definition walLog :: "(bytes \<Rightarrow> u64) \<Rightarrow> WalEntry list \<Rightarrow> bytes" where
  "walLog xxh es = walHeader @ concat (map (walRecord xxh) es)"

lemma openReader_log:
  "openReader (walHeader @ xs) =
     \<lparr>wl_data = walHeader @ xs, wl_pos = 8, wl_commit_pos = 0, wl_format = V2, wl_corrupted = False\<rparr>"
proof -
  let ?f = "walHeader @ xs"
  have 1: "rd_ok (BufferReader ?f)" "rest (BufferReader ?f) = leBytes K_WAL_MAGIC @ leBytes K_WAL_FORMAT_VERSION @ xs"
    by (simp_all add: rd_ok_def BufferReader_def rest_def walHeader_eq)
  then have "buf_u32 (BufferReader ?f) = (Some K_WAL_MAGIC, adv 4 (BufferReader ?f))"
    using field_ok_le(2) [of K_WAL_MAGIC] by (simp add: field_ok_def)
  moreover have "rd_ok (adv 4 (BufferReader ?f))" "rest (adv 4 (BufferReader ?f)) = leBytes K_WAL_FORMAT_VERSION @ xs"
    using 1 by (simp_all add: rd_ok_adv)
  then have "buf_u32 (adv 4 (BufferReader ?f)) = (Some K_WAL_FORMAT_VERSION, adv 8 (BufferReader ?f))"
    using field_ok_le(2) [of K_WAL_FORMAT_VERSION] by (simp add: field_ok_def)
  moreover have "rd_off (adv 8 (BufferReader ?f)) = 8" by (simp add: adv_def BufferReader_def)
  ultimately show ?thesis
    by (simp add: openReader_def parseWalFormat_def K_WAL_FORMAT_VERSION_def Let_def)
qed

lemma length_walHeader [simp]: "length walHeader = 8"
  by (simp add: walHeader_eq)

lemma replay_file:
  assumes "list_all (\<lambda>e. \<not> tooLong e) es"
    and "torn = [] \<or> (\<exists>e. \<not> tooLong e \<and> strict_prefix torn (walRecord xxh e))"
  shows "\<exists>r. walReplay xxh (openReader (walLog xxh es @ torn)) = (es, r) \<and> \<not> wl_corrupted r
    \<and> take (wl_commit_pos r) (walLog xxh es @ torn) = (if es = [] then [] else walLog xxh es)"
proof -
  define w where "w = openReader (walLog xxh es @ torn)"
  have w: "w = \<lparr>wl_data = walLog xxh es @ torn, wl_pos = 8, wl_commit_pos = 0, wl_format = V2, wl_corrupted = False\<rparr>"
    using openReader_log [of "concat (map (walRecord xxh) es) @ torn"] by (simp add: walLog_def w_def)
  have "wl_format w = V2" "wl_pos w \<le> length (wl_data w)"
    "drop (wl_pos w) (wl_data w) = concat (map (walRecord xxh) es) @ torn"
    by (simp_all add: w walLog_def)
  from walReplay_log [OF assms(2) assms(1) this] obtain r where
    "walReplay xxh w = (es, r)" "\<not> wl_corrupted r"
    "wl_commit_pos r = (if es = [] then 0 else length (walLog xxh es))"
    by (auto simp: w walLog_def)
  then show ?thesis by (auto simp: w_def)
qed

text \<open>A prefix of a batch is some whole records and a torn one.\<close>

lemma prefix_records:
  "prefix p (concat (map (walRecord xxh) es)) \<Longrightarrow>
   \<exists>k torn. k \<le> length es \<and> p = concat (map (walRecord xxh) (take k es)) @ torn
     \<and> (torn = [] \<or> (\<exists>e \<in> set es. strict_prefix torn (walRecord xxh e)))"
proof (induction es arbitrary: p)
  case (Cons e es)
  show ?case
  proof (cases "strict_prefix p (walRecord xxh e)")
    case True
    then show ?thesis by (intro exI [of _ 0] exI [of _ p]) auto
  next
    case False
    with Cons.prems obtain q where q: "p = walRecord xxh e @ q" "prefix q (concat (map (walRecord xxh) es))"
      by (auto simp: prefix_append strict_prefix_def)
    from Cons.IH [OF q(2)] obtain k torn where
      "k \<le> length es" "q = concat (map (walRecord xxh) (take k es)) @ torn"
      "torn = [] \<or> (\<exists>e \<in> set es. strict_prefix torn (walRecord xxh e))" by blast
    with q(1) show ?thesis by (intro exI [of _ "Suc k"] exI [of _ torn]) auto
  qed
qed simp

lemma appendBatch_file:
  assumes "list_all (\<lambda>e. \<not> tooLong e) es"
    and "appendBatch xxh rs es \<lparr>ww_open = True, ww_file = f\<rparr> = (res, w')"
  obtains p where "ww_file w' = f @ p" "prefix p (concat (map (walRecord xxh) es))"
    "ww_open w'" "case res of Inr n \<Rightarrow> p = concat (map (walRecord xxh) es) \<and> n = length p | Inl e \<Rightarrow> True"
proof -
  let ?n = "sum_list (map encodedRecordSize es)" and ?c = "concat (map (walRecord xxh) es)"
  have l: "length ?c = ?n" by (simp add: length_concat comp_def)
  have "wr_out (fold (encodeWalRecord xxh) es (ByteWriter ?n)) = ?c"
    by (subst encode_many) (simp_all add: fits_def writeBytes_all l, simp add: ByteWriter_def)
  moreover have "\<not> list_ex tooLong es" using assms(1) by (induction es) auto
  moreover obtain ok f' where wa: "writeAll rs ?c f = (ok, f')" by fastforce
  moreover obtain p where "f' = f @ p" "if ok then p = ?c else strict_prefix p ?c"
    using writeAll_result [OF wa] by blast
  ultimately show ?thesis
    using assms(2) l by (intro that [of p])
      (auto simp: appendBatch_def writeScratch_def Let_def strict_prefix_def split: if_splits)
qed

section \<open>Properties\<close>

definition sampleWal :: "WalEntry list" where
  "sampleWal = [\<lparr>we_op = WalSet, we_key = ''k'', we_value = ''v1'', we_version = 4, we_writer = 9,
     we_expires_ms = 0, we_has_ttl = False, we_tombstone = False\<rparr>,
     \<lparr>we_op = WalDel, we_key = ''k'', we_value = [], we_version = 5, we_writer = 9,
     we_expires_ms = 0, we_has_ttl = False, we_tombstone = True\<rparr>]"

lemma sampleWal_short: "list_all (\<lambda>e. \<not> tooLong e) sampleWal"
  by (simp add: sampleWal_def tooLong_def)

text \<open>
  C18. Crash consistency of the log: whatever the kernel answers to the writes of a batch (short
  writes, interruptions, an error or a crash at any byte), replaying the file returns every entry
  logged before, then a prefix of the batch, all of it if the append succeeded, and never reports
  corruption; the valid size it reports cuts off exactly the torn record.
\<close>

theorem wal_crash_consistent:
  assumes "list_all (\<lambda>e. \<not> tooLong e) es" "list_all (\<lambda>e. \<not> tooLong e) batch"
    and "appendBatch xxh rs batch \<lparr>ww_open = True, ww_file = walLog xxh es\<rparr> = (res, w')"
  shows "\<exists>k r. k \<le> length batch \<and> (isl res \<or> k = length batch)
    \<and> walReplay xxh (openReader (ww_file w')) = (es @ take k batch, r) \<and> \<not> wl_corrupted r
    \<and> take (wl_commit_pos r) (ww_file w')
        = (if es @ take k batch = [] then [] else walLog xxh (es @ take k batch))"
proof -
  let ?all = "concat (map (walRecord xxh) batch)"
  obtain p where p: "ww_file w' = walLog xxh es @ p" "prefix p ?all"
    "case res of Inr n \<Rightarrow> p = ?all \<and> n = length p | Inl e \<Rightarrow> True"
    using appendBatch_file [OF assms(2,3)] by blast
  from p(2,3) obtain k torn where k: "k \<le> length batch" "isl res \<or> k = length batch"
    "p = concat (map (walRecord xxh) (take k batch)) @ torn"
    "torn = [] \<or> (\<exists>e \<in> set batch. strict_prefix torn (walRecord xxh e))"
    using prefix_records [OF p(2)] by (cases res) (auto intro: that [of "length batch" "[]"])
  have "list_all (\<lambda>e. \<not> tooLong e) (es @ take k batch)"
    using assms(1,2) by (auto simp: list_all_iff dest: in_set_takeD)
  moreover have "torn = [] \<or> (\<exists>e. \<not> tooLong e \<and> strict_prefix torn (walRecord xxh e))"
    using k(4) assms(2) by (auto simp: list_all_iff)
  moreover have "ww_file w' = walLog xxh (es @ take k batch) @ torn" by (simp add: p(1) k(3) walLog_def)
  ultimately show ?thesis using replay_file [of "es @ take k batch" torn xxh] k(1,2) by metis
qed

theorem wal_crash_consistent_witness:
  "\<exists>k r. walReplay (\<lambda>_. 7) (openReader (ww_file (snd (appendBatch (\<lambda>_. 7) [Wrote 50, Interrupted, WriteError]
      sampleWal \<lparr>ww_open = True, ww_file = walLog (\<lambda>_. 7) sampleWal\<rparr>))))
      = (sampleWal @ take k sampleWal, r) \<and> \<not> wl_corrupted r"
proof -
  obtain res w' where "appendBatch (\<lambda>_. 7) [Wrote 50, Interrupted, WriteError] sampleWal
    \<lparr>ww_open = True, ww_file = walLog (\<lambda>_. 7) sampleWal\<rparr> = (res, w')" by fastforce
  from wal_crash_consistent [OF sampleWal_short sampleWal_short this] this show ?thesis by auto
qed

text \<open>
  C30. Restart cycle: truncating a crashed log at the size the reader calls valid and opening it for
  append, with a file system that now works, gives exactly the log of the entries the reader
  returned, open for further appends, whether or not a record had been completed.
\<close>

theorem wal_restart_resumes:
  assumes "list_all (\<lambda>e. \<not> tooLong e) es"
    and "torn = [] \<or> (\<exists>e. \<not> tooLong e \<and> strict_prefix torn (walRecord xxh e))"
    and "oe_open env" "oe_probe env" "fst (writeAll (oe_writes env) walHeader [])"
  shows "\<exists>r. walReplay xxh (openReader (walLog xxh es @ torn)) = (es, r)
    \<and> openWriter env Append (take (wl_commit_pos r) (walLog xxh es @ torn))
        = \<lparr>ww_open = True, ww_file = walLog xxh es\<rparr>"
proof -
  obtain r where r: "walReplay xxh (openReader (walLog xxh es @ torn)) = (es, r)"
    "take (wl_commit_pos r) (walLog xxh es @ torn) = (if es = [] then [] else walLog xxh es)"
    using replay_file [OF assms(1,2)] by blast
  have h: "writeHeader (oe_writes env) [] = \<lparr>ww_open = True, ww_file = walHeader\<rparr>"
    using writeAll_result [of "oe_writes env" walHeader "[]"] assms(5)
    by (auto simp: writeHeader_def split: prod.splits)
  have "parseWalFormat K_WAL_FORMAT_VERSION = Some V2" by (simp add: parseWalFormat_def K_WAL_FORMAT_VERSION_def)
  then have "openWriter env Append (walLog xxh es) = \<lparr>ww_open = True, ww_file = walLog xxh es\<rparr>"
    using assms(3,4) by (simp add: openWriter_def walLog_def walHeader_eq le32.dec_enc)
  moreover have "openWriter env Append [] = \<lparr>ww_open = True, ww_file = walHeader\<rparr>"
    using assms(3) h by (simp add: openWriter_def)
  ultimately show ?thesis using r by (auto simp: walLog_def)
qed

lemma writeAll_whole: "d \<noteq> [] \<Longrightarrow> writeAll [Wrote (length d)] d f = (True, f @ d)"
  by (cases d) simp_all

lemma walHeader_ne: "walHeader \<noteq> []"
  by (metis length_walHeader list.size(3) zero_neq_numeral)

lemma magic_byte: "\<exists>xs. leBytes K_WAL_MAGIC = CHR 0x30 # xs"
proof -
  have "le_bytes n v = char_of (v mod 256) # le_bytes (n - 1) (v div 256)" if "0 < n" for n v
    using that by (cases n) simp_all
  from this [of 4 "unat K_WAL_MAGIC"] have "leBytes K_WAL_MAGIC = char_of (48 :: nat) # le_bytes 3 (unat K_WAL_MAGIC div 256)"
    by (simp add: leBytes_def K_WAL_MAGIC_def)
  moreover have "char_of (48 :: nat) = CHR 0x30" by code_simp
  ultimately show ?thesis by simp
qed

lemma char_one: "char_of (Suc 0) = CHR 0x01"
  by code_simp

theorem wal_restart_resumes_witness:
  "\<exists>r. walReplay (\<lambda>_. 7) (openReader (walLog (\<lambda>_. 7) sampleWal @ [CHR 0x01])) = (sampleWal, r)
    \<and> openWriter \<lparr>oe_open = True, oe_probe = True, oe_reopen = True, oe_writes = [Wrote 8]\<rparr> Append
        (take (wl_commit_pos r) (walLog (\<lambda>_. 7) sampleWal @ [CHR 0x01]))
      = \<lparr>ww_open = True, ww_file = walLog (\<lambda>_. 7) sampleWal\<rparr>"
proof -
  have "walRecord (\<lambda>_. 7) (hd sampleWal) = CHR 0x01 # tl (walRecord (\<lambda>_. 7) (hd sampleWal))"
    by (simp add: walRecord_def recordBody_def sampleWal_def leBytes_def numeral_1_eq_Suc_0 char_one)
  moreover have "length (walRecord (\<lambda>_. 7) (hd sampleWal)) \<noteq> 1" by (simp add: encodedRecordSize_def)
  ultimately have "strict_prefix [CHR 0x01] (walRecord (\<lambda>_. 7) (hd sampleWal))"
    by (metis length_Cons list.size(3) One_nat_def Cons_prefix_Cons Nil_prefix strict_prefix_def)
  moreover have "\<not> tooLong (hd sampleWal)" using sampleWal_short by (simp add: sampleWal_def)
  moreover have "fst (writeAll [Wrote 8] walHeader [])"
    using writeAll_whole [OF walHeader_ne] by simp
  ultimately show ?thesis by (intro wal_restart_resumes sampleWal_short) auto
qed

text \<open>
  Group commit: with complete writes, one batch append leaves exactly the bytes of one append
  per entry, in order, and returns their number; a batch with an oversized entry writes nothing.
\<close>

theorem appendBatch_eq_appends:
  assumes "ww_open w"
  shows "appendBatch xxh [Wrote (sum_list (map encodedRecordSize es))] es w
    = (if list_ex tooLong es then (Inl (mkError InvalidArgument ''WAL entry too large''), w)
       else (Inr (sum_list (map encodedRecordSize es)),
             fold (\<lambda>e w. snd (walAppend xxh [Wrote (encodedRecordSize e)] e w)) es w))"
proof (cases "es = [] \<or> list_ex tooLong es")
  case True
  with assms show ?thesis by (auto simp: appendBatch_def)
next
  case False
  let ?n = "sum_list (map encodedRecordSize es)" and ?c = "concat (map (walRecord xxh) es)"
  have l: "length ?c = ?n" by (simp add: length_concat comp_def)
  have ne: "walRecord xxh e \<noteq> []" for e
    using length_walRecord [of xxh e] by (auto simp: encodedRecordSize_def simp del: length_walRecord)
  have one: "snd (walAppend xxh [Wrote (encodedRecordSize e)] e v) = v\<lparr>ww_file := ww_file v @ walRecord xxh e\<rparr>"
    if "ww_open v" "\<not> tooLong e" for v e
    using that writeAll_whole [OF ne [of e], of "ww_file v"]
    by (simp add: walAppend_def writeScratch_def encode_one)
  have seq: "fold (\<lambda>e w. snd (walAppend xxh [Wrote (encodedRecordSize e)] e w)) xs v
    = v\<lparr>ww_file := ww_file v @ concat (map (walRecord xxh) xs)\<rparr>"
    if "ww_open v" "\<not> list_ex tooLong xs" for v xs
    using that by (induction xs arbitrary: v) (simp_all add: one)
  have "wr_out (fold (encodeWalRecord xxh) es (ByteWriter ?n)) = ?c"
    by (subst encode_many) (simp_all add: fits_def writeBytes_all l, simp add: ByteWriter_def)
  moreover have "?c \<noteq> []" using False ne by (cases es) auto
  ultimately show ?thesis
    using False assms seq [OF assms] writeAll_whole [of ?c "ww_file w"] l
    by (simp add: appendBatch_def writeScratch_def Let_def)
qed

theorem appendBatch_eq_appends_witness:
  "appendBatch (\<lambda>_. 7) [Wrote (sum_list (map encodedRecordSize sampleWal))] sampleWal
      \<lparr>ww_open = True, ww_file = walHeader\<rparr>
    = (Inr 90, fold (\<lambda>e w. snd (walAppend (\<lambda>_. 7) [Wrote (encodedRecordSize e)] e w)) sampleWal
        \<lparr>ww_open = True, ww_file = walHeader\<rparr>)"
  using appendBatch_eq_appends [of "\<lparr>ww_open = True, ww_file = walHeader\<rparr>" "\<lambda>_. 7" sampleWal] sampleWal_short
  by (simp add: sampleWal_def encodedRecordSize_def tooLong_def)

text \<open>
  C33. A log whose header was torn by a crash (1 to 7 bytes of it on disk) is reported as corrupt by
  the first read, although the constructor's comment calls it nothing to decode: the reader falls
  back to the legacy format and takes the first magic byte for an unknown operation.
\<close>

theorem torn_header_reported_corrupt:
  assumes "0 < n" "n < 8"
  shows "hasMore (openReader (take n walHeader))
    \<and> (case walReplay xxh (openReader (take n walHeader)) of (es, r) \<Rightarrow> es = [] \<and> wl_corrupted r)"
proof -
  let ?f = "take n walHeader"
  define w where "w = openReader ?f"
  have hd: "walHeader = CHR 0x30 # tl walHeader" using magic_byte by (auto simp: walHeader_eq)
  obtain m r where m: "buf_u32 (BufferReader ?f) = (m, r)" by fastforce
  have "fst (buf_u32 r) = None" if "m \<noteq> None"
    using m that assms(2) by (auto simp: buf_u32_def bufRead_def BufferReader_def adv_def split: if_splits)
  then have w: "w = \<lparr>wl_data = ?f, wl_pos = 0, wl_commit_pos = 0, wl_format = Legacy, wl_corrupted = False\<rparr>"
    by (cases m; cases "buf_u32 r") (auto simp: w_def openReader_def Let_def m)
  obtain xs where f: "?f = CHR 0x30 # xs"
    using hd assms(1) take_Suc_Cons [of "n - 1" "CHR 0x30" "tl walHeader"] by auto
  have "buf_u8 (BufferReader ?f) = (Some 0x30, adv 1 (BufferReader ?f))"
    by (simp add: f buf_u8_def bufRead_def BufferReader_def leWord_def)
  then have "walNext xxh w = (None, w\<lparr>wl_corrupted := True, wl_pos := 1\<rparr>)"
    by (simp add: w walNext_def readEntryFields_def seek_def BufferReader_def bindO_def byteWalOp_def adv_def)
  moreover have "hasMore w" using f by (simp add: w hasMore_def)
  ultimately show ?thesis by (subst walReplay.simps) (simp add: w_def [symmetric])
qed

theorem torn_header_reported_corrupt_witness:
  "hasMore (openReader (take 5 walHeader))
    \<and> (case walReplay (\<lambda>_. 7) (openReader (take 5 walHeader)) of (es, r) \<Rightarrow> es = [] \<and> wl_corrupted r)"
  by (rule torn_header_reported_corrupt) simp_all

end
