(* ===== verification/Store.thy ===== *)
theory Store
  imports TtlWheel Wal Clocks
begin

text \<open>
  The eviction store shared by the LRU and LFU policies
  (\<open>include/cinder/store/detail/eviction_store_base.hpp\<close>). A shard's list node is named by its key:
  \<open>sh_list\<close> is the order of the nodes in the \<open>std::list\<close>, \<open>sh_nodes\<close> is the index followed to the node's
  entry. Policy state is the type parameter \<open>'p\<close>. The policy hooks are the fields of a record, as the
  derived class is the template argument of the base. The mutation sink and the persistence
  manager are observers; the calls they receive are the two logs of \<open>Globals\<close>. Metrics counters are
  left out. Every operation runs at one sample of the clock.
\<close>

section \<open>State\<close>

record MutEvent =
  me_key :: Key
  me_version_and_ttl :: u64
  me_writer :: u64
  me_removed :: bool

record 'p Shard =
  sh_list :: "Key list"
  sh_nodes :: "Key \<rightharpoonup> VersionedEntry"
  sh_wheel :: "Key TtlWheel"
  sh_bytes :: nat
  sh_last_evict :: int
  sh_policy :: 'p

record Globals =
  capacity_bytes :: nat
  next_version :: Version
  tombstone_gc :: int
  total_bytes :: nat
  total_entries :: nat
  mut_log :: "MutEvent list"
  wal_log :: "WalEntry list"

type_synonym 'p ShardState = "'p Shard \<times> Globals"

record 'p Policy =
  nodeBytes :: nat
  applyExisting :: "Key \<Rightarrow> VersionedEntry \<Rightarrow> 'p Shard \<Rightarrow> 'p Shard"
  insertNew :: "Key \<Rightarrow> VersionedEntry \<Rightarrow> 'p Shard \<Rightarrow> 'p Shard"
  onAccess :: "Key \<Rightarrow> 'p Shard \<Rightarrow> 'p Shard"
  onEvictExpired :: "Key \<Rightarrow> 'p Shard \<Rightarrow> 'p Shard"
  evictOne :: "'p ShardState \<Rightarrow> nat \<times> 'p ShardState"

definition nodeSize :: "'p Policy \<Rightarrow> Key \<Rightarrow> VersionedEntry \<Rightarrow> nat" where
  "nodeSize pol k e = length k + length (ve_value e) + nodeBytes pol"

section \<open>Observers and the version clock\<close>

definition noteAdded :: "Key \<Rightarrow> VersionedEntry \<Rightarrow> Globals \<Rightarrow> Globals" where
  "noteAdded k e g = g\<lparr>mut_log := mut_log g @ [\<lparr>me_key = k, me_version_and_ttl = version_and_ttl e,
     me_writer = writer_node_hash e, me_removed = False\<rparr>]\<rparr>"

definition noteRemoved :: "Key \<Rightarrow> VersionedEntry \<Rightarrow> Globals \<Rightarrow> Globals" where
  "noteRemoved k e g = g\<lparr>mut_log := mut_log g @ [\<lparr>me_key = k, me_version_and_ttl = version_and_ttl e,
     me_writer = writer_node_hash e, me_removed = True\<rparr>]\<rparr>"

definition mintVersion :: "Globals \<Rightarrow> Version \<times> Globals" where
  "mintVersion g = (next_version g, g\<lparr>next_version := next_version g + 1\<rparr>)"

definition observeVersion :: "Version \<Rightarrow> Globals \<Rightarrow> Globals" where
  "observeVersion v g = (if v > next_version g then g\<lparr>next_version := v\<rparr> else g)"

definition walSetEntry :: "Clock \<Rightarrow> Key \<Rightarrow> VersionedEntry \<Rightarrow> WalEntry" where
  "walSetEntry ck k e = \<lparr>we_op = WalSet, we_key = k, we_value = ve_value e, we_version = version e,
     we_writer = writer_node_hash e,
     we_expires_ms = (if hasTtl e then toSystemMs ck (expires_at e) else 0),
     we_has_ttl = hasTtl e, we_tombstone = isTombstone e\<rparr>"

definition writeWal :: "Clock \<Rightarrow> Key \<Rightarrow> 'p ShardState \<Rightarrow> 'p ShardState" where
  "writeWal ck k s =
     (case s of (sh, g) \<Rightarrow>
        (case sh_nodes sh k of
           None \<Rightarrow> (sh, g)
         | Some e \<Rightarrow> (sh, g\<lparr>wal_log := wal_log g @ [walSetEntry ck k e]\<rparr>)))"

section \<open>Expiry ticks and shard sizes\<close>

definition K_NS_PER_S :: int where "K_NS_PER_S = 1000000000"

text \<open>\<open>ceil<seconds>\<close> and \<open>floor<seconds>\<close> of a duration in nanoseconds.\<close>

definition ceilSeconds :: "int \<Rightarrow> int" where "ceilSeconds d = - ((- d) div K_NS_PER_S)"
definition floorSeconds :: "int \<Rightarrow> int" where "floorSeconds d = d div K_NS_PER_S"

definition expiryTicksAt :: "int \<Rightarrow> int \<Rightarrow> nat" where
  "expiryTicksAt expires at =
     (let remaining = expires - at in
      if remaining \<le> 0 then 1
      else let ticks = ceilSeconds remaining in if nat ticks < 1 then 1 else nat ticks)"

definition K_MAX_SHARDS :: nat where "K_MAX_SHARDS = 16"
definition K_MIN_SHARD_BYTES :: nat where "K_MIN_SHARD_BYTES = 65536"

definition shardCountFor :: "nat \<Rightarrow> nat" where
  "shardCountFor cap = min (max (cap div K_MIN_SHARD_BYTES) 1) K_MAX_SHARDS"

definition shardCapacity :: "nat \<Rightarrow> Globals \<Rightarrow> nat" where
  "shardCapacity n g = capacity_bytes g div n"

section \<open>Shard operations\<close>

definition updateWheelAt :: "Key \<Rightarrow> int \<Rightarrow> 'p Shard \<Rightarrow> 'p Shard" where
  "updateWheelAt k at sh =
     (case sh_nodes sh k of
        None \<Rightarrow> sh
      | Some e \<Rightarrow>
          if hasTtl e then sh\<lparr>sh_wheel := wheelInsert k (expiryTicksAt (expires_at e) at) (sh_wheel sh)\<rparr>
          else sh\<lparr>sh_wheel := wheelRemove k (sh_wheel sh)\<rparr>)"

definition eraseNode :: "'p Policy \<Rightarrow> Key \<Rightarrow> VersionedEntry \<Rightarrow> 'p ShardState \<Rightarrow> 'p ShardState" where
  "eraseNode pol k e s =
     (case s of (sh, g) \<Rightarrow>
        let g = noteRemoved k e g;
            freed = nodeSize pol k e;
            sh = onEvictExpired pol k sh;
            sh = sh\<lparr>sh_wheel := wheelRemove k (sh_wheel sh)\<rparr>;
            sh = sh\<lparr>sh_list := remove1 k (sh_list sh)\<rparr>;
            sh = sh\<lparr>sh_nodes := (sh_nodes sh)(k := None)\<rparr>
        in (sh\<lparr>sh_bytes := sh_bytes sh - freed\<rparr>,
            g\<lparr>total_bytes := total_bytes g - freed, total_entries := total_entries g - 1\<rparr>))"

text \<open>
  The eviction loop. Each round but the last removes one list node, so the length of the list
  bounds the rounds.
\<close>

fun evictLoop :: "nat \<Rightarrow> 'p Policy \<Rightarrow> nat \<Rightarrow> 'p ShardState \<Rightarrow> 'p ShardState" where
  "evictLoop 0 pol cap s = s"
| "evictLoop (Suc n) pol cap (sh, g) =
     (if sh_bytes sh > cap \<and> sh_list sh \<noteq> [] then
        (case evictOne pol (sh, g) of
           (freed, sh', g') \<Rightarrow>
             if freed = 0 then (sh', g')
             else evictLoop n pol cap
               (sh'\<lparr>sh_bytes := sh_bytes sh' - freed\<rparr>,
                g'\<lparr>total_bytes := total_bytes g' - freed, total_entries := total_entries g' - 1\<rparr>))
      else (sh, g))"

definition evictIfNeeded :: "'p Policy \<Rightarrow> nat \<Rightarrow> 'p ShardState \<Rightarrow> 'p ShardState" where
  "evictIfNeeded pol cap s = evictLoop (length (sh_list (fst s))) pol cap s"

definition putExisting :: "'p Policy \<Rightarrow> nat \<Rightarrow> Clock \<Rightarrow> int \<Rightarrow> Key \<Rightarrow> VersionedEntry \<Rightarrow> VersionedEntry \<Rightarrow>
    'p ShardState \<Rightarrow> unit Result \<times> 'p ShardState" where
  "putExisting pol cap ck at k entry entry0 s =
     (case s of (sh, g) \<Rightarrow>
        if compareLww (stampOf entry) (stampOf entry0) = Less then (Inr (), sh, g)
        else
          let g = observeVersion (version entry + 1) g;
              old_size = nodeSize pol k entry0;
              sh = sh\<lparr>sh_bytes := sh_bytes sh - old_size\<rparr>;
              g = g\<lparr>total_bytes := total_bytes g - old_size\<rparr>;
              sh = applyExisting pol k entry sh;
              new_size = nodeSize pol k entry;
              sh = sh\<lparr>sh_bytes := sh_bytes sh + new_size\<rparr>;
              g = g\<lparr>total_bytes := total_bytes g + new_size\<rparr>
          in case evictIfNeeded pol cap (sh, g) of
               (sh, g) \<Rightarrow>
                 (case sh_nodes sh k of
                    None \<Rightarrow> (Inr (), sh, noteRemoved k entry0 g)
                  | Some resident \<Rightarrow>
                      let g = noteAdded k resident (noteRemoved k entry0 g);
                          sh = updateWheelAt k at sh
                      in (Inr (), writeWal ck k (sh, g))))"

definition putNew :: "'p Policy \<Rightarrow> nat \<Rightarrow> Clock \<Rightarrow> int \<Rightarrow> Key \<Rightarrow> VersionedEntry \<Rightarrow>
    'p ShardState \<Rightarrow> unit Result \<times> 'p ShardState" where
  "putNew pol cap ck at k entry s =
     (case s of (sh, g) \<Rightarrow>
        let entry_size = length k + length (ve_value entry) + nodeBytes pol in
        if entry_size > cap
        then (Inl (mkError CapacityExceeded ''value exceeds capacity''), sh, g)
        else
          let g = observeVersion (version entry + 1) g;
              sh = insertNew pol k entry sh;
              sh = sh\<lparr>sh_bytes := sh_bytes sh + entry_size\<rparr>;
              g = g\<lparr>total_bytes := total_bytes g + entry_size, total_entries := total_entries g + 1\<rparr>
          in case evictIfNeeded pol cap (sh, g) of
               (sh, g) \<Rightarrow>
                 (case sh_nodes sh k of
                    None \<Rightarrow> (Inr (), sh, g)
                  | Some resident \<Rightarrow>
                      let g = noteAdded k resident g;
                          sh = updateWheelAt k at sh
                      in (Inr (), writeWal ck k (sh, g))))"

definition putVersionedAt :: "'p Policy \<Rightarrow> nat \<Rightarrow> Clock \<Rightarrow> int \<Rightarrow> Key \<Rightarrow> VersionedEntry \<Rightarrow>
    'p ShardState \<Rightarrow> unit Result \<times> 'p ShardState" where
  "putVersionedAt pol cap ck at k entry s =
     (case sh_nodes (fst s) k of
        Some entry0 \<Rightarrow> putExisting pol cap ck at k entry entry0 s
      | None \<Rightarrow> putNew pol cap ck at k entry s)"

definition isExpired :: "int \<Rightarrow> VersionedEntry \<Rightarrow> bool" where
  "isExpired now e \<longleftrightarrow> hasTtl e \<and> expires_at e \<le> now"

definition shardGet :: "'p Policy \<Rightarrow> int \<Rightarrow> Key \<Rightarrow> 'p ShardState \<Rightarrow> bytes option \<times> 'p ShardState" where
  "shardGet pol now k s =
     (case s of (sh, g) \<Rightarrow>
        (case sh_nodes sh k of
           None \<Rightarrow> (None, sh, g)
         | Some e \<Rightarrow>
             if isExpired now e then (None, eraseNode pol k e (sh, g))
             else if isTombstone e then (None, sh, g)
             else (Some (ve_value e), onAccess pol k sh, g)))"

definition shardGetVersioned :: "'p Policy \<Rightarrow> int \<Rightarrow> Key \<Rightarrow> 'p ShardState \<Rightarrow> VersionedEntry option \<times> 'p ShardState" where
  "shardGetVersioned pol now k s =
     (case s of (sh, g) \<Rightarrow>
        (case sh_nodes sh k of
           None \<Rightarrow> (None, sh, g)
         | Some e \<Rightarrow>
             if isExpired now e then (None, eraseNode pol k e (sh, g)) else (Some e, sh, g)))"

definition shardRemove :: "'p Policy \<Rightarrow> Key \<Rightarrow> 'p ShardState \<Rightarrow> bool \<times> 'p ShardState" where
  "shardRemove pol k s =
     (case s of (sh, g) \<Rightarrow>
        (case sh_nodes sh k of
           None \<Rightarrow> (False, sh, g)
         | Some e \<Rightarrow>
             let g = g\<lparr>wal_log := wal_log g @ [\<lparr>we_op = WalDel, we_key = k, we_value = [],
                   we_version = version e, we_writer = writer_node_hash e, we_expires_ms = 0,
                   we_has_ttl = False, we_tombstone = False\<rparr>]\<rparr>
             in (True, eraseNode pol k e (sh, g))))"

text \<open>
  The expiry callback of \<open>evictExpired\<close> works on a shard whose wheel is the one that is ticking.
  Its state also counts the evicted entries.
\<close>

definition expireCb :: "'p Policy \<Rightarrow> int \<Rightarrow> (Key, 'p ShardState \<times> nat) expiry_cb" where
  "expireCb pol current k st w =
     (case st of ((sh, g), evicted) \<Rightarrow>
        let sh = sh\<lparr>sh_wheel := w\<rparr> in
        case sh_nodes sh k of
          None \<Rightarrow> (((sh, g), evicted), w)
        | Some e \<Rightarrow>
            if \<not> hasTtl e \<or> expires_at e > current then
              (((sh, g), evicted), wheelInsert k (expiryTicksAt (expires_at e) current) w)
            else
              (case eraseNode pol k e (sh, g) of
                 (sh', g') \<Rightarrow> (((sh', g'), evicted + 1), sh_wheel sh')))"

definition shardTick :: "'p Policy \<Rightarrow> int \<Rightarrow> 'p ShardState \<times> nat \<Rightarrow> ('p ShardState \<times> nat) option" where
  "shardTick pol current st =
     map_option (\<lambda>(((sh, g), n), w). ((sh\<lparr>sh_wheel := w\<rparr>, g), n))
       (tick (expireCb pol current) st (sh_wheel (fst (fst st))))"

fun shardTicks :: "nat \<Rightarrow> 'p Policy \<Rightarrow> int \<Rightarrow> 'p ShardState \<times> nat \<Rightarrow> ('p ShardState \<times> nat) option" where
  "shardTicks 0 pol current st = Some st"
| "shardTicks (Suc n) pol current st =
     (case shardTick pol current st of None \<Rightarrow> None | Some st' \<Rightarrow> shardTicks n pol current st')"

definition shardEvictExpired :: "'p Policy \<Rightarrow> int \<Rightarrow> 'p ShardState \<times> nat \<Rightarrow> ('p ShardState \<times> nat) option" where
  "shardEvictExpired pol current st =
     (case st of ((sh, g), n) \<Rightarrow>
        let elapsed_ticks = floorSeconds (current - sh_last_evict sh);
            ticks = (if elapsed_ticks < 1 then 1 else nat elapsed_ticks)
        in shardTicks ticks pol current ((sh\<lparr>sh_last_evict := current\<rparr>, g), n))"

definition shardLive :: "int \<Rightarrow> 'p Shard \<Rightarrow> (Key \<times> VersionedEntry) list" where
  "shardLive now sh =
     concat (map (\<lambda>k. case sh_nodes sh k of
        None \<Rightarrow> [] | Some e \<Rightarrow> if isExpired now e then [] else [(k, e)]) (sh_list sh))"

end
