(* ===== verification/StoreContract.thy ===== *)
theory StoreContract
  imports Store
begin

text \<open>
  The invariants of a shard, the contract between the eviction base and its policies as the locale
  \<open>eviction_policy\<close>, and what every shard operation does under that contract: eviction, erasing,
  writing, reading, removing and the expiry sweep.
\<close>

section \<open>Invariants\<close>

definition bytes_of :: "'p Policy \<Rightarrow> (Key \<rightharpoonup> VersionedEntry) \<Rightarrow> nat" where
  "bytes_of pol nodes = (\<Sum>k \<in> dom nodes. case nodes k of None \<Rightarrow> 0 | Some e \<Rightarrow> nodeSize pol k e)"

definition ttl_keys :: "(Key \<rightharpoonup> VersionedEntry) \<Rightarrow> Key set" where
  "ttl_keys nodes = {k. \<exists>e. nodes k = Some e \<and> hasTtl e}"

definition shape :: "'p Shard \<Rightarrow> bool" where
  "shape sh \<longleftrightarrow> distinct (sh_list sh) \<and> set (sh_list sh) = dom (sh_nodes sh)"

text \<open>
  \<open>shard_base X\<close>: index and list agree, the byte count is exact, the wheel is well formed and,
  outside the keys \<open>X\<close> that an operation is working on, schedules exactly the entries with a TTL.
\<close>

definition shard_base :: "'p Policy \<Rightarrow> ('p Shard \<Rightarrow> bool) \<Rightarrow> Key set \<Rightarrow> 'p Shard \<Rightarrow> bool" where
  "shard_base pol pol_ok X sh \<longleftrightarrow> shape sh \<and> sh_bytes sh = bytes_of pol (sh_nodes sh)
     \<and> wheel_inv (sh_wheel sh)
     \<and> dom (deadline (sh_wheel sh)) - X = ttl_keys (sh_nodes sh) - X
     \<and> dom (deadline (sh_wheel sh)) \<subseteq> dom (sh_nodes sh) \<and> pol_ok sh"

definition shard_ok :: "'p Policy \<Rightarrow> ('p Shard \<Rightarrow> bool) \<Rightarrow> 'p Shard \<Rightarrow> bool" where
  "shard_ok pol pol_ok sh \<longleftrightarrow> shard_base pol pol_ok {} sh \<and> none_due (sh_wheel sh)"

text \<open>The global counters hold this shard's share plus \<open>a\<close> bytes and \<open>b\<close> entries of the others.\<close>

definition acct :: "nat \<Rightarrow> nat \<Rightarrow> 'p ShardState \<Rightarrow> bool" where
  "acct a b s \<longleftrightarrow> total_bytes (snd s) = sh_bytes (fst s) + a
     \<and> total_entries (snd s) = length (sh_list (fst s)) + b"

definition sameCore :: "'p Shard \<Rightarrow> 'p Shard \<Rightarrow> bool" where
  "sameCore sh sh' \<longleftrightarrow> sh_wheel sh' = sh_wheel sh \<and> sh_bytes sh' = sh_bytes sh
     \<and> sh_last_evict sh' = sh_last_evict sh"

lemma shape_finite: "shape sh \<Longrightarrow> finite (dom (sh_nodes sh))"
  by (metis shape_def finite_set)

lemma shape_empty: "shape sh \<Longrightarrow> sh_list sh = [] \<Longrightarrow> sh_nodes sh = Map.empty"
  using dom_eq_empty_conv [of "sh_nodes sh"] by (simp add: shape_def)

lemma shape_remove:
  assumes "shape sh" "sh_nodes sh k = Some e"
  shows "distinct (remove1 k (sh_list sh))" "set (remove1 k (sh_list sh)) = dom (sh_nodes sh) - {k}"
    "Suc (length (remove1 k (sh_list sh))) = length (sh_list sh)"
proof -
  have m: "k \<in> set (sh_list sh)" using assms by (auto simp: shape_def)
  then show "Suc (length (remove1 k (sh_list sh))) = length (sh_list sh)"
    by (simp add: length_remove1) (metis Suc_pred length_pos_if_in_set)
  show "distinct (remove1 k (sh_list sh))" "set (remove1 k (sh_list sh)) = dom (sh_nodes sh) - {k}"
    using assms by (auto simp: shape_def)
qed

lemma bytes_of_insert:
  assumes "finite (dom nodes)" "nodes k = None"
  shows "bytes_of pol (nodes(k \<mapsto> e)) = bytes_of pol nodes + nodeSize pol k e"
proof -
  have "(\<Sum>j \<in> dom nodes. case (nodes(k \<mapsto> e)) j of None \<Rightarrow> 0 | Some e \<Rightarrow> nodeSize pol j e) = bytes_of pol nodes"
    unfolding bytes_of_def using assms(2) by (intro sum.cong) auto
  moreover have "k \<notin> dom nodes" using assms(2) by auto
  ultimately show ?thesis using assms(1) by (simp add: bytes_of_def)
qed

lemma bytes_of_remove:
  assumes "finite (dom nodes)" "nodes k = Some e"
  shows "bytes_of pol nodes = bytes_of pol (nodes(k := None)) + nodeSize pol k e"
  using bytes_of_insert [of "nodes(k := None)" k pol e] assms by (simp add: map_upd_triv)

lemma bytes_of_overwrite:
  assumes "finite (dom nodes)" "nodes k = Some e0"
  shows "bytes_of pol (nodes(k \<mapsto> e)) + nodeSize pol k e0 = bytes_of pol nodes + nodeSize pol k e"
  using bytes_of_insert [of "nodes(k := None)" k pol e] bytes_of_remove [OF assms, of pol] assms(1) by simp

lemma shard_baseD:
  assumes "shard_base pol pol_ok X sh"
  shows "shape sh" "pol_ok sh" "wheel_inv (sh_wheel sh)" "sh_bytes sh = bytes_of pol (sh_nodes sh)"
    "dom (deadline (sh_wheel sh)) - X = ttl_keys (sh_nodes sh) - X"
    "dom (deadline (sh_wheel sh)) \<subseteq> dom (sh_nodes sh)"
  using assms by (simp_all add: shard_base_def)

section \<open>The policy contract\<close>

text \<open>
  What the base class asks of a policy: the hooks edit the list order, the node's entry and the
  policy's own state, and nothing else; \<open>evictOne\<close> removes one entry that is not a tombstone, or
  reports zero bytes when there is none.
\<close>

locale eviction_policy =
  fixes pol :: "'p Policy" and pol_ok :: "'p Shard \<Rightarrow> bool"
  assumes nodeBytes_pos: "0 < nodeBytes pol"
    and pol_ok_frame: "pol_ok (sh\<lparr>sh_wheel := w, sh_bytes := n, sh_last_evict := t\<rparr>) \<longleftrightarrow> pol_ok sh"
    and applyExisting_law: "shape sh \<Longrightarrow> pol_ok sh \<Longrightarrow> sh_nodes sh k = Some e0 \<Longrightarrow>
      sh_nodes (applyExisting pol k e sh) = (sh_nodes sh)(k \<mapsto> e)
      \<and> mset (sh_list (applyExisting pol k e sh)) = mset (sh_list sh)
      \<and> sameCore sh (applyExisting pol k e sh) \<and> pol_ok (applyExisting pol k e sh)"
    and insertNew_law: "shape sh \<Longrightarrow> pol_ok sh \<Longrightarrow> sh_nodes sh k = None \<Longrightarrow>
      sh_nodes (insertNew pol k e sh) = (sh_nodes sh)(k \<mapsto> e)
      \<and> sh_list (insertNew pol k e sh) = k # sh_list sh
      \<and> sameCore sh (insertNew pol k e sh) \<and> pol_ok (insertNew pol k e sh)"
    and onAccess_law: "shape sh \<Longrightarrow> pol_ok sh \<Longrightarrow> sh_nodes sh k = Some e \<Longrightarrow>
      sh_nodes (onAccess pol k sh) = sh_nodes sh \<and> mset (sh_list (onAccess pol k sh)) = mset (sh_list sh)
      \<and> sameCore sh (onAccess pol k sh) \<and> pol_ok (onAccess pol k sh)"
    and onEvictExpired_wheel: "sh_wheel (onEvictExpired pol k sh) = sh_wheel sh"
    and onEvictExpired_law: "shape sh \<Longrightarrow> pol_ok sh \<Longrightarrow> sh_nodes sh k = Some e \<Longrightarrow>
      sh_nodes (onEvictExpired pol k sh) = sh_nodes sh \<and> sh_list (onEvictExpired pol k sh) = sh_list sh
      \<and> sameCore sh (onEvictExpired pol k sh)
      \<and> pol_ok ((onEvictExpired pol k sh)\<lparr>sh_list := remove1 k (sh_list sh), sh_nodes := (sh_nodes sh)(k := None)\<rparr>)"
    and evictOne_law: "shape sh \<Longrightarrow> pol_ok sh \<Longrightarrow> evictOne pol (sh, g) = (freed, sh', g') \<Longrightarrow>
      (freed = 0 \<and> sh' = sh \<and> g' = g \<and> (\<forall>k e. sh_nodes sh k = Some e \<longrightarrow> isTombstone e))
      \<or> (\<exists>k e. sh_nodes sh k = Some e \<and> \<not> isTombstone e \<and> freed = nodeSize pol k e
          \<and> sh_nodes sh' = (sh_nodes sh)(k := None) \<and> sh_list sh' = remove1 k (sh_list sh)
          \<and> sh_wheel sh' = wheelRemove k (sh_wheel sh) \<and> sh_bytes sh' = sh_bytes sh
          \<and> sh_last_evict sh' = sh_last_evict sh \<and> pol_ok sh' \<and> g' = noteRemoved k e g)"
begin

lemma nodeSize_pos: "0 < nodeSize pol k e"
  using nodeBytes_pos by (simp add: nodeSize_def)

lemma pol_ok_wheel [simp]: "pol_ok (sh\<lparr>sh_wheel := w\<rparr>) \<longleftrightarrow> pol_ok sh"
  using pol_ok_frame [where sh = sh and w = w and n = "sh_bytes sh" and t = "sh_last_evict sh"] by simp

lemma pol_ok_bytes [simp]: "pol_ok (sh\<lparr>sh_bytes := n\<rparr>) \<longleftrightarrow> pol_ok sh"
  using pol_ok_frame [where sh = sh and w = "sh_wheel sh" and n = n and t = "sh_last_evict sh"] by simp

lemma pol_ok_last [simp]: "pol_ok (sh\<lparr>sh_last_evict := t\<rparr>) \<longleftrightarrow> pol_ok sh"
  using pol_ok_frame [where sh = sh and w = "sh_wheel sh" and n = "sh_bytes sh" and t = t] by simp

lemma shard_base_dropped:
  assumes "shard_base pol pol_ok X sh" "sh_nodes sh k = Some e"
    and "sh_nodes sh' = (sh_nodes sh)(k := None)" "sh_list sh' = remove1 k (sh_list sh)"
    and "sh_wheel sh' = wheelRemove k (sh_wheel sh)" "sh_bytes sh' = sh_bytes sh - nodeSize pol k e" "pol_ok sh'"
  shows "shard_base pol pol_ok (X - {k}) sh'" "sh_bytes sh = sh_bytes sh' + nodeSize pol k e"
    "Suc (length (sh_list sh')) = length (sh_list sh)"
proof -
  have sh: "shape sh" and w: "wheel_inv (sh_wheel sh)" and b: "sh_bytes sh = bytes_of pol (sh_nodes sh)"
    using assms(1) by (simp_all add: shard_base_def)
  note r = wheelRemove_inv [OF w, of k]
  have "bytes_of pol (sh_nodes sh) = bytes_of pol (sh_nodes sh') + nodeSize pol k e"
    using bytes_of_remove [OF shape_finite [OF sh] assms(2)] by (simp add: assms(3))
  then show bs: "sh_bytes sh = sh_bytes sh' + nodeSize pol k e" by (simp add: assms(6) b)
  show "Suc (length (sh_list sh')) = length (sh_list sh)"
    using shape_remove(3) [OF sh assms(2)] by (simp add: assms(4))
  have "shape sh'" using shape_remove [OF sh assms(2)] by (auto simp: shape_def assms(3,4))
  moreover have "sh_bytes sh' = bytes_of pol (sh_nodes sh')"
    using bs b bytes_of_remove [OF shape_finite [OF sh] assms(2), of pol] by (simp add: assms(3))
  moreover have "dom (deadline (sh_wheel sh')) = dom (deadline (sh_wheel sh)) - {k}"
    by (simp add: assms(5) r)
  moreover have "ttl_keys (sh_nodes sh') = ttl_keys (sh_nodes sh) - {k}"
    by (auto simp: ttl_keys_def assms(3) split: if_splits)
  moreover have "dom (deadline (sh_wheel sh)) - {k} - (X - {k}) = ttl_keys (sh_nodes sh) - {k} - (X - {k})"
    "dom (deadline (sh_wheel sh)) \<subseteq> dom (sh_nodes sh)"
    using assms(1) unfolding shard_base_def by blast+
  moreover have "dom (sh_nodes sh') = dom (sh_nodes sh) - {k}" by (simp add: assms(3))
  ultimately show "shard_base pol pol_ok (X - {k}) sh'"
    using assms(7) r(1) unfolding shard_base_def assms(5) by (simp add: Diff_mono)
qed

lemma shard_base_mono: "shard_base pol pol_ok X sh \<Longrightarrow> X \<subseteq> Y \<Longrightarrow> shard_base pol pol_ok Y sh"
  by (auto simp: shard_base_def)

end

text \<open>What an eviction run does: it removes the listed keys, none of them a tombstone, and reports each.\<close>

definition remEvent :: "Key \<Rightarrow> VersionedEntry \<Rightarrow> MutEvent" where
  "remEvent k e = \<lparr>me_key = k, me_version_and_ttl = version_and_ttl e,
     me_writer = writer_node_hash e, me_removed = True\<rparr>"

definition addEvent :: "Key \<Rightarrow> VersionedEntry \<Rightarrow> MutEvent" where
  "addEvent k e = \<lparr>me_key = k, me_version_and_ttl = version_and_ttl e,
     me_writer = writer_node_hash e, me_removed = False\<rparr>"

lemma note_events:
  "noteRemoved k e g = g\<lparr>mut_log := mut_log g @ [remEvent k e]\<rparr>"
  "noteAdded k e g = g\<lparr>mut_log := mut_log g @ [addEvent k e]\<rparr>"
  by (simp_all add: noteRemoved_def noteAdded_def remEvent_def addEvent_def)

definition entryAt :: "'p Shard \<Rightarrow> Key \<Rightarrow> VersionedEntry" where
  "entryAt sh k = (case sh_nodes sh k of None \<Rightarrow> emptyEntry | Some e \<Rightarrow> e)"

definition evictedBy :: "Key list \<Rightarrow> 'p ShardState \<Rightarrow> 'p ShardState \<Rightarrow> bool" where
  "evictedBy ks s s' \<longleftrightarrow> distinct ks \<and> set ks \<subseteq> dom (sh_nodes (fst s))
     \<and> (\<forall>k \<in> set ks. \<not> isTombstone (entryAt (fst s) k))
     \<and> sh_nodes (fst s') = sh_nodes (fst s) |` (- set ks)
     \<and> sh_list (fst s') = filter (\<lambda>k. k \<notin> set ks) (sh_list (fst s))
     \<and> deadline (sh_wheel (fst s')) = deadline (sh_wheel (fst s)) |` (- set ks)
     \<and> tick_count (sh_wheel (fst s')) = tick_count (sh_wheel (fst s))
     \<and> sh_last_evict (fst s') = sh_last_evict (fst s)
     \<and> mut_log (snd s') = mut_log (snd s) @ map (\<lambda>k. remEvent k (entryAt (fst s) k)) ks
     \<and> wal_log (snd s') = wal_log (snd s) \<and> next_version (snd s') = next_version (snd s)
     \<and> capacity_bytes (snd s') = capacity_bytes (snd s) \<and> tombstone_gc (snd s') = tombstone_gc (snd s)"

lemma evictedBy_refl: "evictedBy [] s s"
  by (simp add: evictedBy_def restrict_map_def fun_eq_iff)

lemma compl_Cons: "- {k} \<inter> - A = - insert k A"
  by auto

lemma evictedBy_Cons:
  assumes "evictedBy [k] s s1" "evictedBy ks s1 s2"
  shows "evictedBy (k # ks) s s2"
proof -
  note [simp] = compl_Cons
  have 1: "sh_nodes (fst s1) = sh_nodes (fst s) |` (- {k})" "k \<in> dom (sh_nodes (fst s))"
    "\<not> isTombstone (entryAt (fst s) k)" "sh_list (fst s1) = filter (\<lambda>j. j \<noteq> k) (sh_list (fst s))"
    "deadline (sh_wheel (fst s1)) = deadline (sh_wheel (fst s)) |` (- {k})"
    using assms(1) by (simp_all add: evictedBy_def)
  have 2: "distinct ks" "set ks \<subseteq> dom (sh_nodes (fst s1))" "\<forall>j \<in> set ks. \<not> isTombstone (entryAt (fst s1) j)"
    using assms(2) by (simp_all add: evictedBy_def)
  have k: "k \<notin> set ks" using 2(2) 1(1) by auto
  have ent: "entryAt (fst s1) j = entryAt (fst s) j" if "j \<in> set ks" for j
  proof -
    have "j \<noteq> k" using that k by auto
    then show ?thesis by (simp add: entryAt_def 1(1))
  qed
  then have ev: "map (\<lambda>j. remEvent j (entryAt (fst s1) j)) ks = map (\<lambda>j. remEvent j (entryAt (fst s) j)) ks"
    by simp
  have "set (k # ks) \<subseteq> dom (sh_nodes (fst s))" using 1(1,2) 2(2) by auto
  moreover have "\<forall>j \<in> set (k # ks). \<not> isTombstone (entryAt (fst s) j)" using 1(3) 2(3) ent by auto
  moreover have "sh_list (fst s2) = filter (\<lambda>j. j \<notin> set (k # ks)) (sh_list (fst s))"
    using assms(2) 1(4) by (simp add: evictedBy_def filter_filter)
  ultimately show ?thesis
    using assms 1 2(1) k ev by (simp add: evictedBy_def)
qed

definition evictPost :: "'p Policy \<Rightarrow> ('p Shard \<Rightarrow> bool) \<Rightarrow> Key set \<Rightarrow> nat \<Rightarrow> nat \<Rightarrow> nat \<Rightarrow>
    'p ShardState \<Rightarrow> 'p ShardState \<Rightarrow> bool" where
  "evictPost pol pol_ok X a b cap s s' \<longleftrightarrow>
     (\<exists>ks. evictedBy ks s s' \<and> shard_base pol pol_ok (X - set ks) (fst s') \<and> acct a b s'
       \<and> (sh_bytes (fst s') \<le> cap \<or> (\<forall>k e. sh_nodes (fst s') k = Some e \<longrightarrow> isTombstone e))
       \<and> (sh_bytes (fst s) \<le> cap \<longrightarrow> ks = []))"

context eviction_policy
begin

lemma evict_step:
  assumes "shard_base pol pol_ok X sh" "evictOne pol (sh, g) = (freed, sh', g')" "freed \<noteq> 0" "acct a b (sh, g)"
  defines "s2 \<equiv> (sh'\<lparr>sh_bytes := sh_bytes sh' - freed\<rparr>,
    g'\<lparr>total_bytes := total_bytes g' - freed, total_entries := total_entries g' - 1\<rparr>)"
  obtains k where "evictedBy [k] (sh, g) s2" "shard_base pol pol_ok (X - {k}) (fst s2)" "acct a b s2"
    "Suc (length (sh_list (fst s2))) = length (sh_list sh)"
proof -
  have sh: "shape sh" "pol_ok sh" and w: "wheel_inv (sh_wheel sh)"
    using assms(1) by (simp_all add: shard_base_def)
  obtain k e where k: "sh_nodes sh k = Some e" "\<not> isTombstone e" "freed = nodeSize pol k e"
    "sh_nodes sh' = (sh_nodes sh)(k := None)" "sh_list sh' = remove1 k (sh_list sh)"
    "sh_wheel sh' = wheelRemove k (sh_wheel sh)" "sh_bytes sh' = sh_bytes sh"
    "sh_last_evict sh' = sh_last_evict sh" "pol_ok sh'" "g' = noteRemoved k e g"
    using evictOne_law [OF sh assms(2)] assms(3) by auto
  note d = shard_base_dropped [OF assms(1) k(1), of "fst s2"]
  have l: "remove1 k (sh_list sh) = filter (\<lambda>j. j \<noteq> k) (sh_list sh)"
    using sh(1) by (simp add: shape_def distinct_remove1_removeAll removeAll_filter_not_eq)
      (metis (mono_tags, lifting) filter_cong)
  have "evictedBy [k] (sh, g) s2"
    using k by (simp add: evictedBy_def s2_def entryAt_def wheelRemove_inv [OF w] note_events l
        dom_def) (simp add: restrict_map_def fun_eq_iff)
  moreover have "shard_base pol pol_ok (X - {k}) (fst s2)"
    "Suc (length (sh_list (fst s2))) = length (sh_list sh)" "sh_bytes sh = sh_bytes (fst s2) + nodeSize pol k e"
    using d k by (simp_all add: s2_def)
  moreover from this have "acct a b s2"
    using assms(4) k(3,5,10) by (simp add: acct_def s2_def note_events)
  ultimately show ?thesis using that by blast
qed

lemma evictPost_stop:
  assumes "shard_base pol pol_ok X (fst s)" "acct a b s"
    and "sh_bytes (fst s) \<le> cap \<or> (\<forall>k e. sh_nodes (fst s) k = Some e \<longrightarrow> isTombstone e)"
  shows "evictPost pol pol_ok X a b cap s s"
  unfolding evictPost_def using assms evictedBy_refl [of s] by (intro exI [of _ "[]"]) simp

lemma evictPost_step:
  assumes "evictedBy [k] s s1" "evictPost pol pol_ok (X - {k}) a b cap s1 s2" "cap < sh_bytes (fst s)"
  shows "evictPost pol pol_ok X a b cap s s2"
proof -
  from assms(2) obtain ks where "evictedBy ks s1 s2" "shard_base pol pol_ok (X - {k} - set ks) (fst s2)"
    "acct a b s2" "sh_bytes (fst s2) \<le> cap \<or> (\<forall>k e. sh_nodes (fst s2) k = Some e \<longrightarrow> isTombstone e)"
    unfolding evictPost_def by blast
  moreover have "X - {k} - set ks = X - set (k # ks)" by auto
  ultimately show ?thesis
    unfolding evictPost_def using evictedBy_Cons [OF assms(1)] assms(3) by (intro exI [of _ "k # ks"]) simp
qed

lemma evictLoop_correct:
  "length (sh_list (fst s)) \<le> n \<Longrightarrow> shard_base pol pol_ok X (fst s) \<Longrightarrow> acct a b s \<Longrightarrow>
   evictPost pol pol_ok X a b cap s (evictLoop n pol cap s)"
proof (induction n arbitrary: s X)
  case 0
  then have "sh_nodes (fst s) = Map.empty" using shape_empty [OF shard_baseD(1) [OF 0(2)]] by simp
  then show ?case using evictPost_stop [OF 0(2,3)] by simp
next
  case (Suc n)
  obtain sh g where s: "s = (sh, g)" by (cases s)
  show ?case
  proof (cases "sh_bytes sh > cap \<and> sh_list sh \<noteq> []")
    case False
    then have "sh_bytes (fst s) \<le> cap \<or> (\<forall>k e. sh_nodes (fst s) k = Some e \<longrightarrow> isTombstone e)"
      using shape_empty [OF shard_baseD(1) [OF Suc.prems(2)]] by (auto simp: s)
    moreover have "evictLoop (Suc n) pol cap s = s" using False by (auto simp: s)
    ultimately show ?thesis using evictPost_stop [OF Suc.prems(2,3)] by simp
  next
    case True
    obtain freed sh' g' where e: "evictOne pol (sh, g) = (freed, sh', g')" by (metis prod_cases3)
    show ?thesis
    proof (cases "freed = 0")
      case zero: True
      have "shape sh" "pol_ok sh" using shard_baseD(1,2) [OF Suc.prems(2)] by (simp_all add: s)
      from evictOne_law [OF this e] zero nodeSize_pos
      have "sh' = sh \<and> g' = g \<and> (\<forall>k e. sh_nodes sh k = Some e \<longrightarrow> isTombstone e)"
        by (metis less_irrefl)
      then show ?thesis
        using True zero e evictPost_stop [OF Suc.prems(2,3)] by (simp add: s)
    next
      case False
      define s2 where "s2 = (sh'\<lparr>sh_bytes := sh_bytes sh' - freed\<rparr>,
        g'\<lparr>total_bytes := total_bytes g' - freed, total_entries := total_entries g' - 1\<rparr>)"
      obtain k where k: "evictedBy [k] s s2" "shard_base pol pol_ok (X - {k}) (fst s2)" "acct a b s2"
        "Suc (length (sh_list (fst s2))) = length (sh_list sh)"
        using evict_step [OF Suc.prems(2) [unfolded s fst_conv] e False Suc.prems(3) [unfolded s]]
        unfolding s2_def s by blast
      have "evictLoop (Suc n) pol cap s = evictLoop n pol cap s2"
        using True e False by (simp add: s2_def s)
      moreover have "length (sh_list (fst s2)) \<le> n" using k(4) Suc.prems(1) by (simp add: s)
      ultimately show ?thesis
        using evictPost_step [OF k(1) Suc.IH [OF _ k(2,3)]] True by (simp add: s)
    qed
  qed
qed

lemma evictIfNeeded_correct:
  "shard_base pol pol_ok X (fst s) \<Longrightarrow> acct a b s \<Longrightarrow>
   evictPost pol pol_ok X a b cap s (evictIfNeeded pol cap s)"
  by (simp add: evictIfNeeded_def evictLoop_correct)

lemma eraseNode_correct:
  assumes "shard_base pol pol_ok X sh" "sh_nodes sh k = Some e" "acct a b (sh, g)"
    and "eraseNode pol k e (sh, g) = (sh', g')"
  shows "shard_base pol pol_ok (X - {k}) sh'" "acct a b (sh', g')"
    "sh_nodes sh' = (sh_nodes sh)(k := None)" "deadline (sh_wheel sh') = (deadline (sh_wheel sh))(k := None)"
    "clockOf (sh_wheel sh') = clockOf (sh_wheel sh)" "sh_last_evict sh' = sh_last_evict sh"
    "g' = g\<lparr>mut_log := mut_log g @ [remEvent k e], total_bytes := total_bytes g - nodeSize pol k e,
       total_entries := total_entries g - 1\<rparr>"
    "sh_wheel sh' = wheelRemove k (sh_wheel sh)" "Suc (length (sh_list sh')) = length (sh_list sh)"
proof -
  note d = shard_baseD [OF assms(1)]
  note law = onEvictExpired_law [OF d(1,2) assms(2)]
  have sh': "sh_nodes sh' = (sh_nodes sh)(k := None)" "sh_list sh' = remove1 k (sh_list sh)"
    "sh_wheel sh' = wheelRemove k (sh_wheel sh)" "sh_bytes sh' = sh_bytes sh - nodeSize pol k e"
    "sh_last_evict sh' = sh_last_evict sh"
    and g': "g' = g\<lparr>mut_log := mut_log g @ [remEvent k e], total_bytes := total_bytes g - nodeSize pol k e,
       total_entries := total_entries g - 1\<rparr>"
    using assms(4) law by (auto simp: eraseNode_def Let_def note_events sameCore_def)
  have "pol_ok sh'"
  proof -
    let ?h = "(onEvictExpired pol k sh)\<lparr>sh_list := remove1 k (sh_list sh), sh_nodes := (sh_nodes sh)(k := None)\<rparr>"
    have "sh' = ?h\<lparr>sh_wheel := sh_wheel sh', sh_bytes := sh_bytes sh'\<rparr>"
      using assms(4) law by (auto simp: eraseNode_def Let_def sameCore_def)
    moreover have "pol_ok ?h" using law by blast
    ultimately show ?thesis using pol_ok_wheel pol_ok_bytes by metis
  qed
  note dr = shard_base_dropped [OF assms(1,2) sh'(1-4) this]
  show "shard_base pol pol_ok (X - {k}) sh'" "Suc (length (sh_list sh')) = length (sh_list sh)" by (rule dr)+
  show "acct a b (sh', g')" using dr(2,3) assms(3) by (simp add: acct_def g')
  show "sh_nodes sh' = (sh_nodes sh)(k := None)" "deadline (sh_wheel sh') = (deadline (sh_wheel sh))(k := None)"
    "clockOf (sh_wheel sh') = clockOf (sh_wheel sh)" "sh_last_evict sh' = sh_last_evict sh"
    "g' = g\<lparr>mut_log := mut_log g @ [remEvent k e], total_bytes := total_bytes g - nodeSize pol k e,
       total_entries := total_entries g - 1\<rparr>" "sh_wheel sh' = wheelRemove k (sh_wheel sh)"
    using sh' g' by (simp_all add: wheelRemove_inv [OF d(3)] clockOf_def)
qed

lemma expiryTicks_pos: "1 \<le> expiryTicksAt t at"
  by (auto simp: expiryTicksAt_def Let_def)

lemma updateWheelAt_correct:
  assumes "shard_base pol pol_ok {k} sh" "sh_nodes sh k = Some e" "none_due (sh_wheel sh)"
  shows "shard_ok pol pol_ok (updateWheelAt k at sh)"
    "sh_nodes (updateWheelAt k at sh) = sh_nodes sh" "sh_list (updateWheelAt k at sh) = sh_list sh"
    "sh_bytes (updateWheelAt k at sh) = sh_bytes sh"
proof -
  note d = shard_baseD [OF assms(1)]
  let ?w = "if hasTtl e then wheelInsert k (expiryTicksAt (expires_at e) at) (sh_wheel sh) else wheelRemove k (sh_wheel sh)"
  have u: "updateWheelAt k at sh = sh\<lparr>sh_wheel := ?w\<rparr>" by (simp add: updateWheelAt_def assms(2))
  have w: "wheel_inv ?w" "none_due ?w"
    using d(3) assms(3) expiryTicks_pos by (simp_all add: wheelInsert_inv wheelRemove_inv insert_none_due remove_none_due)
  have "dom (deadline ?w) = (if hasTtl e then insert k (dom (deadline (sh_wheel sh))) else dom (deadline (sh_wheel sh)) - {k})"
    using d(3) expiryTicks_pos by (simp add: wheelInsert_inv wheelRemove_inv)
  moreover have "k \<in> ttl_keys (sh_nodes sh) \<longleftrightarrow> hasTtl e" by (simp add: ttl_keys_def assms(2))
  moreover have "k \<in> dom (sh_nodes sh)" using assms(2) by auto
  ultimately have "dom (deadline ?w) = ttl_keys (sh_nodes sh)" "dom (deadline ?w) \<subseteq> dom (sh_nodes sh)"
    using d(5,6) by (cases "hasTtl e"; simp; blast)+
  then show "shard_ok pol pol_ok (updateWheelAt k at sh)"
    using d w by (simp add: shard_ok_def shard_base_def u shape_def)
  show "sh_nodes (updateWheelAt k at sh) = sh_nodes sh" "sh_list (updateWheelAt k at sh) = sh_list sh"
    "sh_bytes (updateWheelAt k at sh) = sh_bytes sh" by (simp_all add: u)
qed

end

text \<open>
  The specification of an accepted write of \<open>e\<close> at \<open>k\<close>: the entry is stored, then the keys \<open>ks\<close> are
  evicted to fit the capacity, and the observers see the evictions, the outgoing entry, and, if the
  key survived, the new entry and its log record.
\<close>

definition putApplied :: "nat \<Rightarrow> Clock \<Rightarrow> Key \<Rightarrow> VersionedEntry \<Rightarrow> Key list \<Rightarrow> 'p ShardState \<Rightarrow> 'p ShardState \<Rightarrow> bool" where
  "putApplied cap ck k e ks s s' \<longleftrightarrow>
     (let m = (sh_nodes (fst s))(k \<mapsto> e); ent = (\<lambda>j. case m j of None \<Rightarrow> emptyEntry | Some e \<Rightarrow> e) in
      distinct ks \<and> set ks \<subseteq> dom m \<and> (\<forall>j \<in> set ks. \<not> isTombstone (ent j))
      \<and> sh_nodes (fst s') = m |` (- set ks)
      \<and> (sh_bytes (fst s') \<le> cap \<or> (\<forall>j e. sh_nodes (fst s') j = Some e \<longrightarrow> isTombstone e))
      \<and> mut_log (snd s') = mut_log (snd s) @ map (\<lambda>j. remEvent j (ent j)) ks
          @ (case sh_nodes (fst s) k of None \<Rightarrow> [] | Some e0 \<Rightarrow> [remEvent k e0])
          @ (if k \<in> set ks then [] else [addEvent k e])
      \<and> wal_log (snd s') = wal_log (snd s) @ (if k \<in> set ks then [] else [walSetEntry ck k e])
      \<and> next_version (snd s') = max (next_version (snd s)) (version e + 1)
      \<and> sh_last_evict (fst s') = sh_last_evict (fst s)
      \<and> capacity_bytes (snd s') = capacity_bytes (snd s) \<and> tombstone_gc (snd s') = tombstone_gc (snd s))"

lemma none_due_restrict:
  assumes "wheel_inv w" "none_due w" "wheel_inv w'" "deadline w' = deadline w |` A" "tick_count w' = tick_count w"
  shows "none_due w'"
proof -
  have "due w' \<subseteq> due w" by (auto simp: due_def assms(4,5) restrict_map_def split: if_splits)
  then show ?thesis using assms(1-3) by (simp add: none_due_iff)
qed

lemma observeVersion_eq: "observeVersion v g = g\<lparr>next_version := max (next_version g) v\<rparr>"
  by (simp add: observeVersion_def max_def)

context eviction_policy
begin

text \<open>
  The common tail of both write paths: from a shard that already holds the new entry, with its
  wheel schedule still the old one, evict and then publish what is left.
\<close>

lemma put_tail:
  assumes "shard_base pol pol_ok {k} (fst s)" "none_due (sh_wheel (fst s))" "acct a b s"
    and "sh_nodes (fst s) k = Some e" "evictIfNeeded pol cap s = (sh1, g1)"
  obtains ks where "evictedBy ks s (sh1, g1)" "acct a b (sh1, g1)"
    "sh_bytes sh1 \<le> cap \<or> (\<forall>j e. sh_nodes sh1 j = Some e \<longrightarrow> isTombstone e)"
    "k \<in> set ks \<Longrightarrow> sh_nodes sh1 k = None \<and> shard_ok pol pol_ok sh1"
    "k \<notin> set ks \<Longrightarrow> sh_nodes sh1 k = Some e \<and> shard_ok pol pol_ok (updateWheelAt k at sh1)"
proof -
  have "evictPost pol pol_ok {k} a b cap s (sh1, g1)"
    using evictIfNeeded_correct [OF assms(1,3)] assms(5) by metis
  then obtain ks where ks: "evictedBy ks s (sh1, g1)" "shard_base pol pol_ok ({k} - set ks) sh1" "acct a b (sh1, g1)"
    "sh_bytes sh1 \<le> cap \<or> (\<forall>j e. sh_nodes sh1 j = Some e \<longrightarrow> isTombstone e)"
    unfolding evictPost_def by auto
  have n: "sh_nodes sh1 = sh_nodes (fst s) |` (- set ks)" using ks(1) by (simp add: evictedBy_def)
  have nd: "none_due (sh_wheel sh1)"
    using none_due_restrict [OF shard_baseD(3) [OF assms(1)] assms(2) shard_baseD(3) [OF ks(2)], of "- set ks"] ks(1)
    by (simp add: evictedBy_def)
  show ?thesis
  proof (rule that [OF ks(1,3,4)])
    assume k: "k \<in> set ks"
    then have "{k} - set ks = {}" by blast
    with ks(2) nd k n show "sh_nodes sh1 k = None \<and> shard_ok pol pol_ok sh1"
      by (simp add: shard_ok_def)
  next
    assume k: "k \<notin> set ks"
    then have "sh_nodes sh1 k = Some e" using n assms(4) by simp
    moreover have "{k} - set ks = {k}" using k by blast
    ultimately show "sh_nodes sh1 k = Some e \<and> shard_ok pol pol_ok (updateWheelAt k at sh1)"
      using updateWheelAt_correct(1) [of k sh1 e at] ks(2) nd by simp
  qed
qed

lemma putApplied_evicted:
  assumes "evictedBy ks (sh0, g0) (sh1, g1)" "k \<in> set ks"
    and "sh_nodes sh0 = (sh_nodes sh)(k \<mapsto> e)" "mut_log g0 = mut_log g" "wal_log g0 = wal_log g"
    and "next_version g0 = max (next_version g) (version e + 1)" "sh_last_evict sh0 = sh_last_evict sh"
    and "capacity_bytes g0 = capacity_bytes g" "tombstone_gc g0 = tombstone_gc g"
    and "sh_bytes sh1 \<le> cap \<or> (\<forall>j e. sh_nodes sh1 j = Some e \<longrightarrow> isTombstone e)"
    and "g2 = g1\<lparr>mut_log := mut_log g1 @ (case sh_nodes sh k of None \<Rightarrow> [] | Some e0 \<Rightarrow> [remEvent k e0])\<rparr>"
  shows "putApplied cap ck k e ks (sh, g) (sh1, g2)"
  using assms by (simp add: putApplied_def evictedBy_def entryAt_def Let_def)

lemma putApplied_kept:
  assumes "evictedBy ks (sh0, g0) (sh1, g1)" "k \<notin> set ks"
    and "sh_nodes sh0 = (sh_nodes sh)(k \<mapsto> e)" "mut_log g0 = mut_log g" "wal_log g0 = wal_log g"
    and "next_version g0 = max (next_version g) (version e + 1)" "sh_last_evict sh0 = sh_last_evict sh"
    and "capacity_bytes g0 = capacity_bytes g" "tombstone_gc g0 = tombstone_gc g"
    and "sh_bytes sh1 \<le> cap \<or> (\<forall>j e. sh_nodes sh1 j = Some e \<longrightarrow> isTombstone e)"
    and "g2 = g1\<lparr>mut_log := mut_log g1 @ (case sh_nodes sh k of None \<Rightarrow> [] | Some e0 \<Rightarrow> [remEvent k e0]) @ [addEvent k e],
      wal_log := wal_log g1 @ [walSetEntry ck k e]\<rparr>"
    and "sh_nodes sh2 = sh_nodes sh1" "sh_bytes sh2 = sh_bytes sh1" "sh_last_evict sh2 = sh_last_evict sh1"
  shows "putApplied cap ck k e ks (sh, g) (sh2, g2)"
  using assms by (simp add: putApplied_def evictedBy_def entryAt_def Let_def)

lemma ttl_keys_upd: "ttl_keys (m(k := v)) - {k} = ttl_keys m - {k}"
  by (auto simp: ttl_keys_def)

lemma mid_existing:
  fixes e :: VersionedEntry
  assumes "shard_ok pol pol_ok sh" "sh_nodes sh k = Some e0"
  defines "sh1 \<equiv> applyExisting pol k e (sh\<lparr>sh_bytes := sh_bytes sh - nodeSize pol k e0\<rparr>)"
  defines "sh0 \<equiv> sh1\<lparr>sh_bytes := sh_bytes sh1 + nodeSize pol k e\<rparr>"
  shows "shard_base pol pol_ok {k} sh0" "none_due (sh_wheel sh0)" "sh_nodes sh0 = (sh_nodes sh)(k \<mapsto> e)"
    "length (sh_list sh0) = length (sh_list sh)" "sh_bytes sh0 + nodeSize pol k e0 = sh_bytes sh + nodeSize pol k e"
    "nodeSize pol k e0 \<le> sh_bytes sh" "sh_last_evict sh0 = sh_last_evict sh"
proof -
  note d = shard_baseD [OF assms(1) [unfolded shard_ok_def, THEN conjunct1]]
  let ?h = "sh\<lparr>sh_bytes := sh_bytes sh - nodeSize pol k e0\<rparr>"
  have "shape ?h" "pol_ok ?h" "sh_nodes ?h k = Some e0" using d(1,2) assms(2) by (simp_all add: shape_def)
  note law = applyExisting_law [OF this, of e, folded sh1_def]
  have l: "mset (sh_list sh0) = mset (sh_list sh)" "sh_wheel sh0 = sh_wheel sh"
    using law by (simp_all add: sh0_def sameCore_def)
  show n: "sh_nodes sh0 = (sh_nodes sh)(k \<mapsto> e)" "sh_last_evict sh0 = sh_last_evict sh"
    using law by (simp_all add: sh0_def sameCore_def)
  show "length (sh_list sh0) = length (sh_list sh)" using l(1) by (rule mset_eq_length)
  have dom: "dom (sh_nodes sh0) = dom (sh_nodes sh)" using n(1) assms(2) by auto
  have "shape sh0"
    using d(1) l(1) mset_eq_imp_distinct_iff [OF l(1)] mset_eq_setD [OF l(1)] by (simp add: shape_def dom)
  show old: "nodeSize pol k e0 \<le> sh_bytes sh"
    using bytes_of_remove [OF shape_finite [OF d(1)] assms(2), of pol] by (simp add: d(4))
  have b: "sh_bytes sh0 = sh_bytes sh - nodeSize pol k e0 + nodeSize pol k e"
    using law by (simp add: sh0_def sameCore_def)
  then show bs: "sh_bytes sh0 + nodeSize pol k e0 = sh_bytes sh + nodeSize pol k e" using old by simp
  have "sh_bytes sh0 = bytes_of pol (sh_nodes sh0)"
    using bytes_of_overwrite [OF shape_finite [OF d(1)] assms(2), of pol e] bs d(4) by (simp add: n(1))
  moreover have "pol_ok sh0" using law by (simp add: sh0_def)
  ultimately show "shard_base pol pol_ok {k} sh0"
    using \<open>shape sh0\<close> d(3,5,6) unfolding shard_base_def l(2) n(1)
    by (simp add: ttl_keys_upd) (use dom n(1) in auto)
  show "none_due (sh_wheel sh0)" using assms(1) by (simp add: l(2) shard_ok_def)
qed

lemma mid_new:
  fixes e :: VersionedEntry
  assumes "shard_ok pol pol_ok sh" "sh_nodes sh k = None"
  defines "sh1 \<equiv> insertNew pol k e sh"
  defines "sh0 \<equiv> sh1\<lparr>sh_bytes := sh_bytes sh1 + nodeSize pol k e\<rparr>"
  shows "shard_base pol pol_ok {k} sh0" "none_due (sh_wheel sh0)" "sh_nodes sh0 = (sh_nodes sh)(k \<mapsto> e)"
    "sh_list sh0 = k # sh_list sh" "sh_bytes sh0 = sh_bytes sh + nodeSize pol k e"
    "sh_last_evict sh0 = sh_last_evict sh"
proof -
  note d = shard_baseD [OF assms(1) [unfolded shard_ok_def, THEN conjunct1]]
  note law = insertNew_law [OF d(1,2) assms(2), of e, folded sh1_def]
  have w: "sh_wheel sh0 = sh_wheel sh" using law by (simp add: sh0_def sameCore_def)
  show n: "sh_nodes sh0 = (sh_nodes sh)(k \<mapsto> e)" "sh_list sh0 = k # sh_list sh"
    "sh_bytes sh0 = sh_bytes sh + nodeSize pol k e" "sh_last_evict sh0 = sh_last_evict sh"
    using law by (simp_all add: sh0_def sameCore_def)
  have "k \<notin> set (sh_list sh)" using d(1) assms(2) by (auto simp: shape_def)
  then have "shape sh0" using d(1) by (simp add: shape_def n)
  moreover have "sh_bytes sh0 = bytes_of pol (sh_nodes sh0)"
    using bytes_of_insert [OF shape_finite [OF d(1)] assms(2), of pol e] by (simp add: n d(4))
  moreover have "pol_ok sh0" using law by (simp add: sh0_def)
  ultimately show "shard_base pol pol_ok {k} sh0"
    using d(3,5,6) unfolding shard_base_def w n(1) by (simp add: ttl_keys_upd) auto
  show "none_due (sh_wheel sh0)" using assms(1) by (simp add: w shard_ok_def)
qed

lemma put_finish:
  assumes "shard_base pol pol_ok {k} sh0" "none_due (sh_wheel sh0)" "acct a b (sh0, g0)"
    and nodes: "sh_nodes sh0 = (sh_nodes sh)(k \<mapsto> e)" and last: "sh_last_evict sh0 = sh_last_evict sh"
    and g0: "mut_log g0 = mut_log g" "wal_log g0 = wal_log g"
    "next_version g0 = max (next_version g) (version e + 1)"
    "capacity_bytes g0 = capacity_bytes g" "tombstone_gc g0 = tombstone_gc g"
    and ev: "evictIfNeeded pol cap (sh0, g0) = (sh1, g1)"
    and old: "old = (case sh_nodes sh k of None \<Rightarrow> [] | Some e0 \<Rightarrow> [remEvent k e0])"
    and run: "(res, s') = (case sh_nodes sh1 k of None \<Rightarrow> (Inr (), sh1, g1\<lparr>mut_log := mut_log g1 @ old\<rparr>)
       | Some resident \<Rightarrow> (Inr (), writeWal ck k (updateWheelAt k at sh1, g1\<lparr>mut_log := mut_log g1 @ old @ [addEvent k resident]\<rparr>)))"
  shows "res = Inr () \<and> shard_ok pol pol_ok (fst s') \<and> acct a b s' \<and> (\<exists>ks. putApplied cap ck k e ks (sh, g) s')"
proof -
  have "shard_base pol pol_ok {k} (fst (sh0, g0))" "none_due (sh_wheel (fst (sh0, g0)))"
    "sh_nodes (fst (sh0, g0)) k = Some e" using assms(1,2) nodes by simp_all
  from put_tail [OF this(1,2) assms(3) this(3) ev] obtain ks where
    ks: "evictedBy ks (sh0, g0) (sh1, g1)" "acct a b (sh1, g1)"
    "sh_bytes sh1 \<le> cap \<or> (\<forall>j e. sh_nodes sh1 j = Some e \<longrightarrow> isTombstone e)"
    "k \<in> set ks \<Longrightarrow> sh_nodes sh1 k = None \<and> shard_ok pol pol_ok sh1"
    "k \<notin> set ks \<Longrightarrow> sh_nodes sh1 k = Some e \<and> shard_ok pol pol_ok (updateWheelAt k at sh1)" by metis
  show ?thesis
  proof (cases "k \<in> set ks")
    case True
    define g2 where "g2 = g1\<lparr>mut_log := mut_log g1 @ old\<rparr>"
    have s': "res = Inr ()" "s' = (sh1, g2)" using run ks(4) [OF True] by (simp_all add: g2_def)
    have "putApplied cap ck k e ks (sh, g) (sh1, g2)"
      by (rule putApplied_evicted [OF ks(1) True nodes g0(1-3) last g0(4,5) ks(3)]) (simp add: g2_def old)
    with True ks(2,4) s' show ?thesis by (auto simp: acct_def g2_def)
  next
    case False
    then have k: "sh_nodes sh1 k = Some e" "shard_ok pol pol_ok (updateWheelAt k at sh1)" using ks(5) by auto
    have u: "sh_nodes (updateWheelAt k at sh1) = sh_nodes sh1" "sh_bytes (updateWheelAt k at sh1) = sh_bytes sh1"
      "sh_list (updateWheelAt k at sh1) = sh_list sh1" "sh_last_evict (updateWheelAt k at sh1) = sh_last_evict sh1"
      by (simp_all add: updateWheelAt_def k(1))
    define g2 where "g2 = g1\<lparr>mut_log := mut_log g1 @ old @ [addEvent k e],
      wal_log := wal_log g1 @ [walSetEntry ck k e]\<rparr>"
    have s': "res = Inr ()" "s' = (updateWheelAt k at sh1, g2)"
      using run k(1) u(1) by (simp_all add: writeWal_def g2_def)
    have "putApplied cap ck k e ks (sh, g) (updateWheelAt k at sh1, g2)"
      by (rule putApplied_kept [OF ks(1) False nodes g0(1-3) last g0(4,5) ks(3)]) (simp_all add: g2_def old u)
    with k(2) ks(2) s' u show ?thesis by (auto simp: acct_def g2_def)
  qed
qed

lemma putExisting_correct:
  assumes "shard_ok pol pol_ok sh" "acct a b (sh, g)" "sh_nodes sh k = Some e0" "stampOf e0 \<le> stampOf e"
    and "putExisting pol cap ck at k e e0 (sh, g) = (res, s')"
  shows "res = Inr () \<and> shard_ok pol pol_ok (fst s') \<and> acct a b s' \<and> (\<exists>ks. putApplied cap ck k e ks (sh, g) s')"
proof -
  define h where "h = applyExisting pol k e (sh\<lparr>sh_bytes := sh_bytes sh - nodeSize pol k e0\<rparr>)"
  define sh0 where "sh0 = h\<lparr>sh_bytes := sh_bytes h + nodeSize pol k e\<rparr>"
  define g0 where "g0 = g\<lparr>next_version := max (next_version g) (version e + 1),
    total_bytes := total_bytes g - nodeSize pol k e0 + nodeSize pol k e\<rparr>"
  note m = mid_existing(1-5,7) [where e = e, OF assms(1,3), folded h_def, folded sh0_def]
    and fits = mid_existing(6) [OF assms(1,3)]
  have ac: "acct a b (sh0, g0)" using assms(2) m(4,5) fits by (simp add: acct_def g0_def)
  obtain sh1 g1 where ev: "evictIfNeeded pol cap (sh0, g0) = (sh1, g1)" by fastforce
  have "compareLww (stampOf e) (stampOf e0) \<noteq> Less" using assms(4) by (auto simp: compareLww_cases)
  then have "putExisting pol cap ck at k e e0 (sh, g) =
      (case sh_nodes sh1 k of None \<Rightarrow> (Inr (), sh1, g1\<lparr>mut_log := mut_log g1 @ [remEvent k e0]\<rparr>)
       | Some resident \<Rightarrow> (Inr (), writeWal ck k (updateWheelAt k at sh1,
           g1\<lparr>mut_log := mut_log g1 @ [remEvent k e0] @ [addEvent k resident]\<rparr>)))"
    using ev by (simp add: putExisting_def Let_def h_def [symmetric] sh0_def [symmetric] g0_def
        observeVersion_eq note_events split: option.split)
  with assms(5) have "(res, s') =
      (case sh_nodes sh1 k of None \<Rightarrow> (Inr (), sh1, g1\<lparr>mut_log := mut_log g1 @ [remEvent k e0]\<rparr>)
       | Some resident \<Rightarrow> (Inr (), writeWal ck k (updateWheelAt k at sh1,
           g1\<lparr>mut_log := mut_log g1 @ [remEvent k e0] @ [addEvent k resident]\<rparr>)))" by simp
  from put_finish [OF m(1,2) ac m(3,6) _ _ _ _ _ ev _ this] show ?thesis
    by (simp add: g0_def assms(3))
qed

lemma putNew_correct:
  assumes "shard_ok pol pol_ok sh" "acct a b (sh, g)" "sh_nodes sh k = None" "nodeSize pol k e \<le> cap"
    and "putNew pol cap ck at k e (sh, g) = (res, s')"
  shows "res = Inr () \<and> shard_ok pol pol_ok (fst s') \<and> acct a b s' \<and> (\<exists>ks. putApplied cap ck k e ks (sh, g) s')"
proof -
  define h where "h = insertNew pol k e sh"
  define sh0 where "sh0 = h\<lparr>sh_bytes := sh_bytes h + nodeSize pol k e\<rparr>"
  define g0 where "g0 = g\<lparr>next_version := max (next_version g) (version e + 1),
    total_bytes := total_bytes g + nodeSize pol k e, total_entries := total_entries g + 1\<rparr>"
  note m = mid_new [where e = e, OF assms(1,3), folded h_def, folded sh0_def]
  have ac: "acct a b (sh0, g0)" using assms(2) m(4,5) by (simp add: acct_def g0_def)
  obtain sh1 g1 where ev: "evictIfNeeded pol cap (sh0, g0) = (sh1, g1)" by fastforce
  have "putNew pol cap ck at k e (sh, g) =
      (case sh_nodes sh1 k of None \<Rightarrow> (Inr (), sh1, g1\<lparr>mut_log := mut_log g1 @ []\<rparr>)
       | Some resident \<Rightarrow> (Inr (), writeWal ck k (updateWheelAt k at sh1,
           g1\<lparr>mut_log := mut_log g1 @ [] @ [addEvent k resident]\<rparr>)))"
    using ev assms(4) by (simp add: putNew_def Let_def h_def [symmetric] sh0_def [symmetric] g0_def
        observeVersion_eq note_events nodeSize_def [symmetric] split: option.split)
  with assms(5) have "(res, s') =
      (case sh_nodes sh1 k of None \<Rightarrow> (Inr (), sh1, g1\<lparr>mut_log := mut_log g1 @ []\<rparr>)
       | Some resident \<Rightarrow> (Inr (), writeWal ck k (updateWheelAt k at sh1,
           g1\<lparr>mut_log := mut_log g1 @ [] @ [addEvent k resident]\<rparr>)))" by simp
  from put_finish [OF m(1,2) ac m(3,6) _ _ _ _ _ ev _ this] show ?thesis
    by (simp add: g0_def assms(3))
qed

lemma put_cases:
  assumes "shard_ok pol pol_ok sh" "acct a b (sh, g)"
    and "putVersionedAt pol cap ck at k e (sh, g) = (res, s')"
  shows "shard_ok pol pol_ok (fst s') \<and> acct a b s' \<and>
    (case sh_nodes sh k of
       Some e0 \<Rightarrow> res = Inr () \<and> (if stampOf e < stampOf e0 then s' = (sh, g) else \<exists>ks. putApplied cap ck k e ks (sh, g) s')
     | None \<Rightarrow> if nodeSize pol k e > cap
         then res = Inl (mkError CapacityExceeded ''value exceeds capacity'') \<and> s' = (sh, g)
         else res = Inr () \<and> (\<exists>ks. putApplied cap ck k e ks (sh, g) s'))"
proof (cases "sh_nodes sh k")
  case None
  show ?thesis
  proof (cases "nodeSize pol k e > cap")
    case True
    with None assms show ?thesis by (auto simp: putVersionedAt_def putNew_def nodeSize_def Let_def)
  next
    case False
    with putNew_correct [OF assms(1,2) None, of e cap ck at] assms(3) None show ?thesis
      by (simp add: putVersionedAt_def)
  qed
next
  case (Some e0)
  show ?thesis
  proof (cases "stampOf e < stampOf e0")
    case True
    then have "compareLww (stampOf e) (stampOf e0) = Less" by (simp add: compareLww_cases)
    with Some True assms show ?thesis by (auto simp: putVersionedAt_def putExisting_def)
  next
    case False
    with putExisting_correct [OF assms(1,2) Some, of e cap ck at] assms(3) Some show ?thesis
      by (simp add: putVersionedAt_def not_less leD)
  qed
qed

lemma erase_ok:
  assumes "shard_ok pol pol_ok sh" "acct a b (sh, g)" "sh_nodes sh k = Some e"
  shows "shard_ok pol pol_ok (fst (eraseNode pol k e (sh, g)))" "acct a b (eraseNode pol k e (sh, g))"
    "sh_nodes (fst (eraseNode pol k e (sh, g))) = (sh_nodes sh)(k := None)"
    "snd (eraseNode pol k e (sh, g)) = g\<lparr>mut_log := mut_log g @ [remEvent k e],
       total_bytes := total_bytes g - nodeSize pol k e, total_entries := total_entries g - 1\<rparr>"
proof -
  have b: "shard_base pol pol_ok {} sh" and nd: "none_due (sh_wheel sh)" using assms(1) by (simp_all add: shard_ok_def)
  obtain sh' g' where e: "eraseNode pol k e (sh, g) = (sh', g')" by fastforce
  note c = eraseNode_correct [OF b assms(3,2) e]
  show "shard_ok pol pol_ok (fst (eraseNode pol k e (sh, g)))" "acct a b (eraseNode pol k e (sh, g))"
    "sh_nodes (fst (eraseNode pol k e (sh, g))) = (sh_nodes sh)(k := None)"
    "snd (eraseNode pol k e (sh, g)) = g\<lparr>mut_log := mut_log g @ [remEvent k e],
       total_bytes := total_bytes g - nodeSize pol k e, total_entries := total_entries g - 1\<rparr>"
    using c remove_none_due [OF shard_baseD(3) [OF b] nd] by (simp_all add: e shard_ok_def)
qed

lemma access_ok:
  assumes "shard_ok pol pol_ok sh" "acct a b (sh, g)" "sh_nodes sh k = Some e"
  shows "shard_ok pol pol_ok (onAccess pol k sh)" "acct a b (onAccess pol k sh, g)"
    "sh_nodes (onAccess pol k sh) = sh_nodes sh"
proof -
  have b: "shard_base pol pol_ok {} sh" and nd: "none_due (sh_wheel sh)" using assms(1) by (simp_all add: shard_ok_def)
  note d = shard_baseD [OF b]
  note law = onAccess_law [OF d(1,2) assms(3)]
  have "distinct (sh_list (onAccess pol k sh))" "set (sh_list (onAccess pol k sh)) = set (sh_list sh)"
    "length (sh_list (onAccess pol k sh)) = length (sh_list sh)"
    using law d(1) mset_eq_imp_distinct_iff mset_eq_setD mset_eq_length by (metis shape_def)+
  with law d assms(2) nd show "shard_ok pol pol_ok (onAccess pol k sh)" "acct a b (onAccess pol k sh, g)"
    "sh_nodes (onAccess pol k sh) = sh_nodes sh"
    by (simp_all add: shard_ok_def shard_base_def shape_def sameCore_def acct_def)
qed

lemma get_correct:
  assumes "shard_ok pol pol_ok sh" "acct a b (sh, g)" "shardGet pol now k (sh, g) = (r, s')"
  shows "shard_ok pol pol_ok (fst s') \<and> acct a b s'
    \<and> r = (case sh_nodes sh k of None \<Rightarrow> None
          | Some e \<Rightarrow> if isExpired now e \<or> isTombstone e then None else Some (ve_value e))
    \<and> sh_nodes (fst s') = (case sh_nodes sh k of None \<Rightarrow> sh_nodes sh
       | Some e \<Rightarrow> if isExpired now e then (sh_nodes sh)(k := None) else sh_nodes sh)
    \<and> mut_log (snd s') = mut_log g @ (case sh_nodes sh k of None \<Rightarrow> []
       | Some e \<Rightarrow> if isExpired now e then [remEvent k e] else [])
    \<and> capacity_bytes (snd s') = capacity_bytes g \<and> wal_log (snd s') = wal_log g"
  using assms erase_ok [OF assms(1,2)] access_ok [OF assms(1,2)]
  by (cases "sh_nodes sh k") (auto simp: shardGet_def split: if_splits)

lemma getVersioned_correct:
  assumes "shard_ok pol pol_ok sh" "acct a b (sh, g)" "shardGetVersioned pol now k (sh, g) = (r, s')"
  shows "shard_ok pol pol_ok (fst s') \<and> acct a b s'
    \<and> r = (case sh_nodes sh k of None \<Rightarrow> None | Some e \<Rightarrow> if isExpired now e then None else Some e)
    \<and> sh_nodes (fst s') = (case sh_nodes sh k of None \<Rightarrow> sh_nodes sh
       | Some e \<Rightarrow> if isExpired now e then (sh_nodes sh)(k := None) else sh_nodes sh)
    \<and> mut_log (snd s') = mut_log g @ (case sh_nodes sh k of None \<Rightarrow> []
       | Some e \<Rightarrow> if isExpired now e then [remEvent k e] else [])
    \<and> capacity_bytes (snd s') = capacity_bytes g \<and> wal_log (snd s') = wal_log g"
  using assms erase_ok [OF assms(1,2)]
  by (cases "sh_nodes sh k") (auto simp: shardGetVersioned_def split: if_splits)

lemma remove_correct:
  assumes "shard_ok pol pol_ok sh" "acct a b (sh, g)" "shardRemove pol k (sh, g) = (r, s')"
  shows "shard_ok pol pol_ok (fst s') \<and> acct a b s' \<and> r = (sh_nodes sh k \<noteq> None)
    \<and> sh_nodes (fst s') = (sh_nodes sh)(k := None)
    \<and> mut_log (snd s') = mut_log g @ (case sh_nodes sh k of None \<Rightarrow> [] | Some e \<Rightarrow> [remEvent k e])
    \<and> capacity_bytes (snd s') = capacity_bytes g"
proof (cases "sh_nodes sh k")
  case None
  with assms show ?thesis by (auto simp: shardRemove_def fun_upd_idem)
next
  case (Some e)
  let ?g = "g\<lparr>wal_log := wal_log g @ [\<lparr>we_op = WalDel, we_key = k, we_value = [],
                   we_version = version e, we_writer = writer_node_hash e, we_expires_ms = 0,
                   we_has_ttl = False, we_tombstone = False\<rparr>]\<rparr>"
  have "acct a b (sh, ?g)" using assms(2) by (simp add: acct_def)
  from erase_ok [OF assms(1) this Some] Some assms(3) show ?thesis
    by (auto simp: shardRemove_def Let_def)
qed

section \<open>The expiry sweep\<close>

lemma expireCb_contract: "expiry_callback (expireCb pol current)"
proof
  fix w w' :: "Key TtlWheel" and n s s'
  assume w: "wheel_inv w" "deadline w n = None" "expireCb pol current n s w = (s', w')"
  obtain sh g k where s: "s = ((sh, g), k)" by (metis prod.exhaust)
  have cases: "w' = w \<or> (\<exists>t \<ge> 1. w' = wheelInsert n t w) \<or> w' = wheelRemove n w"
    using w(3) expiryTicks_pos
    by (auto simp: expireCb_def s Let_def eraseNode_def onEvictExpired_wheel split: option.splits if_splits)
  then show "wheel_inv w' \<and> clockOf w' = clockOf w \<and> (\<forall>m. m \<noteq> n \<longrightarrow> deadline w' m = deadline w m)"
    using w(1) by (auto simp: wheelInsert_inv wheelRemove_inv clockOf_def)
  show "tick_count w < a" if "deadline w' n = Some a" for a
    using cases that w(1,2) by (auto simp: wheelInsert_inv wheelRemove_inv)
qed

end

text \<open>
  Every entry that disappeared between two states of a shard is reported to the mutation feed once,
  nothing else is, and nothing reaches the log.
\<close>

definition reported :: "'p ShardState \<Rightarrow> 'p ShardState \<Rightarrow> bool" where
  "reported s s' \<longleftrightarrow> sh_nodes (fst s') \<subseteq>\<^sub>m sh_nodes (fst s)
     \<and> (\<exists>ks. distinct ks \<and> set ks = dom (sh_nodes (fst s)) - dom (sh_nodes (fst s'))
          \<and> mut_log (snd s') = mut_log (snd s) @ map (\<lambda>k. remEvent k (entryAt (fst s) k)) ks)
     \<and> wal_log (snd s') = wal_log (snd s) \<and> next_version (snd s') = next_version (snd s)
     \<and> capacity_bytes (snd s') = capacity_bytes (snd s) \<and> tombstone_gc (snd s') = tombstone_gc (snd s)"

lemma reported_refl: "sh_nodes (fst s') = sh_nodes (fst s) \<Longrightarrow> snd s' = snd s \<Longrightarrow> reported s s'"
  by (simp add: reported_def)

lemma reported_trans:
  assumes "reported s s1" "reported s1 s2"
  shows "reported s s2"
proof -
  obtain ks1 where 1: "distinct ks1" "set ks1 = dom (sh_nodes (fst s)) - dom (sh_nodes (fst s1))"
    "mut_log (snd s1) = mut_log (snd s) @ map (\<lambda>k. remEvent k (entryAt (fst s) k)) ks1"
    using assms(1) by (auto simp: reported_def)
  obtain ks2 where 2: "distinct ks2" "set ks2 = dom (sh_nodes (fst s1)) - dom (sh_nodes (fst s2))"
    "mut_log (snd s2) = mut_log (snd s1) @ map (\<lambda>k. remEvent k (entryAt (fst s1) k)) ks2"
    using assms(2) by (auto simp: reported_def)
  have le: "sh_nodes (fst s1) \<subseteq>\<^sub>m sh_nodes (fst s)" "sh_nodes (fst s2) \<subseteq>\<^sub>m sh_nodes (fst s1)"
    using assms by (simp_all add: reported_def)
  have "entryAt (fst s1) k = entryAt (fst s) k" if "k \<in> set ks2" for k
    using that le(1) by (auto simp: 2(2) entryAt_def map_le_def)
  then have log: "mut_log (snd s2) = mut_log (snd s) @ map (\<lambda>k. remEvent k (entryAt (fst s) k)) (ks1 @ ks2)"
    by (simp add: 1(3) 2(3))
  have dom: "dom (sh_nodes (fst s1)) \<subseteq> dom (sh_nodes (fst s))" "dom (sh_nodes (fst s2)) \<subseteq> dom (sh_nodes (fst s1))"
    using le by (simp_all add: map_le_implies_dom_le)
  then have "set (ks1 @ ks2) = dom (sh_nodes (fst s)) - dom (sh_nodes (fst s2))"
    unfolding set_append 1(2) 2(2) by blast
  moreover have "distinct (ks1 @ ks2)" using 1(1) 2(1) unfolding distinct_append 1(2) 2(2) by blast
  ultimately have "\<exists>ks. distinct ks \<and> set ks = dom (sh_nodes (fst s)) - dom (sh_nodes (fst s2))
      \<and> mut_log (snd s2) = mut_log (snd s) @ map (\<lambda>k. remEvent k (entryAt (fst s) k)) ks"
    using log by blast
  then show ?thesis
    using assms map_le_trans [OF le(2,1)] by (simp add: reported_def)
qed

lemma reported_erase:
  assumes "sh_nodes sh k = Some e" "sh_nodes sh' = (sh_nodes sh)(k := None)"
    and "g' = g\<lparr>mut_log := mut_log g @ [remEvent k e], total_bytes := x, total_entries := y\<rparr>"
  shows "reported (sh, g) (sh', g')"
  unfolding reported_def using assms
  by (auto simp: entryAt_def map_le_def intro!: exI [of _ "[k]"])

text \<open>
  One tick of the sweep at time \<open>cur\<close>, started from shard \<open>sh0\<close> with \<open>n0\<close> evictions so far. \<open>P\<close> holds
  the nodes that the wheel has taken out and not yet handed to the callback. Nodes that are not
  due keep entry and deadline; due nodes that have expired are gone once they are handled.
\<close>

definition sweepInv :: "'p Policy \<Rightarrow> ('p Shard \<Rightarrow> bool) \<Rightarrow> nat \<Rightarrow> nat \<Rightarrow> int \<Rightarrow> 'p Shard \<Rightarrow> Globals \<Rightarrow> nat \<Rightarrow>
    Key set \<Rightarrow> 'p ShardState \<times> nat \<Rightarrow> Key TtlWheel \<Rightarrow> bool" where
  "sweepInv pol pol_ok a b cur sh0 g0 n0 P st w \<longleftrightarrow>
     (case st of ((sh, g), n) \<Rightarrow>
        let now_due = (\<lambda>k. deadline (sh_wheel sh0) k = Some (tick_count (sh_wheel sh0) + 1)) in
        shard_base pol pol_ok P (sh\<lparr>sh_wheel := w\<rparr>)
        \<and> P \<inter> dom (deadline w) = {} \<and> P \<subseteq> ttl_keys (sh_nodes sh) \<and> acct a b (sh, g)
        \<and> n + length (sh_list sh) = n0 + length (sh_list sh0)
        \<and> sh_last_evict sh = sh_last_evict sh0
        \<and> tick_count w = tick_count (sh_wheel sh0) + 1 \<and> reported (sh0, g0) (sh, g)
        \<and> (\<forall>k. \<not> now_due k \<longrightarrow> k \<notin> P \<and> sh_nodes sh k = sh_nodes sh0 k \<and> deadline w k = deadline (sh_wheel sh0) k)
        \<and> (\<forall>k e. now_due k \<and> sh_nodes sh0 k = Some e \<longrightarrow>
             sh_nodes sh k = Some e \<and> (isExpired cur e \<longrightarrow> k \<in> P \<or> deadline w k = Some (tick_count w))
             \<or> sh_nodes sh k = None \<and> isExpired cur e))"

lemma sweepInvD:
  assumes "sweepInv pol pol_ok a b cur sh0 g0 n0 P ((sh, g), n) w"
  shows "shard_base pol pol_ok P (sh\<lparr>sh_wheel := w\<rparr>)" "P \<inter> dom (deadline w) = {}"
    "P \<subseteq> ttl_keys (sh_nodes sh)" "acct a b (sh, g)" "n + length (sh_list sh) = n0 + length (sh_list sh0)"
    "sh_last_evict sh = sh_last_evict sh0" "tick_count w = tick_count (sh_wheel sh0) + 1" "reported (sh0, g0) (sh, g)"
    "deadline (sh_wheel sh0) k \<noteq> Some (tick_count (sh_wheel sh0) + 1) \<Longrightarrow>
       k \<notin> P \<and> sh_nodes sh k = sh_nodes sh0 k \<and> deadline w k = deadline (sh_wheel sh0) k"
    "deadline (sh_wheel sh0) k = Some (tick_count (sh_wheel sh0) + 1) \<Longrightarrow> sh_nodes sh0 k = Some e \<Longrightarrow>
       sh_nodes sh k = Some e \<and> (isExpired cur e \<longrightarrow> k \<in> P \<or> deadline w k = Some (tick_count w))
       \<or> sh_nodes sh k = None \<and> isExpired cur e"
  using assms unfolding sweepInv_def Let_def prod.case by blast+

lemma sweepInvI:
  assumes "shard_base pol pol_ok P (sh\<lparr>sh_wheel := w\<rparr>)" "P \<inter> dom (deadline w) = {}"
    "P \<subseteq> ttl_keys (sh_nodes sh)" "acct a b (sh, g)" "n + length (sh_list sh) = n0 + length (sh_list sh0)"
    "sh_last_evict sh = sh_last_evict sh0" "tick_count w = tick_count (sh_wheel sh0) + 1" "reported (sh0, g0) (sh, g)"
    "\<And>k. deadline (sh_wheel sh0) k \<noteq> Some (tick_count (sh_wheel sh0) + 1) \<Longrightarrow>
       k \<notin> P \<and> sh_nodes sh k = sh_nodes sh0 k \<and> deadline w k = deadline (sh_wheel sh0) k"
    "\<And>k e. deadline (sh_wheel sh0) k = Some (tick_count (sh_wheel sh0) + 1) \<Longrightarrow> sh_nodes sh0 k = Some e \<Longrightarrow>
       sh_nodes sh k = Some e \<and> (isExpired cur e \<longrightarrow> k \<in> P \<or> deadline w k = Some (tick_count w))
       \<or> sh_nodes sh k = None \<and> isExpired cur e"
  shows "sweepInv pol pol_ok a b cur sh0 g0 n0 P ((sh, g), n) w"
  using assms unfolding sweepInv_def Let_def prod.case by blast

lemma sweepInv_wheel:
  "sweepInv pol pol_ok a b cur sh0 g0 n0 P ((sh\<lparr>sh_wheel := w'\<rparr>, g), n) w
     \<longleftrightarrow> sweepInv pol pol_ok a b cur sh0 g0 n0 P ((sh, g), n) w"
  by (simp add: sweepInv_def Let_def acct_def reported_def entryAt_def)

text \<open>
  The outcome of a sweep at \<open>cur\<close>: only expired entries are gone, each was counted and reported, and an
  expired entry that is still there has not come due on the wheel.
\<close>

definition swept :: "'p Policy \<Rightarrow> ('p Shard \<Rightarrow> bool) \<Rightarrow> nat \<Rightarrow> nat \<Rightarrow> int \<Rightarrow> 'p ShardState \<times> nat \<Rightarrow> 'p ShardState \<times> nat \<Rightarrow> bool" where
  "swept pol pol_ok a b cur st st' \<longleftrightarrow>
     (case st of ((sh, g), n) \<Rightarrow> case st' of ((sh', g'), n') \<Rightarrow>
        shard_ok pol pol_ok sh' \<and> acct a b (sh', g') \<and> reported (sh, g) (sh', g')
        \<and> n' + length (sh_list sh') = n + length (sh_list sh) \<and> sh_last_evict sh' = sh_last_evict sh
        \<and> (\<forall>k e. sh_nodes sh k = Some e \<and> sh_nodes sh' k = None \<longrightarrow> isExpired cur e)
        \<and> (\<forall>k e. sh_nodes sh' k = Some e \<and> isExpired cur e \<longrightarrow> deadline (sh_wheel sh') k = deadline (sh_wheel sh) k))"

lemma swept_trans:
  assumes "swept pol pol_ok a b cur st st1" "swept pol pol_ok a b cur st1 st2"
  shows "swept pol pol_ok a b cur st st2"
proof -
  obtain sh g n where s: "st = ((sh, g), n)" by (metis prod.exhaust)
  obtain sh1 g1 n1 where s1: "st1 = ((sh1, g1), n1)" by (metis prod.exhaust)
  obtain sh2 g2 n2 where s2: "st2 = ((sh2, g2), n2)" by (metis prod.exhaust)
  note 1 = assms(1) [unfolded swept_def s s1 prod.case] and 2 = assms(2) [unfolded swept_def s1 s2 prod.case]
  have le: "sh_nodes sh1 \<subseteq>\<^sub>m sh_nodes sh" "sh_nodes sh2 \<subseteq>\<^sub>m sh_nodes sh1" using 1 2 by (simp_all add: reported_def)
  have r: "reported (sh, g) (sh2, g2)" using 1 2 reported_trans by blast
  have "isExpired cur e" if "sh_nodes sh k = Some e" "sh_nodes sh2 k = None" for k e
  proof (cases "sh_nodes sh1 k")
    case (Some e1)
    then have "e1 = e" using le(1) that(1) unfolding map_le_def by (metis domI option.inject)
    with Some 2 that(2) show ?thesis by blast
  qed (use 1 that in blast)
  moreover have "deadline (sh_wheel sh2) k = deadline (sh_wheel sh) k" if "sh_nodes sh2 k = Some e" "isExpired cur e" for k e
  proof -
    have "sh_nodes sh1 k = Some e" using le(2) that(1) unfolding map_le_def by (metis domI)
    with 1 2 that show ?thesis by metis
  qed
  ultimately show ?thesis using 1 2 r unfolding swept_def s s2 prod.case by auto
qed

lemma sweepInv_swept:
  assumes "sweepInv pol pol_ok a b cur sh g n {} ((sh', g'), n') (sh_wheel sh')" "none_due (sh_wheel sh')"
  shows "swept pol pol_ok a b cur ((sh, g), n) ((sh', g'), n')"
proof -
  note d = sweepInvD [OF assms(1)]
  have w: "wheel_inv (sh_wheel sh')" using shard_baseD(3) [OF d(1)] by simp
  have "isExpired cur e" if "sh_nodes sh k = Some e" "sh_nodes sh' k = None" for k e
    using d(9) [of k] d(10) [OF _ that(1)] that by auto
  moreover have "deadline (sh_wheel sh') k = deadline (sh_wheel sh) k" if e: "sh_nodes sh' k = Some e" "isExpired cur e" for k e
  proof (rule ccontr)
    assume n: "\<not> ?thesis"
    then have due: "deadline (sh_wheel sh) k = Some (tick_count (sh_wheel sh) + 1)" using d(9) by blast
    have "sh_nodes sh k = Some e"
      using d(8) e(1) unfolding reported_def fst_conv map_le_def by (metis domI)
    then have "deadline (sh_wheel sh') k = Some (tick_count (sh_wheel sh'))" using d(10) [OF due] e by auto
    then show False using deadline_future [OF w assms(2)] by blast
  qed
  ultimately show ?thesis
    using d(1,4,5,6,8) assms(2) by (auto simp: swept_def shard_ok_def)
qed

context eviction_policy
begin

lemma shard_base_wheel:
  "shard_base pol pol_ok X (sh\<lparr>sh_wheel := w\<rparr>) \<longleftrightarrow> shape sh \<and> sh_bytes sh = bytes_of pol (sh_nodes sh) \<and> wheel_inv w
     \<and> dom (deadline w) - X = ttl_keys (sh_nodes sh) - X \<and> dom (deadline w) \<subseteq> dom (sh_nodes sh) \<and> pol_ok sh"
  by (simp add: shard_base_def shape_def)

lemma sweep_unschedule:
  assumes "sweepInv pol pol_ok a b cur sh0 g0 n0 P st w" "wheel_inv w'"
    and "deadline w' = (\<lambda>k. if k \<in> B then None else deadline w k)" "B \<subseteq> dom (deadline w)" "tick_count w' = tick_count w"
    and "\<And>k. k \<in> B \<Longrightarrow> deadline (sh_wheel sh0) k = Some (tick_count (sh_wheel sh0) + 1)"
  shows "sweepInv pol pol_ok a b cur sh0 g0 n0 (P \<union> B) st w'"
proof -
  obtain sh g n where st: "st = ((sh, g), n)" by (metis prod.exhaust)
  note d = sweepInvD [OF assms(1) [unfolded st]]
  note b = d(1) [unfolded shard_base_wheel]
  have dom: "dom (deadline w') = dom (deadline w) - B" by (auto simp: assms(3) split: if_splits)
  have "B \<subseteq> ttl_keys (sh_nodes sh)" using b assms(4) d(2) by blast
  then have "P \<union> B \<subseteq> ttl_keys (sh_nodes sh)" using d(3) by blast
  moreover have "shard_base pol pol_ok (P \<union> B) (sh\<lparr>sh_wheel := w'\<rparr>)"
    unfolding shard_base_wheel dom using b assms(2) by blast
  moreover have "(P \<union> B) \<inter> dom (deadline w') = {}" using d(2) dom by blast
  ultimately show ?thesis
    unfolding st
    by (intro sweepInvI) (use d(4-10) assms(3,5,6) in \<open>fastforce+\<close>)
qed

lemma sweep_step:
  assumes j: "sweepInv pol pol_ok a b cur sh0 g0 n0 (insert k P) st w" and "k \<notin> P" "wheel_inv w" "deadline w k = None"
    and cb: "expireCb pol cur k st w = (st', w')"
  shows "sweepInv pol pol_ok a b cur sh0 g0 n0 P st' w'"
proof -
  obtain sh g n where st: "st = ((sh, g), n)" by (metis prod.exhaust)
  note d = sweepInvD [OF j [unfolded st]]
  note b = d(1) [unfolded shard_base_wheel]
  obtain e where e: "sh_nodes sh k = Some e" "hasTtl e" using d(3) by (auto simp: ttl_keys_def)
  have due: "deadline (sh_wheel sh0) k = Some (tick_count (sh_wheel sh0) + 1)" using d(9) [of k] by blast
  show ?thesis
  proof (cases "expires_at e > cur")
    case True
    let ?w = "wheelInsert k (expiryTicksAt (expires_at e) cur) w"
    have st': "st' = ((sh\<lparr>sh_wheel := w\<rparr>, g), n)" and w': "w' = ?w"
      using cb e True by (simp_all add: expireCb_def st Let_def)
    note i = wheelInsert_inv [OF assms(3) expiryTicks_pos [of "expires_at e" cur], of k]
    have dom: "dom (deadline w') = insert k (dom (deadline w))" by (simp add: w' i)
    have base: "shard_base pol pol_ok P (sh\<lparr>sh_wheel := w'\<rparr>)"
      unfolding shard_base_wheel dom using b d(3) e i(1) w' assms(2) by blast
    have dis: "P \<inter> dom (deadline w') = {}" unfolding dom using d(2) assms(2) by blast
    show ?thesis
      unfolding st'
    proof (rule sweepInvI)
      show "P \<subseteq> ttl_keys (sh_nodes (sh\<lparr>sh_wheel := w\<rparr>))" using d(3) by simp
      show "acct a b (sh\<lparr>sh_wheel := w\<rparr>, g)" using d(4) by (simp add: acct_def)
      show "shard_base pol pol_ok P (sh\<lparr>sh_wheel := w, sh_wheel := w'\<rparr>)" using base by simp
      show "P \<inter> dom (deadline w') = {}" by (rule dis)
      show "n + length (sh_list (sh\<lparr>sh_wheel := w\<rparr>)) = n0 + length (sh_list sh0)"
        "sh_last_evict (sh\<lparr>sh_wheel := w\<rparr>) = sh_last_evict sh0" "tick_count w' = tick_count (sh_wheel sh0) + 1"
        using d(5-7) by (simp_all add: w' i)
      show "reported (sh0, g0) (sh\<lparr>sh_wheel := w\<rparr>, g)"
        by (rule reported_trans [OF d(8)]) (simp add: reported_refl)
      fix i
      show "i \<notin> P \<and> sh_nodes (sh\<lparr>sh_wheel := w\<rparr>) i = sh_nodes sh0 i \<and> deadline w' i = deadline (sh_wheel sh0) i"
        if "deadline (sh_wheel sh0) i \<noteq> Some (tick_count (sh_wheel sh0) + 1)"
        using d(9) [OF that] that due by (cases "i = k") (simp_all add: w' i)
      show "sh_nodes (sh\<lparr>sh_wheel := w\<rparr>) i = Some ei \<and> (isExpired cur ei \<longrightarrow> i \<in> P \<or> deadline w' i = Some (tick_count w'))
          \<or> sh_nodes (sh\<lparr>sh_wheel := w\<rparr>) i = None \<and> isExpired cur ei"
        if "deadline (sh_wheel sh0) i = Some (tick_count (sh_wheel sh0) + 1)" "sh_nodes sh0 i = Some ei" for ei
        using d(10) [OF that] e True by (cases "i = k") (simp_all add: w' i isExpired_def)
    qed
  next
    case False
    obtain sh' g' where er: "eraseNode pol k e (sh\<lparr>sh_wheel := w\<rparr>, g) = (sh', g')" by fastforce
    have st': "st' = ((sh', g'), n + 1)" and w': "w' = sh_wheel sh'"
      using cb e False er by (simp_all add: expireCb_def st Let_def)
    have ac: "acct a b (sh\<lparr>sh_wheel := w\<rparr>, g)" using d(4) by (simp add: acct_def)
    have e': "sh_nodes (sh\<lparr>sh_wheel := w\<rparr>) k = Some e" using e by simp
    note r = eraseNode_correct [OF d(1) e' ac er]
    have ndom: "ttl_keys (sh_nodes sh') = ttl_keys (sh_nodes sh) - {k}"
      by (auto simp: r(3) ttl_keys_def split: if_splits)
    have P: "P \<subseteq> ttl_keys (sh_nodes sh')" unfolding ndom using d(3) assms(2) by blast
    have base: "shard_base pol pol_ok P (sh'\<lparr>sh_wheel := w'\<rparr>)"
      using r(1) assms(2) by (simp add: w')
    have dis: "P \<inter> dom (deadline w') = {}" using d(2) by (auto simp: w' r(4))
    have tc: "tick_count w' = tick_count w" using r(5) by (simp add: w' clockOf_def)
    have dl: "deadline w' = (deadline w)(k := None)" by (simp add: w' r(4))
    show ?thesis
      unfolding st'
    proof (intro sweepInvI base dis P r(2))
      show "n + 1 + length (sh_list sh') = n0 + length (sh_list sh0)" using d(5) r(9) by simp
      show "sh_last_evict sh' = sh_last_evict sh0" "tick_count w' = tick_count (sh_wheel sh0) + 1"
        using d(6,7) r(6) tc by simp_all
      show "reported (sh0, g0) (sh', g')"
        using reported_trans [OF d(8) reported_erase [OF e(1) _ r(7)]] r(3) by simp
      fix i
      show "i \<notin> P \<and> sh_nodes sh' i = sh_nodes sh0 i \<and> deadline w' i = deadline (sh_wheel sh0) i"
        if "deadline (sh_wheel sh0) i \<noteq> Some (tick_count (sh_wheel sh0) + 1)"
        using d(9) [OF that] that due by (cases "i = k") (simp_all add: r(3) dl)
      show "sh_nodes sh' i = Some ei \<and> (isExpired cur ei \<longrightarrow> i \<in> P \<or> deadline w' i = Some (tick_count w'))
          \<or> sh_nodes sh' i = None \<and> isExpired cur ei"
        if "deadline (sh_wheel sh0) i = Some (tick_count (sh_wheel sh0) + 1)" "sh_nodes sh0 i = Some ei" for ei
        using d(10) [OF that] e False by (cases "i = k") (simp_all add: r(3) dl tc isExpired_def)
    qed
  qed
qed

lemma shardTick_correct:
  assumes ok: "shard_ok pol pol_ok sh" and ac: "acct a b (sh, g)"
  shows "\<exists>sh' g' n'. shardTick pol cur ((sh, g), n) = Some ((sh', g'), n')
    \<and> sweepInv pol pol_ok a b cur sh g n {} ((sh', g'), n') (sh_wheel sh') \<and> none_due (sh_wheel sh')"
proof -
  let ?w = "sh_wheel sh" and ?J = "sweepInv pol pol_ok a b cur sh g n"
  have b: "shard_base pol pol_ok {} sh" and due: "none_due ?w" using ok by (simp_all add: shard_ok_def)
  note w = shard_baseD(3) [OF b] due
  have "\<exists>s' w'. tick (expireCb pol cur) ((sh, g), n) ?w = Some (s', w') \<and> ?J {} s' w' \<and> wheel_inv w'
      \<and> none_due w' \<and> tick_count w' = tick_count ?w + 1"
  proof (rule expiry_callback.tick_rule [OF expireCb_contract w(1) _ refl, of ?J])
    fix w' let ?B = "{n. wheel_slot ?w n \<noteq> 0 \<and> deadline ?w n = Some (tick_count ?w + 1)}"
    assume s: "wheel_inv w'" "tick_count w' = tick_count ?w + 1"
      "deadline w' = (\<lambda>n. if n \<in> ?B then None else deadline ?w n)"
    have dom: "dom (deadline w') = dom (deadline ?w) - ?B" by (auto simp: s(3) split: if_splits)
    have B: "?B \<subseteq> dom (deadline ?w)" by auto
    have base: "shard_base pol pol_ok ?B (sh\<lparr>sh_wheel := w'\<rparr>)"
      unfolding shard_base_wheel dom using shard_baseD [OF b] s(1) by blast
    show "?J ?B ((sh, g), n) w'"
    proof (rule sweepInvI [OF base])
      show "?B \<inter> dom (deadline w') = {}" unfolding dom by blast
      show "?B \<subseteq> ttl_keys (sh_nodes sh)" using B shard_baseD(5) [OF b] by blast
      show "reported (sh, g) (sh, g)" by (simp add: reported_refl)
    qed (use s ac in \<open>auto split: if_splits\<close>)
  next
    fix k P s w s' w'
    assume "?J (insert k P) s w" "k \<notin> P" "wheel_inv w" "deadline w k = None" "expireCb pol cur k s w = (s', w')"
    then show "?J P s' w'" by (rule sweep_step)
  next
    fix k d s w1 w' assume s: "?J {} s w1" "wheel_inv w'" "deadline w1 k = Some d" "d \<le> tick_count w1"
      "deadline w' = (deadline w1)(k := None)" "clockOf w' = clockOf w1"
    obtain sh1 g1 n1 where st: "s = ((sh1, g1), n1)" by (metis prod.exhaust)
    note j = sweepInvD [OF s(1) [unfolded st]]
    have due: "deadline ?w k = Some (tick_count ?w + 1)"
    proof (rule ccontr)
      assume n: "\<not> ?thesis"
      then have "deadline ?w k = Some d" "d \<le> tick_count ?w + 1" using j(9) [OF n] s(3,4) j(7) by simp_all
      with n deadline_future [OF w, of k d] show False by simp
    qed
    show "?J {k} s w'"
      using sweep_unschedule [OF s(1,2), of "{k}"] s(3,5,6) due by (auto simp: clockOf_def fun_eq_iff)
  qed
  then obtain sh1 g1 n1 w' where t: "tick (expireCb pol cur) ((sh, g), n) ?w = Some (((sh1, g1), n1), w')"
    "?J {} ((sh1, g1), n1) w'" "none_due w'"
    by (metis prod.exhaust)
  have "?J {} ((sh1\<lparr>sh_wheel := w'\<rparr>, g1), n1) w'"
    using t(2) by (simp add: sweepInv_wheel)
  with t show ?thesis by (simp add: shardTick_def)
qed

text \<open>The sweep at \<open>cur\<close> returns, keeps the invariant, removes expired entries only and counts them.\<close>

lemma shardTicks_correct:
  "shard_ok pol pol_ok sh \<Longrightarrow> acct a b (sh, g) \<Longrightarrow>
   \<exists>sh' g' n'. shardTicks m pol cur ((sh, g), n) = Some ((sh', g'), n')
     \<and> swept pol pol_ok a b cur ((sh, g), n) ((sh', g'), n')
     \<and> tick_count (sh_wheel sh') = tick_count (sh_wheel sh) + m"
proof (induction m arbitrary: sh g n)
  case 0
  then show ?case by (auto simp: swept_def reported_refl)
next
  case (Suc m)
  obtain sh1 g1 n1 where 1: "shardTick pol cur ((sh, g), n) = Some ((sh1, g1), n1)"
    "sweepInv pol pol_ok a b cur sh g n {} ((sh1, g1), n1) (sh_wheel sh1)" "none_due (sh_wheel sh1)"
    using shardTick_correct [OF Suc.prems] by blast
  note s1 = sweepInv_swept [OF 1(2,3)]
  have "shard_ok pol pol_ok sh1" "acct a b (sh1, g1)" using s1 by (simp_all add: swept_def)
  from Suc.IH [OF this] obtain sh2 g2 n2 where 2: "shardTicks m pol cur ((sh1, g1), n1) = Some ((sh2, g2), n2)"
    "swept pol pol_ok a b cur ((sh1, g1), n1) ((sh2, g2), n2)" "tick_count (sh_wheel sh2) = tick_count (sh_wheel sh1) + m"
    by blast
  show ?case
    using 1(1) 2 swept_trans [OF s1 2(2)] sweepInvD(7) [OF 1(2)] by simp
qed

lemma shardEvictExpired_correct:
  assumes "shard_ok pol pol_ok sh" "acct a b (sh, g)"
  obtains sh' g' n' where "shardEvictExpired pol cur ((sh, g), n) = Some ((sh', g'), n')"
    "swept pol pol_ok a b cur ((sh\<lparr>sh_last_evict := cur\<rparr>, g), n) ((sh', g'), n')"
    "tick_count (sh_wheel sh') = tick_count (sh_wheel sh) + max 1 (nat (floorSeconds (cur - sh_last_evict sh)))"
proof -
  have "shard_ok pol pol_ok (sh\<lparr>sh_last_evict := cur\<rparr>)" "acct a b (sh\<lparr>sh_last_evict := cur\<rparr>, g)"
    using assms unfolding shard_ok_def shard_base_def shape_def acct_def by auto
  from shardTicks_correct [OF this, of "max 1 (nat (floorSeconds (cur - sh_last_evict sh)))" cur n]
  obtain sh' g' n' where "shardTicks (max 1 (nat (floorSeconds (cur - sh_last_evict sh)))) pol cur
      ((sh\<lparr>sh_last_evict := cur\<rparr>, g), n) = Some ((sh', g'), n')"
    "swept pol pol_ok a b cur ((sh\<lparr>sh_last_evict := cur\<rparr>, g), n) ((sh', g'), n')"
    "tick_count (sh_wheel sh') = tick_count (sh_wheel sh) + max 1 (nat (floorSeconds (cur - sh_last_evict sh)))"
    by auto
  moreover have "(if t < 1 then 1 else nat t) = max 1 (nat t)" for t by auto
  ultimately show ?thesis using that by (simp add: shardEvictExpired_def Let_def)
qed

end

end
