(* ===== verification/LruStore.thy ===== *)
theory LruStore
  imports StoreContract
begin

text \<open>
  The least-recently-used policy (\<open>include/cinder/store/lru_store.hpp\<close>, \<open>src/store/lru_store.cpp\<close>).
  The list order is the recency order and there is no further policy state.
\<close>

section \<open>Model\<close>

definition touch :: "Key \<Rightarrow> unit Shard \<Rightarrow> unit Shard" where
  "touch k sh = sh\<lparr>sh_list := k # remove1 k (sh_list sh)\<rparr>"

definition lruApplyExisting :: "Key \<Rightarrow> VersionedEntry \<Rightarrow> unit Shard \<Rightarrow> unit Shard" where
  "lruApplyExisting k e sh = touch k (sh\<lparr>sh_nodes := (sh_nodes sh)(k \<mapsto> e)\<rparr>)"

definition lruInsertNew :: "Key \<Rightarrow> VersionedEntry \<Rightarrow> unit Shard \<Rightarrow> unit Shard" where
  "lruInsertNew k e sh = sh\<lparr>sh_list := k # sh_list sh, sh_nodes := (sh_nodes sh)(k \<mapsto> e)\<rparr>"

definition lruOnAccess :: "Key \<Rightarrow> unit Shard \<Rightarrow> unit Shard" where
  "lruOnAccess k sh = touch k sh"

definition lruOnEvictExpired :: "Key \<Rightarrow> unit Shard \<Rightarrow> unit Shard" where
  "lruOnEvictExpired k sh = sh"

text \<open>The scan from the back of the list for the first node that is not a tombstone.\<close>

definition liveAt :: "'p Shard \<Rightarrow> Key \<Rightarrow> bool" where
  "liveAt sh k \<longleftrightarrow> (case sh_nodes sh k of None \<Rightarrow> False | Some e \<Rightarrow> \<not> isTombstone e)"

definition lruVictim :: "unit Shard \<Rightarrow> Key option" where
  "lruVictim sh = find (liveAt sh) (rev (sh_list sh))"

definition lruEvictOne :: "unit ShardState \<Rightarrow> nat \<times> unit ShardState" where
  "lruEvictOne s =
     (case s of (sh, g) \<Rightarrow>
        if sh_list sh = [] then (0, sh, g)
        else (case lruVictim sh of
           None \<Rightarrow> (0, sh, g)
         | Some k \<Rightarrow>
             (case sh_nodes sh k of
                None \<Rightarrow> (0, sh, g)
              | Some e \<Rightarrow>
                  let freed = length k + length (ve_value e) + 120;
                      g = noteRemoved k e g;
                      sh = sh\<lparr>sh_wheel := wheelRemove k (sh_wheel sh)\<rparr>;
                      sh = sh\<lparr>sh_nodes := (sh_nodes sh)(k := None)\<rparr>;
                      sh = sh\<lparr>sh_list := remove1 k (sh_list sh)\<rparr>
                  in (freed, sh, g))))"

definition lruPolicy :: "unit Policy" where
  "lruPolicy = \<lparr>nodeBytes = 120, applyExisting = lruApplyExisting, insertNew = lruInsertNew,
     onAccess = lruOnAccess, onEvictExpired = lruOnEvictExpired, evictOne = lruEvictOne\<rparr>"

definition lru_ok :: "unit Shard \<Rightarrow> bool" where
  "lru_ok sh \<longleftrightarrow> True"

section \<open>The policy keeps the contract\<close>

lemma liveAt_iff: "liveAt sh k \<longleftrightarrow> (\<exists>e. sh_nodes sh k = Some e \<and> \<not> isTombstone e)"
  by (auto simp: liveAt_def split: option.splits)

lemma lruVictim_None: "shape sh \<Longrightarrow> lruVictim sh = None \<longleftrightarrow> (\<forall>k e. sh_nodes sh k = Some e \<longrightarrow> isTombstone e)"
  unfolding lruVictim_def find_None_iff by (auto simp: shape_def liveAt_iff)

lemma lruVictim_Some: "lruVictim sh = Some k \<Longrightarrow> k \<in> set (sh_list sh) \<and> liveAt sh k"
  by (auto simp: lruVictim_def find_Some_iff) (metis nth_mem length_rev set_rev)

lemma remove1_mset_Cons: "k \<in> set xs \<Longrightarrow> mset (k # remove1 k xs) = mset xs"
  by simp

interpretation lru: eviction_policy lruPolicy lru_ok
proof
  fix sh :: "unit Shard" and k e e0 and g g' :: Globals and freed sh'
  assume sh: "shape sh"
  have in_list: "k \<in> set (sh_list sh)" if "sh_nodes sh k = Some e0" for e0
    using sh that by (auto simp: shape_def)
  show "sh_nodes (applyExisting lruPolicy k e sh) = (sh_nodes sh)(k \<mapsto> e)
      \<and> mset (sh_list (applyExisting lruPolicy k e sh)) = mset (sh_list sh)
      \<and> sameCore sh (applyExisting lruPolicy k e sh) \<and> lru_ok (applyExisting lruPolicy k e sh)"
    if "sh_nodes sh k = Some e0"
    using in_list [OF that]
    by (simp add: lruPolicy_def lruApplyExisting_def touch_def sameCore_def lru_ok_def)
  show "sh_nodes (onAccess lruPolicy k sh) = sh_nodes sh \<and> mset (sh_list (onAccess lruPolicy k sh)) = mset (sh_list sh)
      \<and> sameCore sh (onAccess lruPolicy k sh) \<and> lru_ok (onAccess lruPolicy k sh)"
    if "sh_nodes sh k = Some e"
    using in_list [OF that] by (simp add: lruPolicy_def lruOnAccess_def touch_def sameCore_def lru_ok_def)
  assume ev: "evictOne lruPolicy (sh, g) = (freed, sh', g')"
  show "(freed = 0 \<and> sh' = sh \<and> g' = g \<and> (\<forall>k e. sh_nodes sh k = Some e \<longrightarrow> isTombstone e))
      \<or> (\<exists>k e. sh_nodes sh k = Some e \<and> \<not> isTombstone e \<and> freed = nodeSize lruPolicy k e
          \<and> sh_nodes sh' = (sh_nodes sh)(k := None) \<and> sh_list sh' = remove1 k (sh_list sh)
          \<and> sh_wheel sh' = wheelRemove k (sh_wheel sh) \<and> sh_bytes sh' = sh_bytes sh
          \<and> sh_last_evict sh' = sh_last_evict sh \<and> lru_ok sh' \<and> g' = noteRemoved k e g)"
  proof (cases "lruVictim sh")
    case None
    then have "freed = 0 \<and> sh' = sh \<and> g' = g" using ev by (auto simp: lruPolicy_def lruEvictOne_def split: if_splits)
    with lruVictim_None [OF sh] None show ?thesis by blast
  next
    case (Some k)
    then have "sh_list sh \<noteq> []" using lruVictim_Some by fastforce
    moreover obtain e where "sh_nodes sh k = Some e" "\<not> isTombstone e"
      using lruVictim_Some [OF Some] by (auto simp: liveAt_iff)
    ultimately show ?thesis
      using ev Some
      by (intro disjI2 exI [of _ k] exI [of _ e]) (auto simp: lruPolicy_def lruEvictOne_def Let_def nodeSize_def lru_ok_def)
  qed
qed (auto simp: lruPolicy_def lruInsertNew_def lruOnEvictExpired_def sameCore_def lru_ok_def)

section \<open>Eviction order\<close>

text \<open>Reading keys one after the other.\<close>

fun shardGets :: "'p Policy \<Rightarrow> int \<Rightarrow> Key list \<Rightarrow> 'p ShardState \<Rightarrow> 'p ShardState" where
  "shardGets pol now [] s = s"
| "shardGets pol now (k # ks) s = shardGets pol now ks (snd (shardGet pol now k s))"

lemma find_append_Some: "find P (xs @ ys) = (case find P xs of None \<Rightarrow> find P ys | Some x \<Rightarrow> Some x)"
  by (induction xs) auto

lemma gets_order:
  "\<forall>k \<in> set ks. liveAt sh k \<and> \<not> isExpired now (entryAt sh k) \<Longrightarrow> distinct (sh_list sh) \<Longrightarrow>
   \<exists>A sh1. shardGets lruPolicy now ks (sh, g) = (sh1, g) \<and> sh_nodes sh1 = sh_nodes sh
     \<and> set A = set ks \<and> sh_list sh1 = A @ filter (\<lambda>k. k \<notin> set ks) (sh_list sh)"
proof (induction ks arbitrary: sh)
  case Nil
  then show ?case by simp
next
  case (Cons k ks)
  obtain e where e: "sh_nodes sh k = Some e" "\<not> isTombstone e" "\<not> isExpired now e"
    using Cons.prems(1) by (auto simp: liveAt_iff entryAt_def)
  let ?sh = "touch k sh"
  have n: "sh_nodes ?sh = sh_nodes sh" by (simp add: touch_def)
  have "\<forall>j \<in> set ks. liveAt ?sh j \<and> \<not> isExpired now (entryAt ?sh j)" "distinct (sh_list ?sh)"
    using Cons.prems by (auto simp: liveAt_def entryAt_def n) (simp add: touch_def)
  from Cons.IH [OF this] obtain A sh1 where A: "shardGets lruPolicy now ks (?sh, g) = (sh1, g)" "sh_nodes sh1 = sh_nodes ?sh"
    "set A = set ks" "sh_list sh1 = A @ filter (\<lambda>j. j \<notin> set ks) (sh_list ?sh)" by blast
  have get: "shardGets lruPolicy now (k # ks) (sh, g) = (sh1, g)"
    using A(1) e by (simp add: shardGet_def lruPolicy_def lruOnAccess_def)
  have f: "filter (\<lambda>j. j \<notin> set ks) (remove1 k (sh_list sh)) = filter (\<lambda>j. j \<notin> set (k # ks)) (sh_list sh)"
    using Cons.prems(2) by (auto simp: distinct_remove1_removeAll removeAll_filter_not_eq intro: filter_cong)
  show ?case
    using get A f n
    by (intro exI [of _ "if k \<in> set ks then A else A @ [k]"] exI [of _ sh1]) (auto simp: touch_def)
qed

lemma victim_not_recent:
  assumes "sh_list sh = A @ B" "j \<in> set B" "liveAt sh j" "lruVictim sh = Some v"
  shows "v \<in> set B"
proof -
  have "find (liveAt sh) (rev B) \<noteq> None" using assms(2,3) by (simp add: find_None_iff) blast
  then have "find (liveAt sh) (rev B) = Some v"
    using assms(1,4) by (auto simp: lruVictim_def find_append_Some)
  then show ?thesis by (auto simp: find_Some_iff) (metis nth_mem length_rev set_rev)
qed

text \<open>
  C8. Eviction order of the LRU store. After the live keys \<open>ks\<close> have been read, an eviction spares
  all of them as long as some other live entry is left: \<open>evictOne\<close> takes that one, whatever the
  order of the reads and wherever tombstones sit in the list.
\<close>

theorem lru_spares_recent:
  assumes "shape sh" "\<forall>k \<in> set ks. liveAt sh k \<and> \<not> isExpired now (entryAt sh k)"
    and "shardGets lruPolicy now ks (sh, g) = (sh1, g1)" "lruEvictOne (sh1, g1) = (freed, sh2, g2)"
    and "liveAt sh j" "j \<notin> set ks"
  shows "freed > 0 \<and> (\<forall>k \<in> set ks. sh_nodes sh2 k = sh_nodes sh k)"
proof -
  have "distinct (sh_list sh)" using assms(1) by (simp add: shape_def)
  from gets_order [OF assms(2) this, of g] assms(3) obtain A where A: "sh_nodes sh1 = sh_nodes sh" "set A = set ks"
    "sh_list sh1 = A @ filter (\<lambda>k. k \<notin> set ks) (sh_list sh)" by auto
  have live: "liveAt sh1 = liveAt sh" by (simp add: fun_eq_iff liveAt_def A(1))
  have j: "j \<in> set (filter (\<lambda>k. k \<notin> set ks) (sh_list sh))"
    using assms(1,5,6) by (auto simp: shape_def liveAt_iff)
  have ne: "sh_list sh1 \<noteq> []" using j A(3) by (metis append_is_Nil_conv empty_iff empty_set)
  have "lruVictim sh1 \<noteq> None"
    unfolding lruVictim_def find_None_iff using j assms(5) by (auto simp: A(3) live)
  then obtain v where v: "lruVictim sh1 = Some v" by blast
  have "v \<in> set (filter (\<lambda>k. k \<notin> set ks) (sh_list sh))"
    using victim_not_recent [OF A(3) j _ v] assms(5) by (simp add: live)
  moreover obtain e where "sh_nodes sh1 v = Some e" using lruVictim_Some [OF v] by (auto simp: liveAt_iff)
  ultimately show ?thesis
    using assms(4) v ne by (auto simp: lruEvictOne_def Let_def A(1))
qed

text \<open>A shard that holds two plain entries, the older one at the back.\<close>

definition twoShard :: "unit Shard" where
  "twoShard = \<lparr>sh_list = [''b'', ''a''], sh_nodes = [''a'' \<mapsto> emptyEntry, ''b'' \<mapsto> emptyEntry],
     sh_wheel = emptyWheel, sh_bytes = 242, sh_last_evict = 0, sh_policy = ()\<rparr>"

definition plainGlobals :: "nat \<Rightarrow> Globals" where
  "plainGlobals cap = \<lparr>capacity_bytes = cap, next_version = 1, tombstone_gc = 0, total_bytes = 0, total_entries = 0,
     mut_log = [], wal_log = []\<rparr>"

lemma emptyEntry_plain [simp]: "\<not> isTombstone emptyEntry" "\<not> hasTtl emptyEntry" "ve_value emptyEntry = []"
  by (simp_all add: emptyEntry_def isTombstone_def hasTtl_def)

theorem lru_spares_recent_witness:
  "sh_nodes (fst (snd (lruEvictOne (shardGets lruPolicy 5 [''a''] (twoShard, plainGlobals 242))))) ''a'' = Some emptyEntry"
proof -
  obtain sh1 g1 where 1: "shardGets lruPolicy 5 [''a''] (twoShard, plainGlobals 242) = (sh1, g1)" by fastforce
  obtain f sh2 g2 where 2: "lruEvictOne (sh1, g1) = (f, sh2, g2)" by (metis prod_cases3)
  have "shape twoShard" "\<forall>k \<in> set [''a'']. liveAt twoShard k \<and> \<not> isExpired 5 (entryAt twoShard k)" "liveAt twoShard ''b''"
    by (auto simp: twoShard_def shape_def liveAt_def entryAt_def isExpired_def)
  from lru_spares_recent [OF this(1,2) 1 2 this(3)] have "sh_nodes sh2 ''a'' = Some emptyEntry" by (simp add: twoShard_def)
  then show ?thesis unfolding 1 2 by simp
qed

section \<open>Reading one's own write\<close>

definition tombs :: "(Key \<rightharpoonup> VersionedEntry) \<Rightarrow> Key \<rightharpoonup> VersionedEntry" where
  "tombs m k = (case m k of None \<Rightarrow> None | Some e \<Rightarrow> if isTombstone e then Some e else None)"

lemma tombs_drop_live: "m k = Some e \<Longrightarrow> \<not> isTombstone e \<Longrightarrow> tombs (m(k := None)) = tombs m"
  by (auto simp: tombs_def fun_eq_iff)

lemma lru_evict_keeps_head:
  "shard_base lruPolicy lru_ok X sh \<Longrightarrow> sh_list sh = k # ks \<Longrightarrow> sh_nodes sh k = Some e \<Longrightarrow> \<not> isTombstone e \<Longrightarrow>
   acct a b (sh, g) \<Longrightarrow> nodeSize lruPolicy k e + bytes_of lruPolicy (tombs (sh_nodes sh)) \<le> cap \<Longrightarrow>
   sh_nodes (fst (evictLoop n lruPolicy cap (sh, g))) k = Some e"
proof (induction n arbitrary: X sh g ks)
  case 0
  then show ?case by simp
next
  case (Suc n)
  note d = shard_baseD [OF Suc.prems(1)]
  show ?case
  proof (cases "sh_bytes sh > cap")
    case True
    have "liveAt sh k" using Suc.prems(3,4) by (simp add: liveAt_iff)
    then have "lruVictim sh \<noteq> None" using Suc.prems(2) by (auto simp: lruVictim_def find_None_iff)
    then obtain v where v: "lruVictim sh = Some v" by blast
    obtain ev where ev: "sh_nodes sh v = Some ev" "\<not> isTombstone ev" using lruVictim_Some [OF v] by (auto simp: liveAt_iff)
    have "v \<noteq> k"
    proof
      assume "v = k"
      have "k \<notin> set ks" using d(1) Suc.prems(2) by (simp add: shape_def)
      then have dead: "\<not> liveAt sh j" if "j \<in> set ks" for j
        using victim_not_recent [of sh "[k]" ks j v] that v Suc.prems(2) \<open>v = k\<close> by auto
      have "(sh_nodes sh)(k := None) = tombs (sh_nodes sh)"
      proof
        fix j show "((sh_nodes sh)(k := None)) j = tombs (sh_nodes sh) j"
          using dead [of j] d(1) Suc.prems(2-4) by (cases "sh_nodes sh j") (auto simp: tombs_def shape_def liveAt_iff)
      qed
      with bytes_of_remove [OF shape_finite [OF d(1)] Suc.prems(3), of lruPolicy] d(4) True Suc.prems(6)
      show False by simp
    qed
    obtain freed sh' g' where e: "evictOne lruPolicy (sh, g) = (freed, sh', g')" by (metis prod_cases3)
    have e': "freed = nodeSize lruPolicy v ev" "sh_nodes sh' = (sh_nodes sh)(v := None)" "sh_list sh' = remove1 v (sh_list sh)"
      using e v ev Suc.prems(2) by (auto simp: lruPolicy_def lruEvictOne_def Let_def nodeSize_def)
    have keep: "sh_nodes sh' k = Some e" using e'(2) Suc.prems(3) \<open>v \<noteq> k\<close> by simp
    have ne: "freed \<noteq> 0" using e'(1) lru.nodeSize_pos [of v ev] by simp
    let ?s2 = "(sh'\<lparr>sh_bytes := sh_bytes sh' - freed\<rparr>, g'\<lparr>total_bytes := total_bytes g' - freed, total_entries := total_entries g' - 1\<rparr>)"
    obtain j where "shard_base lruPolicy lru_ok (X - {j}) (fst ?s2)" "acct a b ?s2"
      using lru.evict_step [OF Suc.prems(1) e ne Suc.prems(5)] by metis
    moreover have "tombs (sh_nodes sh') = tombs (sh_nodes sh)" using tombs_drop_live [of "sh_nodes sh" v ev] ev e'(2) by simp
    ultimately have "sh_nodes (fst (evictLoop n lruPolicy cap ?s2)) k = Some e"
      using Suc.prems(2-6) \<open>v \<noteq> k\<close> keep by (intro Suc.IH) (simp_all add: e'(1,3))
    then show ?thesis using e ne True Suc.prems(2) by simp
  qed (use Suc.prems in simp)
qed

lemma put_nodes:
  assumes "sh_nodes sh k = None \<Longrightarrow> nodeSize lruPolicy k e \<le> cap"
    and "\<And>e0. sh_nodes sh k = Some e0 \<Longrightarrow> \<not> stampOf e < stampOf e0"
    and "shard_ok lruPolicy lru_ok sh" "acct a b (sh, g)"
  obtains sh0 g0 where "shard_base lruPolicy lru_ok {k} sh0" "acct a b (sh0, g0)" "sh_nodes sh0 = (sh_nodes sh)(k \<mapsto> e)"
    "sh_list sh0 = k # remove1 k (sh_list sh)"
    "sh_nodes (fst (snd (putVersionedAt lruPolicy cap ck at k e (sh, g)))) = sh_nodes (fst (evictIfNeeded lruPolicy cap (sh0, g0)))"
proof (cases "sh_nodes sh k")
  case None
  define h where "h = insertNew lruPolicy k e sh"
  define sh0 where "sh0 = h\<lparr>sh_bytes := sh_bytes h + nodeSize lruPolicy k e\<rparr>"
  define g0 where "g0 = g\<lparr>next_version := max (next_version g) (version e + 1),
    total_bytes := total_bytes g + nodeSize lruPolicy k e, total_entries := total_entries g + 1\<rparr>"
  note m = lru.mid_new [where e = e, OF assms(3) None, folded h_def, folded sh0_def]
  have "k \<notin> set (sh_list sh)" using None assms(3) by (auto simp: shard_ok_def shard_base_def shape_def)
  then have "sh_list sh0 = k # remove1 k (sh_list sh)" using m(4) by (simp add: remove1_idem)
  moreover have "acct a b (sh0, g0)" using assms(4) m(4,5) by (simp add: acct_def g0_def)
  moreover have "sh_nodes (fst (snd (putVersionedAt lruPolicy cap ck at k e (sh, g)))) = sh_nodes (fst (evictIfNeeded lruPolicy cap (sh0, g0)))"
    using None assms(1) [OF None]
    by (simp add: putVersionedAt_def putNew_def Let_def h_def [symmetric] sh0_def [symmetric] g0_def
        observeVersion_eq nodeSize_def [symmetric] updateWheelAt_def writeWal_def split: option.split prod.split)
  ultimately show ?thesis using that m(1,3) by blast
next
  case (Some e0)
  define h where "h = applyExisting lruPolicy k e (sh\<lparr>sh_bytes := sh_bytes sh - nodeSize lruPolicy k e0\<rparr>)"
  define sh0 where "sh0 = h\<lparr>sh_bytes := sh_bytes h + nodeSize lruPolicy k e\<rparr>"
  define g0 where "g0 = g\<lparr>next_version := max (next_version g) (version e + 1),
    total_bytes := total_bytes g - nodeSize lruPolicy k e0 + nodeSize lruPolicy k e\<rparr>"
  note m = lru.mid_existing(1-5,7) [where e = e, OF assms(3) Some, folded h_def, folded sh0_def]
    and fits = lru.mid_existing(6) [OF assms(3) Some]
  have "acct a b (sh0, g0)" using assms(4) m(4,5) fits by (simp add: acct_def g0_def)
  moreover have "sh_list sh0 = k # remove1 k (sh_list sh)"
    by (simp add: sh0_def h_def lruPolicy_def lruApplyExisting_def touch_def)
  moreover have "compareLww (stampOf e) (stampOf e0) \<noteq> Less" using assms(2) [OF Some] by (auto simp: compareLww_cases)
  then have "sh_nodes (fst (snd (putVersionedAt lruPolicy cap ck at k e (sh, g)))) = sh_nodes (fst (evictIfNeeded lruPolicy cap (sh0, g0)))"
    using Some
    by (simp add: putVersionedAt_def putExisting_def Let_def h_def [symmetric] sh0_def [symmetric] g0_def
        observeVersion_eq updateWheelAt_def writeWal_def split: option.split prod.split)
  ultimately show ?thesis using that m(1,3) by blast
qed

text \<open>
  C6. Reading one's own write from the LRU store. A live, unexpired entry that is not older than what
  the shard holds, and that fits the shard's capacity together with the tombstones (which capacity
  eviction may not touch), is what the next \<open>get\<close> of that key returns, however much else has to be
  evicted to make room.
\<close>

theorem lru_read_own_write:
  assumes "shard_ok lruPolicy lru_ok sh" "acct a b (sh, g)" "\<not> isTombstone e" "\<not> isExpired now e"
    and "\<forall>e0. sh_nodes sh k = Some e0 \<longrightarrow> \<not> stampOf e < stampOf e0"
    and "nodeSize lruPolicy k e + bytes_of lruPolicy (tombs ((sh_nodes sh)(k := None))) \<le> cap"
    and "putVersionedAt lruPolicy cap ck at k e (sh, g) = (res, s')"
  shows "fst (shardGet lruPolicy now k s') = Some (ve_value e)"
proof -
  obtain sh0 g0 where m: "shard_base lruPolicy lru_ok {k} sh0" "acct a b (sh0, g0)" "sh_nodes sh0 = (sh_nodes sh)(k \<mapsto> e)"
    "sh_list sh0 = k # remove1 k (sh_list sh)"
    "sh_nodes (fst (snd (putVersionedAt lruPolicy cap ck at k e (sh, g)))) = sh_nodes (fst (evictIfNeeded lruPolicy cap (sh0, g0)))"
    by (rule put_nodes [OF _ _ assms(1,2), of k e cap ck at]) (use assms(5,6) in auto)
  have "tombs (sh_nodes sh0) = tombs ((sh_nodes sh)(k := None))"
    using assms(3) by (auto simp: m(3) tombs_def fun_eq_iff)
  then have "sh_nodes (fst (evictIfNeeded lruPolicy cap (sh0, g0))) k = Some e"
    unfolding evictIfNeeded_def using m(2,3) assms(3,6) by (intro lru_evict_keeps_head [OF m(1,4)]) simp_all
  then have "sh_nodes (fst s') k = Some e" using m(5) assms(7) by simp
  then show ?thesis using assms(3,4) by (cases s') (simp add: shardGet_def)
qed

lemma twoShard_ok: "shard_ok lruPolicy lru_ok twoShard" "acct 0 0 (twoShard, (plainGlobals 242)\<lparr>total_bytes := 242, total_entries := 2\<rparr>)"
proof -
  have "ttl_keys (sh_nodes twoShard) = {}" by (auto simp: ttl_keys_def twoShard_def split: if_splits)
  moreover have "dom (sh_nodes twoShard) = {''a'', ''b''}" by (auto simp: twoShard_def)
  then have "bytes_of lruPolicy (sh_nodes twoShard) = 242"
    by (simp add: bytes_of_def) (simp add: twoShard_def nodeSize_def lruPolicy_def)
  ultimately show "shard_ok lruPolicy lru_ok twoShard"
    by (auto simp: shard_ok_def shard_base_def twoShard_def shape_def lru_ok_def)
  show "acct 0 0 (twoShard, (plainGlobals 242)\<lparr>total_bytes := 242, total_entries := 2\<rparr>)" by (simp add: acct_def twoShard_def)
qed

theorem lru_read_own_write_witness:
  "fst (shardGet lruPolicy 7 ''c'' (snd (putVersionedAt lruPolicy 242 \<lparr>ck_now = 0, ck_system = 0\<rparr> 0 ''c'' (emptyEntry\<lparr>ve_value := ''xyz''\<rparr>)
     (twoShard, (plainGlobals 242)\<lparr>total_bytes := 242, total_entries := 2\<rparr>)))) = Some ''xyz''"
proof -
  let ?e = "emptyEntry\<lparr>ve_value := ''xyz''\<rparr>"
  have e: "\<not> isTombstone ?e" "\<not> isExpired 7 ?e"
    by (simp_all add: isTombstone_def isExpired_def hasTtl_def emptyEntry_def)
  have n: "\<forall>e0. sh_nodes twoShard ''c'' = Some e0 \<longrightarrow> \<not> stampOf ?e < stampOf e0" by (simp add: twoShard_def)
  have "tombs ((sh_nodes twoShard)(''c'' := None)) = Map.empty"
    by (auto simp: tombs_def twoShard_def fun_eq_iff split: if_splits)
  then have f: "nodeSize lruPolicy ''c'' ?e + bytes_of lruPolicy (tombs ((sh_nodes twoShard)(''c'' := None))) \<le> 242"
    by (simp add: nodeSize_def lruPolicy_def bytes_of_def)
  show ?thesis
    using lru_read_own_write [OF twoShard_ok e n f surjective_pairing] by simp
qed

end
