(* ===== verification/LfuStore.thy ===== *)
theory LfuStore
  imports LruStore
begin

text \<open>
  The least-frequently-used policy (\<open>include/cinder/store/lfu_store.hpp\<close>, \<open>src/store/lfu_store.cpp\<close>).
  \<open>freq\<close> and \<open>freq_index\<close> are fields of the list node, here functions of the node's key. The ordered map
  \<open>freq_buckets\<close> is an association list sorted by frequency; a bucket is a vector of nodes.
\<close>

section \<open>Model\<close>

record LfuState =
  lf_freq :: "Key \<Rightarrow> nat"
  lf_index :: "Key \<Rightarrow> nat"
  lf_buckets :: "(nat \<times> Key list) list"

definition bucketAt :: "nat \<Rightarrow> (nat \<times> Key list) list \<Rightarrow> Key list" where
  "bucketAt f bs = (case map_of bs f of None \<Rightarrow> [] | Some v \<Rightarrow> v)"

fun bucketPut :: "nat \<Rightarrow> Key list \<Rightarrow> (nat \<times> Key list) list \<Rightarrow> (nat \<times> Key list) list" where
  "bucketPut f v [] = [(f, v)]"
| "bucketPut f v ((g, w) # bs) =
     (if f < g then (f, v) # (g, w) # bs else if f = g then (f, v) # bs else (g, w) # bucketPut f v bs)"

definition bucketErase :: "nat \<Rightarrow> (nat \<times> Key list) list \<Rightarrow> (nat \<times> Key list) list" where
  "bucketErase f bs = filter (\<lambda>b. fst b \<noteq> f) bs"

definition pushBucket :: "Key \<Rightarrow> nat \<Rightarrow> LfuState \<Rightarrow> LfuState" where
  "pushBucket k f p =
     (let vec = bucketAt f (lf_buckets p)
      in p\<lparr>lf_index := (lf_index p)(k := length vec), lf_buckets := bucketPut f (vec @ [k]) (lf_buckets p)\<rparr>)"

text \<open>Take position \<open>idx\<close> out of the vector of frequency \<open>f\<close>: the last node moves there.\<close>

definition swapPop :: "nat \<Rightarrow> Key list \<Rightarrow> nat \<Rightarrow> LfuState \<Rightarrow> LfuState" where
  "swapPop f vec idx p =
     (let (vec, index) = (if idx \<noteq> length vec - 1
            then (vec[idx := last vec], (lf_index p)(last vec := idx)) else (vec, lf_index p));
          vec = butlast vec
      in p\<lparr>lf_index := index,
           lf_buckets := (if vec = [] then bucketErase f (lf_buckets p) else bucketPut f vec (lf_buckets p))\<rparr>)"

definition removeFromFreqBucket :: "Key \<Rightarrow> nat \<Rightarrow> LfuState \<Rightarrow> LfuState" where
  "removeFromFreqBucket k f p =
     (case map_of (lf_buckets p) f of None \<Rightarrow> p | Some vec \<Rightarrow> swapPop f vec (lf_index p k) p)"

definition incrementFreq :: "Key \<Rightarrow> LfuState \<Rightarrow> LfuState" where
  "incrementFreq k p =
     (let old_freq = lf_freq p k;
          new_freq = old_freq + 1;
          p = p\<lparr>lf_freq := (lf_freq p)(k := new_freq)\<rparr>
      in pushBucket k new_freq (removeFromFreqBucket k old_freq p))"

definition onPolicy :: "(LfuState \<Rightarrow> LfuState) \<Rightarrow> LfuState Shard \<Rightarrow> LfuState Shard" where
  "onPolicy f sh = sh\<lparr>sh_policy := f (sh_policy sh)\<rparr>"

definition lfuApplyExisting :: "Key \<Rightarrow> VersionedEntry \<Rightarrow> LfuState Shard \<Rightarrow> LfuState Shard" where
  "lfuApplyExisting k e sh = onPolicy (incrementFreq k) (sh\<lparr>sh_nodes := (sh_nodes sh)(k \<mapsto> e)\<rparr>)"

definition lfuInsertNew :: "Key \<Rightarrow> VersionedEntry \<Rightarrow> LfuState Shard \<Rightarrow> LfuState Shard" where
  "lfuInsertNew k e sh =
     onPolicy (\<lambda>p. pushBucket k 1 (p\<lparr>lf_freq := (lf_freq p)(k := 1)\<rparr>))
       (sh\<lparr>sh_list := k # sh_list sh, sh_nodes := (sh_nodes sh)(k \<mapsto> e)\<rparr>)"

definition lfuOnAccess :: "Key \<Rightarrow> LfuState Shard \<Rightarrow> LfuState Shard" where
  "lfuOnAccess k sh = onPolicy (incrementFreq k) sh"

definition lfuOnEvictExpired :: "Key \<Rightarrow> LfuState Shard \<Rightarrow> LfuState Shard" where
  "lfuOnEvictExpired k sh = onPolicy (\<lambda>p. removeFromFreqBucket k (lf_freq p k) p) sh"

definition shardEntryFreq :: "Key \<Rightarrow> LfuState Shard \<Rightarrow> nat" where
  "shardEntryFreq k sh = (case sh_nodes sh k of None \<Rightarrow> 0 | Some _ \<Rightarrow> lf_freq (sh_policy sh) k)"

definition shardRestoreFreq :: "Key \<Rightarrow> nat \<Rightarrow> LfuState Shard \<Rightarrow> LfuState Shard" where
  "shardRestoreFreq k f sh =
     (if f \<le> 1 then sh
      else if sh_nodes sh k = None \<or> lf_freq (sh_policy sh) k \<ge> f then sh
      else onPolicy (\<lambda>p. let p = removeFromFreqBucket k (lf_freq p k) p;
                             p = p\<lparr>lf_freq := (lf_freq p)(k := f)\<rparr>
                         in pushBucket k f p) sh)"

text \<open>The position of the first live node of a vector, or its length.\<close>

fun firstLive :: "(Key \<Rightarrow> bool) \<Rightarrow> Key list \<Rightarrow> nat" where
  "firstLive live [] = 0"
| "firstLive live (k # vec) = (if live k then 0 else Suc (firstLive live vec))"

fun scanBuckets :: "(Key \<Rightarrow> bool) \<Rightarrow> (nat \<times> Key list) list \<Rightarrow> (nat \<times> Key list \<times> nat) option" where
  "scanBuckets live [] = None"
| "scanBuckets live ((f, vec) # bs) =
     (let victim_idx = firstLive live vec
      in if victim_idx = length vec then scanBuckets live bs else Some (f, vec, victim_idx))"

definition lfuEvictOne :: "LfuState ShardState \<Rightarrow> nat \<times> LfuState ShardState" where
  "lfuEvictOne s =
     (case s of (sh, g) \<Rightarrow>
        if lf_buckets (sh_policy sh) = [] then (0, sh, g)
        else (case scanBuckets (liveAt sh) (lf_buckets (sh_policy sh)) of
           None \<Rightarrow> (0, sh, g)
         | Some (f, vec, victim_idx) \<Rightarrow>
             let k = vec ! victim_idx;
                 sh = onPolicy (swapPop f vec victim_idx) sh
             in (case sh_nodes sh k of
                   None \<Rightarrow> (0, sh, g)
                 | Some e \<Rightarrow>
                     let freed = length k + length (ve_value e) + 136;
                         g = noteRemoved k e g;
                         sh = sh\<lparr>sh_wheel := wheelRemove k (sh_wheel sh)\<rparr>;
                         sh = sh\<lparr>sh_nodes := (sh_nodes sh)(k := None)\<rparr>;
                         sh = sh\<lparr>sh_list := remove1 k (sh_list sh)\<rparr>
                     in (freed, sh, g))))"

definition lfuPolicy :: "LfuState Policy" where
  "lfuPolicy = \<lparr>nodeBytes = 136, applyExisting = lfuApplyExisting, insertNew = lfuInsertNew,
     onAccess = lfuOnAccess, onEvictExpired = lfuOnEvictExpired, evictOne = lfuEvictOne\<rparr>"

section \<open>Buckets\<close>

text \<open>
  \<open>view_ok\<close>: position \<open>i\<close> of bucket \<open>f\<close> holds \<open>k\<close> exactly when \<open>k\<close> is one of the nodes \<open>D\<close> and its fields
  say \<open>f\<close> and \<open>i\<close>.
\<close>

definition view_ok :: "Key set \<Rightarrow> (Key \<Rightarrow> nat) \<Rightarrow> (Key \<Rightarrow> nat) \<Rightarrow> (nat \<Rightarrow> Key list) \<Rightarrow> bool" where
  "view_ok D fr ix B \<longleftrightarrow> (\<forall>k f i. (k \<in> D \<and> fr k = f \<and> ix k = i) \<longleftrightarrow> (i < length (B f) \<and> B f ! i = k))"

definition sorted_buckets :: "(nat \<times> Key list) list \<Rightarrow> bool" where
  "sorted_buckets bs \<longleftrightarrow> sorted_wrt (<) (map fst bs) \<and> (\<forall>b \<in> set bs. snd b \<noteq> [])"

definition lfu_inv :: "Key set \<Rightarrow> LfuState \<Rightarrow> bool" where
  "lfu_inv D p \<longleftrightarrow> sorted_buckets (lf_buckets p) \<and> (\<forall>k \<in> D. 1 \<le> lf_freq p k)
     \<and> view_ok D (lf_freq p) (lf_index p) (\<lambda>f. bucketAt f (lf_buckets p))"

definition lfu_ok :: "LfuState Shard \<Rightarrow> bool" where
  "lfu_ok sh \<longleftrightarrow> lfu_inv (dom (sh_nodes sh)) (sh_policy sh)"

lemma view_push:
  assumes "view_ok D fr ix B" "k \<notin> D"
  shows "view_ok (insert k D) (fr(k := f)) (ix(k := length (B f))) (B(f := B f @ [k]))"
  using assms unfolding view_ok_def
  by (auto simp: nth_append)

lemma view_remove:
  assumes v: "view_ok D fr ix B" and k: "k \<in> D"
  defines "vec \<equiv> B (fr k)"
  shows "view_ok (D - {k}) fr (if ix k \<noteq> length vec - 1 then ix(last vec := ix k) else ix) (B(fr k := punch vec (ix k)))"
proof -
  let ?l = "length vec - 1" and ?i = "ix k"
  have a: "(j \<in> D \<and> fr j = f \<and> ix j = i) \<longleftrightarrow> (i < length (B f) \<and> B f ! i = j)" for j f i
    using v by (simp add: view_ok_def)
  have i: "?i < length vec" "vec ! ?i = k" using a [of k "fr k" ?i] k by (simp_all add: vec_def)
  then have ne: "vec \<noteq> []" and l: "?l < length vec" by auto
  have last: "last vec = vec ! ?l" using ne by (rule last_conv_nth)
  have lD: "vec ! ?l \<in> D" "fr (vec ! ?l) = fr k" "ix (vec ! ?l) = ?l" using a [of "vec ! ?l" "fr k" ?l] l by (simp_all add: vec_def)
  show ?thesis
    unfolding view_ok_def
  proof (intro allI)
    fix j f i'
    show "(j \<in> D - {k} \<and> fr j = f \<and> (if ?i \<noteq> ?l then ix(last vec := ?i) else ix) j = i')
      \<longleftrightarrow> (i' < length ((B(fr k := punch vec ?i)) f) \<and> (B(fr k := punch vec ?i)) f ! i' = j)"
    proof (cases "f = fr k")
      case False
      then show ?thesis using a [of j f i'] lD last by auto
    next
      case True
      have b: "(j \<in> D \<and> fr j = fr k \<and> ix j = i') \<longleftrightarrow> (i' < length vec \<and> vec ! i' = j)"
        using a [of j "fr k" i'] by (simp add: vec_def)
      show ?thesis
      proof (cases "i' < ?l")
        case lt: True
        then show ?thesis
          using b True i lD last by (auto simp: nth_punch split: if_splits)
      next
        case False
        then have "i' < length vec \<Longrightarrow> i' = ?l" by simp
        then show ?thesis
          using b True i lD last False by (auto split: if_splits)
      qed
    qed
  qed
qed

lemma view_cong: "view_ok D fr ix B \<Longrightarrow> (\<And>k. k \<in> D \<Longrightarrow> fr' k = fr k) \<Longrightarrow> view_ok D fr' ix B"
  by (auto simp: view_ok_def) metis+

lemma bucketAt_put: "bucketAt g (bucketPut f v bs) = (if g = f then v else bucketAt g bs)"
  by (induction f v bs rule: bucketPut.induct) (auto simp: bucketAt_def)

lemma bucketAt_erase: "bucketAt g (bucketErase f bs) = (if g = f then [] else bucketAt g bs)"
  by (induction bs) (auto simp: bucketAt_def bucketErase_def)

lemma set_bucketPut: "fst ` set (bucketPut f v bs) = insert f (fst ` set bs)" "set (bucketPut f v bs) \<subseteq> insert (f, v) (set bs)"
  by (induction f v bs rule: bucketPut.induct) auto

lemma sorted_buckets_Cons [simp]:
  "sorted_buckets ((g, w) # bs) \<longleftrightarrow> (\<forall>f \<in> fst ` set bs. g < f) \<and> w \<noteq> [] \<and> sorted_buckets bs"
  by (auto simp: sorted_buckets_def)

lemma sorted_buckets_Nil [simp]: "sorted_buckets []"
  by (simp add: sorted_buckets_def)

lemma sorted_put: "sorted_buckets bs \<Longrightarrow> v \<noteq> [] \<Longrightarrow> sorted_buckets (bucketPut f v bs)"
proof (induction f v bs rule: bucketPut.induct)
  case (2 f v g w bs)
  have "\<forall>x \<in> fst ` set bs. g < x" using 2(2) by simp
  moreover have "sorted_buckets (bucketPut f v bs)" if "\<not> f < g" "f \<noteq> g" using 2 that by simp
  ultimately show ?case using 2(2,3) by (simp add: set_bucketPut(1)) (meson less_trans)
qed simp

lemma sorted_erase: "sorted_buckets bs \<Longrightarrow> sorted_buckets (bucketErase f bs)"
  by (auto simp: sorted_buckets_def bucketErase_def sorted_wrt_map sorted_wrt_filter)

lemma lfu_invD:
  assumes "lfu_inv D p"
  shows "sorted_buckets (lf_buckets p)" "k \<in> D \<Longrightarrow> 1 \<le> lf_freq p k"
    "k \<in> D \<Longrightarrow> lf_index p k < length (bucketAt (lf_freq p k) (lf_buckets p))"
    "k \<in> D \<Longrightarrow> bucketAt (lf_freq p k) (lf_buckets p) ! lf_index p k = k"
    "i < length (bucketAt f (lf_buckets p)) \<Longrightarrow> bucketAt f (lf_buckets p) ! i \<in> D
       \<and> lf_freq p (bucketAt f (lf_buckets p) ! i) = f \<and> lf_index p (bucketAt f (lf_buckets p) ! i) = i"
  using assms by (auto simp: lfu_inv_def view_ok_def)

lemma bucketAt_map_of: "map_of bs f = Some v \<Longrightarrow> bucketAt f bs = v"
  by (simp add: bucketAt_def)

lemma swapPop_inv:
  assumes "lfu_inv D p" "k \<in> D" "vec = bucketAt (lf_freq p k) (lf_buckets p)"
  shows "lfu_inv (D - {k}) (swapPop (lf_freq p k) vec (lf_index p k) p)"
    "lf_freq (swapPop (lf_freq p k) vec (lf_index p k) p) = lf_freq p"
proof -
  let ?f = "lf_freq p k" and ?i = "lf_index p k" and ?q = "swapPop (lf_freq p k) vec (lf_index p k) p"
  have i: "?i < length vec" using lfu_invD(3) [OF assms(1,2)] assms(3) by simp
  then have last: "last vec = vec ! (length vec - 1)" by (intro last_conv_nth) auto
  have q: "lf_index ?q = (if ?i \<noteq> length vec - 1 then (lf_index p)(last vec := ?i) else lf_index p)"
    "lf_buckets ?q = (if punch vec ?i = [] then bucketErase ?f (lf_buckets p) else bucketPut ?f (punch vec ?i) (lf_buckets p))"
    using i by (auto simp: swapPop_def Let_def punch_def last)
  show fr: "lf_freq ?q = lf_freq p" by (simp add: swapPop_def Let_def split: prod.split)
  have "(\<lambda>f. bucketAt f (lf_buckets ?q)) = (\<lambda>f. bucketAt f (lf_buckets p))(?f := punch vec ?i)"
    by (auto simp: q(2) bucketAt_put bucketAt_erase fun_eq_iff)
  moreover have "sorted_buckets (lf_buckets ?q)"
    using lfu_invD(1) [OF assms(1)] by (simp add: q(2) sorted_put sorted_erase)
  moreover have "view_ok D (lf_freq p) (lf_index p) (\<lambda>f. bucketAt f (lf_buckets p))" "\<forall>k \<in> D. 1 \<le> lf_freq p k"
    using assms(1) by (simp_all add: lfu_inv_def)
  ultimately show "lfu_inv (D - {k}) ?q"
    unfolding lfu_inv_def fr q(1)
    using view_remove [of D "lf_freq p" "lf_index p" "\<lambda>f. bucketAt f (lf_buckets p)" k, folded assms(3)] assms(2)
    by simp
qed

lemma removeFromFreqBucket_inv:
  assumes "lfu_inv D p" "k \<in> D"
  shows "lfu_inv (D - {k}) (removeFromFreqBucket k (lf_freq p k) p)"
    "lf_freq (removeFromFreqBucket k (lf_freq p k) p) = lf_freq p"
proof -
  obtain vec where v: "map_of (lf_buckets p) (lf_freq p k) = Some vec"
    using lfu_invD(3) [OF assms] by (auto simp: bucketAt_def split: option.splits)
  from swapPop_inv [OF assms bucketAt_map_of [OF v, symmetric]]
  show "lfu_inv (D - {k}) (removeFromFreqBucket k (lf_freq p k) p)"
    "lf_freq (removeFromFreqBucket k (lf_freq p k) p) = lf_freq p"
    by (simp_all add: removeFromFreqBucket_def v)
qed

lemma removeFromFreqBucket_freq:
  "removeFromFreqBucket k f (p\<lparr>lf_freq := x\<rparr>) = (removeFromFreqBucket k f p)\<lparr>lf_freq := x\<rparr>"
  by (auto simp: removeFromFreqBucket_def swapPop_def Let_def split: option.splits prod.splits)

lemma pushBucket_inv:
  assumes "lfu_inv D p" "k \<notin> D" "1 \<le> f"
  shows "lfu_inv (insert k D) (pushBucket k f (p\<lparr>lf_freq := (lf_freq p)(k := f)\<rparr>))"
proof -
  let ?q = "pushBucket k f (p\<lparr>lf_freq := (lf_freq p)(k := f)\<rparr>)"
  have "(\<lambda>g. bucketAt g (lf_buckets ?q)) = (\<lambda>g. bucketAt g (lf_buckets p))(f := bucketAt f (lf_buckets p) @ [k])"
    by (auto simp: pushBucket_def Let_def bucketAt_put)
  moreover have "view_ok D (lf_freq p) (lf_index p) (\<lambda>f. bucketAt f (lf_buckets p))" using assms(1) by (simp add: lfu_inv_def)
  note view_push [OF this assms(2), of f]
  moreover have "sorted_buckets (lf_buckets ?q)" using lfu_invD(1) [OF assms(1)] by (simp add: pushBucket_def Let_def sorted_put)
  moreover have "lf_freq ?q = (lf_freq p)(k := f)" "lf_index ?q = (lf_index p)(k := length (bucketAt f (lf_buckets p)))"
    by (simp_all add: pushBucket_def Let_def)
  ultimately show ?thesis using assms(1,3) by (simp add: lfu_inv_def)
qed

lemma setFreq_inv:
  assumes "lfu_inv D p" "k \<in> D" "1 \<le> f"
  defines "q \<equiv> removeFromFreqBucket k (lf_freq p k) p"
  shows "lfu_inv D (pushBucket k f (q\<lparr>lf_freq := (lf_freq q)(k := f)\<rparr>))"
    "lf_freq (pushBucket k f (q\<lparr>lf_freq := (lf_freq q)(k := f)\<rparr>)) = (lf_freq p)(k := f)"
proof -
  note r = removeFromFreqBucket_inv [OF assms(1,2), folded q_def]
  show "lfu_inv D (pushBucket k f (q\<lparr>lf_freq := (lf_freq q)(k := f)\<rparr>))"
    using pushBucket_inv [OF r(1) _ assms(3), of k] assms(2) by (simp add: insert_absorb)
  show "lf_freq (pushBucket k f (q\<lparr>lf_freq := (lf_freq q)(k := f)\<rparr>)) = (lf_freq p)(k := f)"
    by (simp add: pushBucket_def Let_def r(2))
qed

lemma incrementFreq_inv:
  assumes "lfu_inv D p" "k \<in> D"
  shows "lfu_inv D (incrementFreq k p)" "lf_freq (incrementFreq k p) = (lf_freq p)(k := lf_freq p k + 1)"
  using setFreq_inv [OF assms, of "lf_freq p k + 1"] removeFromFreqBucket_inv(2) [OF assms]
  by (simp_all add: incrementFreq_def Let_def removeFromFreqBucket_freq)

section \<open>The policy keeps the contract\<close>

lemma firstLive_le: "firstLive live vec \<le> length vec"
  by (induction vec) auto

lemma firstLive_live: "firstLive live vec \<noteq> length vec \<Longrightarrow> live (vec ! firstLive live vec)"
  by (induction vec) auto

lemma firstLive_none: "firstLive live vec = length vec \<longleftrightarrow> (\<forall>k \<in> set vec. \<not> live k)"
  by (induction vec) auto

lemma scan_None: "scanBuckets live bs = None \<longleftrightarrow> (\<forall>b \<in> set bs. \<forall>k \<in> set (snd b). \<not> live k)"
proof (induction bs)
  case (Cons b bs)
  then show ?case by (cases b) (auto simp: Let_def firstLive_none)
qed simp

lemma scan_Some:
  "sorted_buckets bs \<Longrightarrow> scanBuckets live bs = Some (f, vec, i) \<Longrightarrow>
   map_of bs f = Some vec \<and> i < length vec \<and> live (vec ! i)
   \<and> (\<forall>g v k. map_of bs g = Some v \<and> k \<in> set v \<and> live k \<longrightarrow> f \<le> g)"
proof (induction live bs rule: scanBuckets.induct)
  case (2 live g v bs)
  show ?case
  proof (cases "firstLive live v = length v")
    case True
    then have s: "scanBuckets live bs = Some (f, vec, i)" using 2(3) by simp
    with 2(1) [OF refl True] 2(2) have ih: "map_of bs f = Some vec" "i < length vec" "live (vec ! i)"
      "\<forall>g v k. map_of bs g = Some v \<and> k \<in> set v \<and> live k \<longrightarrow> f \<le> g" by auto
    then have "f \<in> fst ` set bs" by (metis domI dom_map_of_conv_image_fst)
    then have "f \<noteq> g" using 2(2) by auto
    with ih True show ?thesis by (auto simp: firstLive_none)
  next
    case False
    then have e: "f = g" "vec = v" "i = firstLive live v" using 2(3) by (auto simp: Let_def)
    have "g \<le> g'" if "map_of bs g' = Some v'" for g' v'
    proof -
      have "g' \<in> fst ` set bs" using that by (metis domI dom_map_of_conv_image_fst)
      then show ?thesis using 2(2) by (auto simp: less_imp_le)
    qed
    then show ?thesis using e False firstLive_live [OF False] firstLive_le [of live v] by auto
  qed
qed simp

lemma lfu_scan:
  assumes "lfu_ok sh" "scanBuckets (liveAt sh) (lf_buckets (sh_policy sh)) = Some (f, vec, i)"
  obtains k e where "vec ! i = k" "sh_nodes sh k = Some e" "\<not> isTombstone e" "lf_freq (sh_policy sh) k = f"
    "lf_index (sh_policy sh) k = i" "vec = bucketAt f (lf_buckets (sh_policy sh))"
    "\<And>j. liveAt sh j \<Longrightarrow> f \<le> lf_freq (sh_policy sh) j"
proof -
  let ?p = "sh_policy sh"
  have inv: "lfu_inv (dom (sh_nodes sh)) ?p" using assms(1) by (simp add: lfu_ok_def)
  note s = scan_Some [OF lfu_invD(1) [OF inv] assms(2)]
  have v: "vec = bucketAt f (lf_buckets ?p)" using s by (simp add: bucketAt_map_of)
  have "vec ! i \<in> dom (sh_nodes sh) \<and> lf_freq ?p (vec ! i) = f \<and> lf_index ?p (vec ! i) = i"
    using lfu_invD(5) [OF inv, of i f] s v by simp
  moreover have "f \<le> lf_freq ?p j" if "liveAt sh j" for j
  proof -
    have "j \<in> dom (sh_nodes sh)" using that by (auto simp: liveAt_iff)
    note b = lfu_invD(3,4) [OF inv this]
    then obtain v where "map_of (lf_buckets ?p) (lf_freq ?p j) = Some v" "j \<in> set v"
      by (auto simp: bucketAt_def split: option.splits) (metis nth_mem)
    then show ?thesis using s that by blast
  qed
  ultimately show ?thesis using that s v by (auto simp: liveAt_iff)
qed

lemma lfu_scan_None:
  assumes "lfu_ok sh" "scanBuckets (liveAt sh) (lf_buckets (sh_policy sh)) = None" "sh_nodes sh k = Some e"
  shows "isTombstone e"
proof (rule ccontr)
  assume "\<not> isTombstone e"
  let ?p = "sh_policy sh"
  have "lfu_inv (dom (sh_nodes sh)) ?p" "k \<in> dom (sh_nodes sh)" using assms(1,3) by (auto simp: lfu_ok_def)
  note b = lfu_invD(3,4) [OF this]
  then obtain v where "map_of (lf_buckets ?p) (lf_freq ?p k) = Some v" "k \<in> set v"
    by (auto simp: bucketAt_def split: option.splits) (metis nth_mem)
  then show False
    using assms(2,3) \<open>\<not> isTombstone e\<close> by (fastforce simp: scan_None liveAt_iff dest!: map_of_SomeD)
qed

lemma lfuEvictOne_cases:
  assumes "lfu_ok sh" "lfuEvictOne (sh, g) = (freed, sh', g')"
  shows "(freed = 0 \<and> sh' = sh \<and> g' = g \<and> (\<forall>k e. sh_nodes sh k = Some e \<longrightarrow> isTombstone e))
    \<or> (\<exists>k e. sh_nodes sh k = Some e \<and> \<not> isTombstone e \<and> freed = nodeSize lfuPolicy k e
        \<and> sh_nodes sh' = (sh_nodes sh)(k := None) \<and> sh_list sh' = remove1 k (sh_list sh)
        \<and> sh_wheel sh' = wheelRemove k (sh_wheel sh) \<and> sh_bytes sh' = sh_bytes sh
        \<and> sh_last_evict sh' = sh_last_evict sh \<and> lfu_ok sh' \<and> g' = noteRemoved k e g
        \<and> lf_freq (sh_policy sh') = lf_freq (sh_policy sh)
        \<and> (\<forall>j. liveAt sh j \<longrightarrow> lf_freq (sh_policy sh) k \<le> lf_freq (sh_policy sh) j))"
proof (cases "scanBuckets (liveAt sh) (lf_buckets (sh_policy sh))")
  case None
  have "freed = 0 \<and> sh' = sh \<and> g' = g" using assms(2) None by (auto simp: lfuEvictOne_def split: if_splits)
  then show ?thesis using lfu_scan_None [OF assms(1) None] by blast
next
  case (Some a)
  then obtain f vec i where sc: "scanBuckets (liveAt sh) (lf_buckets (sh_policy sh)) = Some (f, vec, i)" by (metis prod_cases3)
  from lfu_scan [OF assms(1) sc] obtain k e where k: "vec ! i = k" "sh_nodes sh k = Some e" "\<not> isTombstone e"
    "lf_freq (sh_policy sh) k = f" "lf_index (sh_policy sh) k = i" "vec = bucketAt f (lf_buckets (sh_policy sh))"
    "\<And>j. liveAt sh j \<Longrightarrow> f \<le> lf_freq (sh_policy sh) j" by metis
  have inv: "lfu_inv (dom (sh_nodes sh)) (sh_policy sh)" using assms(1) by (simp add: lfu_ok_def)
  have kd: "k \<in> dom (sh_nodes sh)" using k(2) by blast
  have vec: "vec = bucketAt (lf_freq (sh_policy sh) k) (lf_buckets (sh_policy sh))" using k(4,6) by simp
  note sp = swapPop_inv [OF inv kd vec, unfolded k(4,5)]
  have ne: "lf_buckets (sh_policy sh) \<noteq> []" using sc by auto
  have r: "freed = nodeSize lfuPolicy k e" "g' = noteRemoved k e g"
    "sh' = (onPolicy (swapPop f vec i) sh)\<lparr>sh_wheel := wheelRemove k (sh_wheel sh), sh_nodes := (sh_nodes sh)(k := None),
      sh_list := remove1 k (sh_list sh)\<rparr>"
    using assms(2) ne sc k(1,2) by (auto simp: lfuEvictOne_def Let_def onPolicy_def nodeSize_def lfuPolicy_def)
  show ?thesis
    using k sp r by (intro disjI2 exI [of _ k] exI [of _ e]) (simp add: onPolicy_def lfu_ok_def)
qed

interpretation lfu: eviction_policy lfuPolicy lfu_ok
proof
  fix sh :: "LfuState Shard" and k e e0 and g g' :: Globals and freed sh'
  assume sh: "shape sh" and ok: "lfu_ok sh"
  have inv: "lfu_inv (dom (sh_nodes sh)) (sh_policy sh)" using ok by (simp add: lfu_ok_def)
  show "sh_nodes (applyExisting lfuPolicy k e sh) = (sh_nodes sh)(k \<mapsto> e)
      \<and> mset (sh_list (applyExisting lfuPolicy k e sh)) = mset (sh_list sh)
      \<and> sameCore sh (applyExisting lfuPolicy k e sh) \<and> lfu_ok (applyExisting lfuPolicy k e sh)"
    if k: "sh_nodes sh k = Some e0"
  proof -
    have "k \<in> dom (sh_nodes sh)" using k by blast
    from incrementFreq_inv(1) [OF inv this] this show ?thesis
      by (simp add: lfuPolicy_def lfuApplyExisting_def onPolicy_def sameCore_def lfu_ok_def insert_absorb)
  qed
  show "sh_nodes (insertNew lfuPolicy k e sh) = (sh_nodes sh)(k \<mapsto> e)
      \<and> sh_list (insertNew lfuPolicy k e sh) = k # sh_list sh
      \<and> sameCore sh (insertNew lfuPolicy k e sh) \<and> lfu_ok (insertNew lfuPolicy k e sh)"
    if k: "sh_nodes sh k = None"
  proof -
    have "k \<notin> dom (sh_nodes sh)" using k by blast
    from pushBucket_inv [OF inv this, of 1] show ?thesis
      by (simp add: lfuPolicy_def lfuInsertNew_def onPolicy_def sameCore_def lfu_ok_def)
  qed
  show "sh_nodes (onAccess lfuPolicy k sh) = sh_nodes sh \<and> mset (sh_list (onAccess lfuPolicy k sh)) = mset (sh_list sh)
      \<and> sameCore sh (onAccess lfuPolicy k sh) \<and> lfu_ok (onAccess lfuPolicy k sh)"
    if k: "sh_nodes sh k = Some e"
  proof -
    have "k \<in> dom (sh_nodes sh)" using k by blast
    from incrementFreq_inv(1) [OF inv this] show ?thesis
      by (simp add: lfuPolicy_def lfuOnAccess_def onPolicy_def sameCore_def lfu_ok_def)
  qed
  show "sh_nodes (onEvictExpired lfuPolicy k sh) = sh_nodes sh \<and> sh_list (onEvictExpired lfuPolicy k sh) = sh_list sh
      \<and> sameCore sh (onEvictExpired lfuPolicy k sh)
      \<and> lfu_ok ((onEvictExpired lfuPolicy k sh)\<lparr>sh_list := remove1 k (sh_list sh), sh_nodes := (sh_nodes sh)(k := None)\<rparr>)"
    if k: "sh_nodes sh k = Some e"
  proof -
    have "k \<in> dom (sh_nodes sh)" using k by blast
    from removeFromFreqBucket_inv(1) [OF inv this] show ?thesis
      by (simp add: lfuPolicy_def lfuOnEvictExpired_def onPolicy_def sameCore_def lfu_ok_def)
  qed
  assume "evictOne lfuPolicy (sh, g) = (freed, sh', g')"
  then have "lfuEvictOne (sh, g) = (freed, sh', g')" by (simp add: lfuPolicy_def)
  from lfuEvictOne_cases [OF ok this]
  show "(freed = 0 \<and> sh' = sh \<and> g' = g \<and> (\<forall>k e. sh_nodes sh k = Some e \<longrightarrow> isTombstone e))
      \<or> (\<exists>k e. sh_nodes sh k = Some e \<and> \<not> isTombstone e \<and> freed = nodeSize lfuPolicy k e
          \<and> sh_nodes sh' = (sh_nodes sh)(k := None) \<and> sh_list sh' = remove1 k (sh_list sh)
          \<and> sh_wheel sh' = wheelRemove k (sh_wheel sh) \<and> sh_bytes sh' = sh_bytes sh
          \<and> sh_last_evict sh' = sh_last_evict sh \<and> lfu_ok sh' \<and> g' = noteRemoved k e g)"
    by blast
qed (auto simp: lfuPolicy_def lfuOnEvictExpired_def onPolicy_def lfu_ok_def)

section \<open>Eviction order and frequencies\<close>

text \<open>
  C7. Eviction order of the LFU store. As long as a live entry exists, \<open>evictOne\<close> removes exactly one
  live entry, and no live entry has a lower access frequency than the one removed; frequencies of
  the others and the consistency of the bucket index are kept.
\<close>

theorem lfu_evicts_least_frequent:
  assumes "lfu_ok sh" "lfuEvictOne (sh, g) = (freed, sh', g')" "liveAt sh j"
  shows "\<exists>k e. sh_nodes sh k = Some e \<and> \<not> isTombstone e \<and> freed = nodeSize lfuPolicy k e
    \<and> sh_nodes sh' = (sh_nodes sh)(k := None) \<and> lfu_ok sh'
    \<and> (\<forall>i. liveAt sh i \<longrightarrow> shardEntryFreq k sh \<le> shardEntryFreq i sh)
    \<and> (\<forall>i. i \<noteq> k \<longrightarrow> shardEntryFreq i sh' = shardEntryFreq i sh)"
proof -
  from lfuEvictOne_cases [OF assms(1,2)] assms(3) obtain k e where k: "sh_nodes sh k = Some e" "\<not> isTombstone e"
    "freed = nodeSize lfuPolicy k e" "sh_nodes sh' = (sh_nodes sh)(k := None)" "lfu_ok sh'"
    "lf_freq (sh_policy sh') = lf_freq (sh_policy sh)"
    "\<And>j. liveAt sh j \<Longrightarrow> lf_freq (sh_policy sh) k \<le> lf_freq (sh_policy sh) j"
    by (auto simp: liveAt_iff)
  show ?thesis
  proof (intro exI [of _ k] exI [of _ e] conjI allI impI)
    show "sh_nodes sh k = Some e" "\<not> isTombstone e" "freed = nodeSize lfuPolicy k e"
      "sh_nodes sh' = (sh_nodes sh)(k := None)" "lfu_ok sh'" by (fact k)+
    show "shardEntryFreq k sh \<le> shardEntryFreq i sh" if "liveAt sh i" for i
      using k(7) [OF that] that k(1) by (auto simp: shardEntryFreq_def liveAt_iff)
    show "shardEntryFreq i sh' = shardEntryFreq i sh" if "i \<noteq> k" for i
      using that by (simp add: shardEntryFreq_def k(4,6) split: option.split)
  qed
qed

text \<open>Three entries in two buckets; the first of the lowest bucket is a tombstone.\<close>

definition lfuShard :: "LfuState Shard" where
  "lfuShard = \<lparr>sh_list = [''c'', ''b'', ''a''],
     sh_nodes = [''a'' \<mapsto> setTombstone True emptyEntry, ''b'' \<mapsto> emptyEntry, ''c'' \<mapsto> emptyEntry],
     sh_wheel = emptyWheel, sh_bytes = 411, sh_last_evict = 0,
     sh_policy = \<lparr>lf_freq = (\<lambda>k. if k = ''c'' then 3 else 1), lf_index = (\<lambda>k. if k = ''b'' then 1 else 0),
       lf_buckets = [(1, [''a'', ''b'']), (3, [''c''])]\<rparr>\<rparr>"

lemma lfuShard_ok: "lfu_ok lfuShard"
proof -
  have b: "bucketAt f [(1, [''a'', ''b'']), (3, [''c''])] = (if f = 1 then [''a'', ''b''] else if f = 3 then [''c''] else [])" for f
    by (simp add: bucketAt_def)
  have "view_ok {''a'', ''b'', ''c''} (\<lambda>k. if k = ''c'' then 3 else 1) (\<lambda>k. if k = ''b'' then 1 else 0)
    (\<lambda>f. bucketAt f [(1, [''a'', ''b'']), (3, [''c''])])"
    unfolding view_ok_def b by (auto simp: nth_Cons less_Suc_eq split: nat.splits)
  moreover have "dom (sh_nodes lfuShard) = {''a'', ''b'', ''c''}" by (auto simp: lfuShard_def)
  ultimately show ?thesis by (auto simp: lfu_ok_def lfu_inv_def lfuShard_def)
qed

theorem lfu_evicts_least_frequent_witness:
  "sh_nodes (fst (snd (lfuEvictOne (lfuShard, plainGlobals 500)))) ''b'' = None
   \<and> sh_nodes (fst (snd (lfuEvictOne (lfuShard, plainGlobals 500)))) ''a'' \<noteq> None"
proof -
  obtain f sh' g' where r: "lfuEvictOne (lfuShard, plainGlobals 500) = (f, sh', g')" by (metis prod_cases3)
  have live: "liveAt lfuShard ''b''" "liveAt lfuShard ''c''" "\<not> liveAt lfuShard ''a''"
    by (simp_all add: liveAt_def lfuShard_def)
  obtain k e where k: "sh_nodes lfuShard k = Some e" "\<not> isTombstone e" "sh_nodes sh' = (sh_nodes lfuShard)(k := None)"
    "\<forall>i. liveAt lfuShard i \<longrightarrow> shardEntryFreq k lfuShard \<le> shardEntryFreq i lfuShard"
    using lfu_evicts_least_frequent [OF lfuShard_ok r live(1)] by blast
  have "shardEntryFreq ''b'' lfuShard = 1" "shardEntryFreq ''c'' lfuShard = 3" by (simp_all add: shardEntryFreq_def lfuShard_def)
  then have "k \<noteq> ''c''" using k(4) live(1) by fastforce
  then have "k = ''b''" using k(1,2) by (auto simp: lfuShard_def split: if_splits)
  then show ?thesis by (simp add: r k(3)) (simp add: lfuShard_def)
qed

lemma gets_freq:
  "\<forall>k \<in> set ks. liveAt sh k \<and> \<not> isExpired now (entryAt sh k) \<Longrightarrow> lfu_ok sh \<Longrightarrow>
   \<exists>sh1. shardGets lfuPolicy now ks (sh, g) = (sh1, g) \<and> sh_nodes sh1 = sh_nodes sh \<and> lfu_ok sh1
     \<and> lf_freq (sh_policy sh1) = (\<lambda>k. lf_freq (sh_policy sh) k + count_list ks k)"
proof (induction ks arbitrary: sh)
  case (Cons k ks)
  obtain e where e: "sh_nodes sh k = Some e" "\<not> isTombstone e" "\<not> isExpired now e"
    using Cons.prems(1) by (auto simp: liveAt_iff entryAt_def)
  let ?sh = "lfuOnAccess k sh"
  have inv: "lfu_inv (dom (sh_nodes sh)) (sh_policy sh)" and kd: "k \<in> dom (sh_nodes sh)"
    using Cons.prems(2) e(1) by (auto simp: lfu_ok_def)
  note i = incrementFreq_inv [OF inv kd]
  have n: "sh_nodes ?sh = sh_nodes sh" "sh_policy ?sh = incrementFreq k (sh_policy sh)" by (simp_all add: lfuOnAccess_def onPolicy_def)
  have "\<forall>j \<in> set ks. liveAt ?sh j \<and> \<not> isExpired now (entryAt ?sh j)" "lfu_ok ?sh"
    using Cons.prems i by (auto simp: liveAt_def entryAt_def n lfu_ok_def)
  from Cons.IH [OF this] obtain sh1 where A: "shardGets lfuPolicy now ks (?sh, g) = (sh1, g)" "sh_nodes sh1 = sh_nodes sh" "lfu_ok sh1"
    "lf_freq (sh_policy sh1) = (\<lambda>j. lf_freq (sh_policy ?sh) j + count_list ks j)" by (auto simp: n)
  moreover have "shardGets lfuPolicy now (k # ks) (sh, g) = shardGets lfuPolicy now ks (?sh, g)"
    using e by (simp add: shardGet_def lfuPolicy_def)
  ultimately show ?case by (auto simp: n i)
qed simp

text \<open>
  C9. Frequencies of the LFU store. Reading live keys adds to each key's frequency the number of times
  it was read, and restoring a saved frequency raises the key's frequency to it, never lowers it and
  leaves every other key alone; an absent key has frequency zero and is not created. Both keep the
  bucket index consistent.
\<close>

theorem lfu_frequency_accounting:
  assumes "lfu_ok sh" "\<forall>k \<in> set ks. liveAt sh k \<and> \<not> isExpired now (entryAt sh k)"
    and "shardGets lfuPolicy now ks (sh, g) = (sh1, g1)"
  shows "lfu_ok sh1 \<and> g1 = g
    \<and> shardEntryFreq k sh1 = (if sh_nodes sh k = None then 0 else shardEntryFreq k sh + count_list ks k)
    \<and> lfu_ok (shardRestoreFreq k f sh1) \<and> sh_nodes (shardRestoreFreq k f sh1) = sh_nodes sh
    \<and> shardEntryFreq j (shardRestoreFreq k f sh1)
        = (if j = k \<and> sh_nodes sh k \<noteq> None then max (shardEntryFreq k sh1) f else shardEntryFreq j sh1)"
proof -
  obtain A: "sh_nodes sh1 = sh_nodes sh" "lfu_ok sh1" "g1 = g"
    "lf_freq (sh_policy sh1) = (\<lambda>k. lf_freq (sh_policy sh) k + count_list ks k)"
    using gets_freq [OF assms(2,1), of g] assms(3) by auto
  have inv: "lfu_inv (dom (sh_nodes sh1)) (sh_policy sh1)" using A(2) by (simp add: lfu_ok_def)
  have c: "count_list ks k = 0" if "sh_nodes sh k = None" for k
    using assms(2) that by (auto simp: liveAt_iff count_list_0_iff)
  have r: "lfu_ok (shardRestoreFreq k f sh1) \<and> sh_nodes (shardRestoreFreq k f sh1) = sh_nodes sh1
    \<and> shardEntryFreq j (shardRestoreFreq k f sh1)
        = (if j = k \<and> sh_nodes sh1 k \<noteq> None then max (shardEntryFreq k sh1) f else shardEntryFreq j sh1)"
  proof (cases "f \<le> 1 \<or> sh_nodes sh1 k = None \<or> lf_freq (sh_policy sh1) k \<ge> f")
    case True
    then have "shardRestoreFreq k f sh1 = sh1" by (auto simp: shardRestoreFreq_def)
    moreover have "f \<le> shardEntryFreq k sh1" if "sh_nodes sh1 k \<noteq> None"
      using True that lfu_invD(2) [OF inv, of k, OF domIff [THEN iffD2]] by (auto simp: shardEntryFreq_def)
    ultimately show ?thesis using A(2) by auto
  next
    case False
    then obtain e where e: "sh_nodes sh1 k = Some e" and kd: "k \<in> dom (sh_nodes sh1)" and f: "1 \<le> f" "lf_freq (sh_policy sh1) k < f" by auto
    define q where "q = removeFromFreqBucket k (lf_freq (sh_policy sh1) k) (sh_policy sh1)"
    note s = setFreq_inv [OF inv kd f(1), folded q_def]
    have "shardRestoreFreq k f sh1 = sh1\<lparr>sh_policy := pushBucket k f (q\<lparr>lf_freq := (lf_freq q)(k := f)\<rparr>)\<rparr>"
      using False e by (simp add: shardRestoreFreq_def onPolicy_def q_def Let_def)
    then show ?thesis using s e f by (simp add: lfu_ok_def shardEntryFreq_def split: option.split)
  qed
  show ?thesis using A r c by (auto simp: shardEntryFreq_def split: option.splits)
qed

theorem lfu_frequency_accounting_witness:
  "shardEntryFreq ''b'' (fst (shardGets lfuPolicy 9 [''b'', ''c'', ''b''] (lfuShard, plainGlobals 500))) = 3
   \<and> shardEntryFreq ''b'' (shardRestoreFreq ''b'' 2 (fst (shardGets lfuPolicy 9 [''b'', ''c'', ''b''] (lfuShard, plainGlobals 500)))) = 3"
proof -
  have live: "\<forall>k \<in> set [''b'', ''c'', ''b'']. liveAt lfuShard k \<and> \<not> isExpired 9 (entryAt lfuShard k)"
    by (simp add: liveAt_def lfuShard_def entryAt_def isExpired_def)
  have "shardEntryFreq ''b'' lfuShard = 1" "sh_nodes lfuShard ''b'' \<noteq> None" by (simp_all add: shardEntryFreq_def lfuShard_def)
  then show ?thesis
    using lfu_frequency_accounting [OF lfuShard_ok live surjective_pairing, of "plainGlobals 500" "''b''" 2 "''b''"]
    by (simp add: count_list.simps)
qed

end
