(* ===== verification/EvictionStore.thy ===== *)
theory EvictionStore
  imports LfuStore
begin

text \<open>
  The whole store (\<open>EvictionStoreBase\<close> in \<open>include/cinder/store/detail/eviction_store_base.hpp\<close>): a vector
  of shards with global counters. \<open>std::hash<std::string_view>\<close> is the parameter \<open>h\<close>. Each operation takes
  one shard, as the code holds one shard mutex at a time.
\<close>

section \<open>Model\<close>

record 'p StoreSt =
  shards :: "'p Shard list"
  globals :: Globals

definition newShard :: "'p \<Rightarrow> int \<Rightarrow> 'p Shard" where
  "newShard p now = \<lparr>sh_list = [], sh_nodes = Map.empty, sh_wheel = emptyWheel, sh_bytes = 0,
     sh_last_evict = now, sh_policy = p\<rparr>"

definition newStore :: "'p \<Rightarrow> nat \<Rightarrow> Clock \<Rightarrow> 'p StoreSt" where
  "newStore p cap ck =
     \<lparr>shards = replicate (shardCountFor cap) (newShard p (ck_now ck)),
      globals = \<lparr>capacity_bytes = cap, next_version = word_of_int (ck_now ck), tombstone_gc = 300000,
        total_bytes = 0, total_entries = 0, mut_log = [], wal_log = []\<rparr>\<rparr>"

definition shardFor :: "(Key \<Rightarrow> nat) \<Rightarrow> 'p StoreSt \<Rightarrow> Key \<Rightarrow> nat" where
  "shardFor h s k = h k mod length (shards s)"

definition withShard :: "nat \<Rightarrow> ('p ShardState \<Rightarrow> 'r \<times> 'p ShardState) \<Rightarrow> 'p StoreSt \<Rightarrow> 'r \<times> 'p StoreSt" where
  "withShard i f s =
     (case f (shards s ! i, globals s) of
        (r, sh, g) \<Rightarrow> (r, s\<lparr>shards := (shards s)[i := sh], globals := g\<rparr>))"

definition capOf :: "'p StoreSt \<Rightarrow> nat" where
  "capOf s = shardCapacity (length (shards s)) (globals s)"

definition storePutVersionedAt :: "'p Policy \<Rightarrow> (Key \<Rightarrow> nat) \<Rightarrow> Clock \<Rightarrow> int \<Rightarrow> Key \<Rightarrow> VersionedEntry \<Rightarrow>
    'p StoreSt \<Rightarrow> unit Result \<times> 'p StoreSt" where
  "storePutVersionedAt pol h ck at k e s =
     withShard (shardFor h s k) (putVersionedAt pol (capOf s) ck at k e) s"

definition storePutVersioned :: "'p Policy \<Rightarrow> (Key \<Rightarrow> nat) \<Rightarrow> Clock \<Rightarrow> Key \<Rightarrow> VersionedEntry \<Rightarrow>
    'p StoreSt \<Rightarrow> unit Result \<times> 'p StoreSt" where
  "storePutVersioned pol h ck k e s =
     (let at = (if hasTtl e then ck_now ck else 0) in storePutVersionedAt pol h ck at k e s)"

definition storePut :: "'p Policy \<Rightarrow> (Key \<Rightarrow> nat) \<Rightarrow> Clock \<Rightarrow> Key \<Rightarrow> bytes \<Rightarrow> int option \<Rightarrow>
    'p StoreSt \<Rightarrow> unit Result \<times> 'p StoreSt" where
  "storePut pol h ck k v ttl s =
     (case mintVersion (globals s) of
        (ver, g) \<Rightarrow>
          let s = s\<lparr>globals := g\<rparr>;
              e = setVersion ver (emptyEntry\<lparr>ve_value := v\<rparr>)
          in case ttl of
               Some ms \<Rightarrow>
                 let at = ck_now ck
                 in storePutVersionedAt pol h ck at k (setHasTtl True (e\<lparr>expires_at := at + ms * 1000000\<rparr>)) s
             | None \<Rightarrow> storePutVersioned pol h ck k e s)"

definition storeGet :: "'p Policy \<Rightarrow> (Key \<Rightarrow> nat) \<Rightarrow> Clock \<Rightarrow> Key \<Rightarrow> 'p StoreSt \<Rightarrow> bytes option \<times> 'p StoreSt" where
  "storeGet pol h ck k s = withShard (shardFor h s k) (shardGet pol (ck_now ck) k) s"

definition storeGetVersioned :: "'p Policy \<Rightarrow> (Key \<Rightarrow> nat) \<Rightarrow> Clock \<Rightarrow> Key \<Rightarrow> 'p StoreSt \<Rightarrow>
    VersionedEntry option \<times> 'p StoreSt" where
  "storeGetVersioned pol h ck k s = withShard (shardFor h s k) (shardGetVersioned pol (ck_now ck) k) s"

definition storeRemove :: "'p Policy \<Rightarrow> (Key \<Rightarrow> nat) \<Rightarrow> Key \<Rightarrow> 'p StoreSt \<Rightarrow> bool \<times> 'p StoreSt" where
  "storeRemove pol h k s = withShard (shardFor h s k) (shardRemove pol k) s"

definition storeRemoveVersioned :: "'p Policy \<Rightarrow> (Key \<Rightarrow> nat) \<Rightarrow> Clock \<Rightarrow> Key \<Rightarrow> Version \<Rightarrow> u64 \<Rightarrow>
    'p StoreSt \<Rightarrow> unit Result \<times> 'p StoreSt" where
  "storeRemoveVersioned pol h ck k ver writer s =
     (let tomb = setTombstone True (setVersion ver emptyEntry)\<lparr>writer_node_hash := writer\<rparr>;
          at = ck_now ck;
          tomb = setHasTtl True (tomb\<lparr>expires_at := at + tombstone_gc (globals s) * 1000000\<rparr>)
      in storePutVersionedAt pol h ck at k tomb s)"

definition setTombstoneGcInterval :: "int \<Rightarrow> 'p StoreSt \<Rightarrow> 'p StoreSt" where
  "setTombstoneGcInterval ms s = s\<lparr>globals := (globals s)\<lparr>tombstone_gc := ms\<rparr>\<rparr>"

definition storeMintVersion :: "'p StoreSt \<Rightarrow> Version \<times> 'p StoreSt" where
  "storeMintVersion s = (case mintVersion (globals s) of (v, g) \<Rightarrow> (v, s\<lparr>globals := g\<rparr>))"

definition storeSize :: "'p StoreSt \<Rightarrow> nat" where
  "storeSize s = sum_list (map (\<lambda>sh. length (sh_list sh)) (shards s))"

fun evictShards :: "'p Policy \<Rightarrow> int \<Rightarrow> 'p Shard list \<Rightarrow> Globals \<Rightarrow> nat \<Rightarrow> ('p Shard list \<times> Globals \<times> nat) option" where
  "evictShards pol current [] g n = Some ([], g, n)"
| "evictShards pol current (sh # shs) g n =
     (case shardEvictExpired pol current ((sh, g), n) of
        None \<Rightarrow> None
      | Some ((sh', g'), n') \<Rightarrow>
          (case evictShards pol current shs g' n' of
             None \<Rightarrow> None
           | Some (shs', g'', n'') \<Rightarrow> Some (sh' # shs', g'', n'')))"

definition storeEvictExpired :: "'p Policy \<Rightarrow> Clock \<Rightarrow> 'p StoreSt \<Rightarrow> (nat \<times> 'p StoreSt) option" where
  "storeEvictExpired pol ck s =
     (case evictShards pol (ck_now ck) (shards s) (globals s) 0 of
        None \<Rightarrow> None
      | Some (shs, g, n) \<Rightarrow> Some (n, s\<lparr>shards := shs, globals := g\<rparr>))"

definition storeLiveEntries :: "Clock \<Rightarrow> 'p StoreSt \<Rightarrow> (Key \<times> VersionedEntry) list" where
  "storeLiveEntries ck s = concat (map (shardLive (ck_now ck)) (shards s))"

fun evictAll :: "'p Policy \<Rightarrow> nat \<Rightarrow> 'p Shard list \<Rightarrow> Globals \<Rightarrow> 'p Shard list \<times> Globals" where
  "evictAll pol cap [] g = ([], g)"
| "evictAll pol cap (sh # shs) g =
     (case evictIfNeeded pol cap (sh, g) of
        (sh', g') \<Rightarrow> (case evictAll pol cap shs g' of (shs', g'') \<Rightarrow> (sh' # shs', g'')))"

definition setCapacity :: "'p Policy \<Rightarrow> nat \<Rightarrow> 'p StoreSt \<Rightarrow> 'p StoreSt" where
  "setCapacity pol cap s =
     (let s = s\<lparr>globals := (globals s)\<lparr>capacity_bytes := cap\<rparr>\<rparr>
      in case evictAll pol (capOf s) (shards s) (globals s) of
           (shs, g) \<Rightarrow> s\<lparr>shards := shs, globals := g\<rparr>)"

definition storeEntryFreq :: "(Key \<Rightarrow> nat) \<Rightarrow> Key \<Rightarrow> LfuState StoreSt \<Rightarrow> nat" where
  "storeEntryFreq h k s = shardEntryFreq k (shards s ! shardFor h s k)"

definition storeRestoreFreq :: "(Key \<Rightarrow> nat) \<Rightarrow> Key \<Rightarrow> nat \<Rightarrow> LfuState StoreSt \<Rightarrow> LfuState StoreSt" where
  "storeRestoreFreq h k f s =
     (let i = shardFor h s k in s\<lparr>shards := (shards s)[i := shardRestoreFreq k f (shards s ! i)]\<rparr>)"

definition emptyLfu :: LfuState where
  "emptyLfu = \<lparr>lf_freq = (\<lambda>_. 0), lf_index = (\<lambda>_. 0), lf_buckets = []\<rparr>"

section \<open>The store invariant\<close>

definition lookup :: "(Key \<Rightarrow> nat) \<Rightarrow> 'p StoreSt \<Rightarrow> Key \<rightharpoonup> VersionedEntry" where
  "lookup h s k = sh_nodes (shards s ! shardFor h s k) k"

definition tombOnly :: "'p Shard \<Rightarrow> bool" where
  "tombOnly sh \<longleftrightarrow> (\<forall>k e. sh_nodes sh k = Some e \<longrightarrow> isTombstone e)"

definition acctL :: "nat \<Rightarrow> nat \<Rightarrow> 'p Shard list \<Rightarrow> Globals \<Rightarrow> bool" where
  "acctL a b shs g \<longleftrightarrow> total_bytes g = sum_list (map sh_bytes shs) + a
     \<and> total_entries g = sum_list (map (\<lambda>sh. length (sh_list sh)) shs) + b"

definition store_ok :: "'p Policy \<Rightarrow> ('p Shard \<Rightarrow> bool) \<Rightarrow> (Key \<Rightarrow> nat) \<Rightarrow> 'p StoreSt \<Rightarrow> bool" where
  "store_ok pol pol_ok h s \<longleftrightarrow> shards s \<noteq> []
     \<and> (\<forall>i < length (shards s). shard_ok pol pol_ok (shards s ! i)
          \<and> (\<forall>k \<in> dom (sh_nodes (shards s ! i)). shardFor h s k = i))
     \<and> acctL 0 0 (shards s) (globals s)"

definition capped :: "'p StoreSt \<Rightarrow> bool" where
  "capped s \<longleftrightarrow> (\<forall>sh \<in> set (shards s). sh_bytes sh \<le> capOf s \<or> tombOnly sh)"

lemma store_okD:
  assumes "store_ok pol pol_ok h s"
  shows "shardFor h s k < length (shards s)" "i < length (shards s) \<Longrightarrow> shard_ok pol pol_ok (shards s ! i)"
    "i < length (shards s) \<Longrightarrow> sh_nodes (shards s ! i) k = Some e \<Longrightarrow> shardFor h s k = i"
    "acctL 0 0 (shards s) (globals s)"
  using assms by (auto simp: store_ok_def shardFor_def)

lemma acctL_update:
  assumes "acctL a b shs g" "i < length shs"
  obtains a' b' where "acct a' b' (shs ! i, g)" "\<And>sh' g'. acct a' b' (sh', g') \<Longrightarrow> acctL a b (shs[i := sh']) g'"
proof -
  have s: "sum_list (map f shs) = f (shs ! i) + sum_list (map f (take i shs @ drop (Suc i) shs))" for f :: "'a Shard \<Rightarrow> nat"
    using assms(2) by (subst (1) id_take_nth_drop [OF assms(2)]) simp
  have u: "sum_list (map f (shs[i := sh'])) = f sh' + sum_list (map f (take i shs @ drop (Suc i) shs))" for f :: "'a Shard \<Rightarrow> nat" and sh'
    using assms(2) by (subst upd_conv_take_nth_drop [OF assms(2)]) simp
  show ?thesis
    by (rule that [of "sum_list (map sh_bytes (take i shs @ drop (Suc i) shs)) + a"
          "sum_list (map (\<lambda>sh. length (sh_list sh)) (take i shs @ drop (Suc i) shs)) + b"])
      (use assms(1) in \<open>simp_all add: acctL_def acct_def s [of sh_bytes] s [of "\<lambda>sh. length (sh_list sh)"] u
        del: map_append sum_list_append\<close>)
qed

lemma shardFor_update [simp]:
  "shardFor h (s\<lparr>shards := (shards s)[i := sh], globals := g\<rparr>) k = shardFor h s k"
  "length shs = length (shards s) \<Longrightarrow> shardFor h (s\<lparr>shards := shs, globals := g\<rparr>) k = shardFor h s k"
  by (simp_all add: shardFor_def)

lemma withShard_lift:
  assumes ok: "store_ok pol pol_ok h s" and run: "withShard (shardFor h s k) f s = (r, s')"
    and op: "\<And>a b sh' g'. acct a b (shards s ! shardFor h s k, globals s) \<Longrightarrow>
      f (shards s ! shardFor h s k, globals s) = (r, sh', g') \<Longrightarrow>
      shard_ok pol pol_ok sh' \<and> acct a b (sh', g') \<and> dom (sh_nodes sh') \<subseteq> insert k (dom (sh_nodes (shards s ! shardFor h s k)))"
  obtains sh' g' where "f (shards s ! shardFor h s k, globals s) = (r, sh', g')"
    "s' = s\<lparr>shards := (shards s)[shardFor h s k := sh'], globals := g'\<rparr>" "store_ok pol pol_ok h s'"
    "lookup h s' = (\<lambda>j. if shardFor h s j = shardFor h s k then sh_nodes sh' j else lookup h s j)"
proof -
  let ?i = "shardFor h s k"
  have i: "?i < length (shards s)" by (rule store_okD(1) [OF ok])
  obtain sh' g' where f: "f (shards s ! ?i, globals s) = (r, sh', g')"
    and s': "s' = s\<lparr>shards := (shards s)[?i := sh'], globals := g'\<rparr>"
    using run by (auto simp: withShard_def split: prod.splits)
  obtain a b where ab: "acct a b (shards s ! ?i, globals s)"
    "\<And>sh' g'. acct a b (sh', g') \<Longrightarrow> acctL 0 0 ((shards s)[?i := sh']) g'"
    using acctL_update [OF store_okD(4) [OF ok] i] by metis
  note o = op [OF ab(1) f]
  have "shardFor h s j = ?i" if "sh_nodes sh' j = Some e" for j e
    using o that store_okD(3) [OF ok i, of j] by (cases "j = k") auto
  then have "store_ok pol pol_ok h s'"
    using ok o ab(2) i unfolding store_ok_def s' by (auto simp: nth_list_update)
  moreover have "lookup h s' = (\<lambda>j. if shardFor h s j = ?i then sh_nodes sh' j else lookup h s j)"
    using i by (auto simp: lookup_def s' fun_eq_iff)
  ultimately show ?thesis using that f s' by blast
qed

text \<open>The outcome of an accepted write on the whole store.\<close>

definition storePutApplied :: "(Key \<Rightarrow> nat) \<Rightarrow> Clock \<Rightarrow> Key \<Rightarrow> VersionedEntry \<Rightarrow> Key set \<Rightarrow> 'p StoreSt \<Rightarrow> 'p StoreSt \<Rightarrow> bool" where
  "storePutApplied h ck k e E s s' \<longleftrightarrow>
     (let m = (lookup h s)(k \<mapsto> e) in
      lookup h s' = m |` (- E)
      \<and> (\<forall>j \<in> E. shardFor h s j = shardFor h s k \<and> (\<exists>ej. m j = Some ej \<and> \<not> isTombstone ej))
      \<and> wal_log (globals s') = wal_log (globals s) @ (if k \<in> E then [] else [walSetEntry ck k e])
      \<and> next_version (globals s') = max (next_version (globals s)) (version e + 1)
      \<and> length (shards s') = length (shards s) \<and> capOf s' = capOf s)"

lemma putApplied_dom: "putApplied cap ck k e ks s s' \<Longrightarrow> dom (sh_nodes (fst s')) \<subseteq> insert k (dom (sh_nodes (fst s)))"
  by (auto simp: putApplied_def Let_def restrict_map_def split: if_splits)

lemma putApplied_store:
  assumes ok: "store_ok pol pol_ok h s" and ap: "putApplied cap ck k e ks (shards s ! shardFor h s k, globals s) (sh', g')"
    and s': "s' = s\<lparr>shards := (shards s)[shardFor h s k := sh'], globals := g'\<rparr>"
    and lk: "lookup h s' = (\<lambda>j. if shardFor h s j = shardFor h s k then sh_nodes sh' j else lookup h s j)"
  shows "storePutApplied h ck k e (set ks) s s'"
proof -
  let ?sh = "shards s ! shardFor h s k"
  have p: "sh_nodes sh' = ((sh_nodes ?sh)(k \<mapsto> e)) |` (- set ks)" "set ks \<subseteq> insert k (dom (sh_nodes ?sh))"
    "\<forall>j \<in> set ks. \<not> isTombstone (case ((sh_nodes ?sh)(k \<mapsto> e)) j of None \<Rightarrow> emptyEntry | Some e \<Rightarrow> e)"
    "wal_log g' = wal_log (globals s) @ (if k \<in> set ks then [] else [walSetEntry ck k e])"
    "next_version g' = max (next_version (globals s)) (version e + 1)" "capacity_bytes g' = capacity_bytes (globals s)"
    using ap by (simp_all add: putApplied_def Let_def)
  have i: "shardFor h s k < length (shards s)" by (rule store_okD(1) [OF ok])
  have m: "((lookup h s)(k \<mapsto> e)) j = ((sh_nodes ?sh)(k \<mapsto> e)) j" if "shardFor h s j = shardFor h s k" for j
    using that by (simp add: lookup_def)
  have r: "shardFor h s j = shardFor h s k" if "j \<in> set ks" for j
  proof (cases "j = k")
    case False
    then obtain e where "sh_nodes ?sh j = Some e" using p(2) \<open>j \<in> set ks\<close> by auto
    then show ?thesis by (rule store_okD(3) [OF ok i])
  qed simp
  have "\<exists>ej. ((lookup h s)(k \<mapsto> e)) j = Some ej \<and> \<not> isTombstone ej" if "j \<in> set ks" for j
  proof -
    have "j \<in> dom ((sh_nodes ?sh)(k \<mapsto> e))" using p(2) that by auto
    then show ?thesis using p(3) that unfolding m [OF r [OF that]] by fastforce
  qed
  moreover have "lookup h s' = ((lookup h s)(k \<mapsto> e)) |` (- set ks)"
  proof
    fix j show "lookup h s' j = (((lookup h s)(k \<mapsto> e)) |` (- set ks)) j"
      using m [of j] r [of j] by (cases "j \<in> set ks") (auto simp: lk p(1))
  qed
  ultimately show ?thesis
    using r p(4-6) by (simp add: storePutApplied_def Let_def s' capOf_def shardCapacity_def)
qed

lemma capped_update:
  assumes "capped s" "i < length (shards s)" "capacity_bytes g' = capacity_bytes (globals s)"
    and "sh_bytes sh' \<le> capOf s \<or> tombOnly sh'"
  shows "capped (s\<lparr>shards := (shards s)[i := sh'], globals := g'\<rparr>)"
  using assms set_update_subset_insert [of "shards s" i sh'] unfolding capped_def by (auto simp: capOf_def shardCapacity_def)

context eviction_policy
begin

lemma storePutVersionedAt_correct:
  assumes ok: "store_ok pol pol_ok h s" and run: "storePutVersionedAt pol h ck at k e s = (res, s')"
  shows "store_ok pol pol_ok h s' \<and> (capped s \<longrightarrow> capped s') \<and>
    (case lookup h s k of
       Some e0 \<Rightarrow> res = Inr () \<and> (if stampOf e < stampOf e0 then s' = s else \<exists>E. storePutApplied h ck k e E s s')
     | None \<Rightarrow> if nodeSize pol k e > capOf s
         then res = Inl (mkError CapacityExceeded ''value exceeds capacity'') \<and> s' = s
         else res = Inr () \<and> (\<exists>E. storePutApplied h ck k e E s s'))"
proof -
  let ?i = "shardFor h s k"
  have i: "?i < length (shards s)" by (rule store_okD(1) [OF ok])
  note sok = store_okD(2) [OF ok i]
  obtain a b where ab: "acct a b (shards s ! ?i, globals s)" using acctL_update [OF store_okD(4) [OF ok] i] by metis
  have same: "s\<lparr>shards := (shards s)[?i := shards s ! ?i], globals := globals s\<rparr> = s" by simp
  obtain sh' g' where f: "putVersionedAt pol (capOf s) ck at k e (shards s ! ?i, globals s) = (res, sh', g')"
    "s' = s\<lparr>shards := (shards s)[?i := sh'], globals := g'\<rparr>" "store_ok pol pol_ok h s'"
    "lookup h s' = (\<lambda>j. if shardFor h s j = ?i then sh_nodes sh' j else lookup h s j)"
  proof (rule withShard_lift [OF ok run [unfolded storePutVersionedAt_def]])
    fix a b sh' g' assume "acct a b (shards s ! ?i, globals s)"
      "putVersionedAt pol (capOf s) ck at k e (shards s ! ?i, globals s) = (res, sh', g')"
    note c = put_cases [OF sok this]
    then show "shard_ok pol pol_ok sh' \<and> acct a b (sh', g') \<and> dom (sh_nodes sh') \<subseteq> insert k (dom (sh_nodes (shards s ! ?i)))"
      using putApplied_dom [of "capOf s" ck k e _ "(shards s ! ?i, globals s)" "(sh', g')"]
      by (auto split: option.splits if_splits)
  qed
  note c = put_cases [OF sok ab f(1)]
  have ap: "\<exists>E. storePutApplied h ck k e E s s'" if "\<exists>ks. putApplied (capOf s) ck k e ks (shards s ! ?i, globals s) (sh', g')"
    using putApplied_store [OF ok _ f(2,4)] that by blast
  have cap: "capped s'" if "capped s" "\<exists>ks. putApplied (capOf s) ck k e ks (shards s ! ?i, globals s) (sh', g')"
    using capped_update [OF that(1) i, of g' sh'] that(2) unfolding f(2) putApplied_def tombOnly_def by (auto simp: Let_def)
  show ?thesis
    using c ap cap f(2,3) same by (auto simp: lookup_def split: option.splits if_splits)
qed

end

section \<open>Operations that only shrink the store\<close>

definition shrunk :: "'p Policy \<Rightarrow> ('p Shard \<Rightarrow> bool) \<Rightarrow> 'p Shard \<Rightarrow> 'p Shard \<Rightarrow> bool" where
  "shrunk pol pol_ok sh sh' \<longleftrightarrow> shard_ok pol pol_ok sh' \<and> sh_nodes sh' \<subseteq>\<^sub>m sh_nodes sh"

lemma bytes_of_mono:
  assumes "m \<subseteq>\<^sub>m m'" "finite (dom m')"
  shows "bytes_of pol m \<le> bytes_of pol m'"
proof -
  have "bytes_of pol m = (\<Sum>k \<in> dom m. case m' k of None \<Rightarrow> 0 | Some e \<Rightarrow> nodeSize pol k e)"
    unfolding bytes_of_def using assms(1) by (intro sum.cong) (auto simp: map_le_def)
  also have "\<dots> \<le> bytes_of pol m'"
    unfolding bytes_of_def using assms by (intro sum_mono2) (auto dest: map_le_implies_dom_le)
  finally show ?thesis .
qed

lemma shrunk_bytes:
  assumes "shard_ok pol pol_ok sh" "shrunk pol pol_ok sh sh'"
  shows "sh_bytes sh' \<le> sh_bytes sh"
  using assms bytes_of_mono [of "sh_nodes sh'" "sh_nodes sh" pol] shape_finite [of sh]
  by (simp add: shrunk_def shard_ok_def shard_base_def)

lemma shrunk_tombOnly: "shrunk pol pol_ok sh sh' \<Longrightarrow> tombOnly sh \<Longrightarrow> tombOnly sh'"
  unfolding shrunk_def tombOnly_def map_le_def by (metis domI)

lemma shrunk_capped:
  "shard_ok pol pol_ok sh \<Longrightarrow> shrunk pol pol_ok sh sh' \<Longrightarrow> sh_bytes sh \<le> cap \<or> tombOnly sh \<Longrightarrow> sh_bytes sh' \<le> cap \<or> tombOnly sh'"
  using shrunk_bytes shrunk_tombOnly by (metis le_trans)

lemma store_shrunk:
  assumes ok: "store_ok pol pol_ok h s" and sh: "list_all2 (shrunk pol pol_ok) (shards s) shs"
    and "acctL 0 0 shs g" "capacity_bytes g = capacity_bytes (globals s)"
  shows "store_ok pol pol_ok h (s\<lparr>shards := shs, globals := g\<rparr>)" "capped s \<Longrightarrow> capped (s\<lparr>shards := shs, globals := g\<rparr>)"
    "lookup h (s\<lparr>shards := shs, globals := g\<rparr>) \<subseteq>\<^sub>m lookup h s"
proof -
  have len: "length shs = length (shards s)" and nth: "\<And>i. i < length (shards s) \<Longrightarrow> shrunk pol pol_ok (shards s ! i) (shs ! i)"
    using sh by (auto simp: list_all2_conv_all_nth)
  have le: "sh_nodes (shs ! i) k = Some e \<Longrightarrow> sh_nodes (shards s ! i) k = Some e" if "i < length (shards s)" for i k e
    using nth [OF that] unfolding shrunk_def map_le_def by (metis domI)
  show "lookup h (s\<lparr>shards := shs, globals := g\<rparr>) \<subseteq>\<^sub>m lookup h s"
    using le [OF store_okD(1) [OF ok]] by (auto simp: map_le_def lookup_def len)
  show "store_ok pol pol_ok h (s\<lparr>shards := shs, globals := g\<rparr>)"
    using ok assms(3) len nth le store_okD(3) [OF ok] unfolding store_ok_def by (auto simp: shrunk_def dom_def)
  show "capped (s\<lparr>shards := shs, globals := g\<rparr>)" if "capped s"
    unfolding capped_def
  proof
    fix x assume "x \<in> set (shards (s\<lparr>shards := shs, globals := g\<rparr>))"
    then obtain i where i: "i < length (shards s)" "x = shs ! i" using len by (auto simp: in_set_conv_nth)
    have "sh_bytes (shards s ! i) \<le> capOf s \<or> tombOnly (shards s ! i)" using that i by (auto simp: capped_def)
    from shrunk_capped [OF store_okD(2) [OF ok i(1)] nth [OF i(1)] this]
    show "sh_bytes x \<le> capOf (s\<lparr>shards := shs, globals := g\<rparr>) \<or> tombOnly x"
      using i(2) assms(4) len by (simp add: capOf_def shardCapacity_def)
  qed
qed

context eviction_policy
begin

lemma withShard_shrink:
  assumes ok: "store_ok pol pol_ok h s" and run: "withShard (shardFor h s k) f s = (r, s')"
    and op: "\<And>a b sh' g'. acct a b (shards s ! shardFor h s k, globals s) \<Longrightarrow>
      f (shards s ! shardFor h s k, globals s) = (r, sh', g') \<Longrightarrow>
      shard_ok pol pol_ok sh' \<and> acct a b (sh', g') \<and> capacity_bytes g' = capacity_bytes (globals s)
      \<and> (sh_nodes sh' = sh_nodes (shards s ! shardFor h s k) \<or> sh_nodes sh' = (sh_nodes (shards s ! shardFor h s k))(k := None))"
  obtains sh' g' where "f (shards s ! shardFor h s k, globals s) = (r, sh', g')" "store_ok pol pol_ok h s'" "capped s \<longrightarrow> capped s'"
    "lookup h s' = (if sh_nodes sh' = sh_nodes (shards s ! shardFor h s k) then lookup h s else (lookup h s)(k := None))"
proof -
  let ?i = "shardFor h s k"
  have i: "?i < length (shards s)" by (rule store_okD(1) [OF ok])
  obtain a b where ab: "acct a b (shards s ! ?i, globals s)" using acctL_update [OF store_okD(4) [OF ok] i] by metis
  obtain sh' g' where f: "f (shards s ! ?i, globals s) = (r, sh', g')"
    "s' = s\<lparr>shards := (shards s)[?i := sh'], globals := g'\<rparr>" "store_ok pol pol_ok h s'"
    "lookup h s' = (\<lambda>j. if shardFor h s j = ?i then sh_nodes sh' j else lookup h s j)"
  proof (rule withShard_lift [OF ok run])
    fix a b sh' g' assume "acct a b (shards s ! ?i, globals s)" "f (shards s ! ?i, globals s) = (r, sh', g')"
    from op [OF this]
    show "shard_ok pol pol_ok sh' \<and> acct a b (sh', g') \<and> dom (sh_nodes sh') \<subseteq> insert k (dom (sh_nodes (shards s ! ?i)))" by auto
  qed
  note o = op [OF ab f(1)]
  have "shrunk pol pol_ok (shards s ! ?i) sh'" using o by (auto simp: shrunk_def map_le_def split: if_splits)
  then have "capped s \<longrightarrow> capped s'"
    unfolding f(2) using o shrunk_capped [OF store_okD(2) [OF ok i], of sh' "capOf s"] i
    by (intro impI capped_update) (auto simp: capped_def)
  moreover have "lookup h s' = (if sh_nodes sh' = sh_nodes (shards s ! ?i) then lookup h s else (lookup h s)(k := None))"
    unfolding f(4) using o by (auto simp: lookup_def fun_eq_iff)
  ultimately show ?thesis using that f(1,3) by blast
qed

lemma storeGet_correct:
  assumes ok: "store_ok pol pol_ok h s" and run: "storeGet pol h ck k s = (r, s')"
  shows "store_ok pol pol_ok h s' \<and> (capped s \<longrightarrow> capped s')
    \<and> r = (case lookup h s k of None \<Rightarrow> None
          | Some e \<Rightarrow> if isExpired (ck_now ck) e \<or> isTombstone e then None else Some (ve_value e))
    \<and> lookup h s' = (case lookup h s k of None \<Rightarrow> lookup h s
          | Some e \<Rightarrow> if isExpired (ck_now ck) e then (lookup h s)(k := None) else lookup h s)"
proof -
  let ?sh = "shards s ! shardFor h s k"
  note sok = store_okD(2) [OF ok store_okD(1) [OF ok]]
  obtain a b where ab: "acct a b (?sh, globals s)" using acctL_update [OF store_okD(4) [OF ok] store_okD(1) [OF ok]] by metis
  obtain sh' g' where f: "shardGet pol (ck_now ck) k (?sh, globals s) = (r, sh', g')" "store_ok pol pol_ok h s'" "capped s \<longrightarrow> capped s'"
    "lookup h s' = (if sh_nodes sh' = sh_nodes ?sh then lookup h s else (lookup h s)(k := None))"
  proof (rule withShard_shrink [OF ok run [unfolded storeGet_def]])
    fix a b sh' g' assume "acct a b (?sh, globals s)" "shardGet pol (ck_now ck) k (?sh, globals s) = (r, sh', g')"
    from get_correct [OF sok this]
    show "shard_ok pol pol_ok sh' \<and> acct a b (sh', g') \<and> capacity_bytes g' = capacity_bytes (globals s)
        \<and> (sh_nodes sh' = sh_nodes ?sh \<or> sh_nodes sh' = (sh_nodes ?sh)(k := None))"
      by (auto split: option.splits if_splits)
  qed
  show ?thesis
    using get_correct [OF sok ab f(1)] f(2-4)
    by (auto simp: lookup_def fun_upd_idem_iff split: option.splits if_splits)
qed

lemma storeGetVersioned_correct:
  assumes ok: "store_ok pol pol_ok h s" and run: "storeGetVersioned pol h ck k s = (r, s')"
  shows "store_ok pol pol_ok h s' \<and> (capped s \<longrightarrow> capped s')
    \<and> r = (case lookup h s k of None \<Rightarrow> None | Some e \<Rightarrow> if isExpired (ck_now ck) e then None else Some e)
    \<and> lookup h s' = (case lookup h s k of None \<Rightarrow> lookup h s
          | Some e \<Rightarrow> if isExpired (ck_now ck) e then (lookup h s)(k := None) else lookup h s)"
proof -
  let ?sh = "shards s ! shardFor h s k"
  note sok = store_okD(2) [OF ok store_okD(1) [OF ok]]
  obtain a b where ab: "acct a b (?sh, globals s)" using acctL_update [OF store_okD(4) [OF ok] store_okD(1) [OF ok]] by metis
  obtain sh' g' where f: "shardGetVersioned pol (ck_now ck) k (?sh, globals s) = (r, sh', g')" "store_ok pol pol_ok h s'" "capped s \<longrightarrow> capped s'"
    "lookup h s' = (if sh_nodes sh' = sh_nodes ?sh then lookup h s else (lookup h s)(k := None))"
  proof (rule withShard_shrink [OF ok run [unfolded storeGetVersioned_def]])
    fix a b sh' g' assume "acct a b (?sh, globals s)" "shardGetVersioned pol (ck_now ck) k (?sh, globals s) = (r, sh', g')"
    from getVersioned_correct [OF sok this]
    show "shard_ok pol pol_ok sh' \<and> acct a b (sh', g') \<and> capacity_bytes g' = capacity_bytes (globals s)
        \<and> (sh_nodes sh' = sh_nodes ?sh \<or> sh_nodes sh' = (sh_nodes ?sh)(k := None))"
      by (auto split: option.splits if_splits)
  qed
  show ?thesis
    using getVersioned_correct [OF sok ab f(1)] f(2-4)
    by (auto simp: lookup_def fun_upd_idem_iff split: option.splits if_splits)
qed

lemma storeRemove_correct:
  assumes ok: "store_ok pol pol_ok h s" and run: "storeRemove pol h k s = (r, s')"
  shows "store_ok pol pol_ok h s' \<and> (capped s \<longrightarrow> capped s') \<and> r = (lookup h s k \<noteq> None)
    \<and> lookup h s' = (lookup h s)(k := None)"
proof -
  let ?sh = "shards s ! shardFor h s k"
  note sok = store_okD(2) [OF ok store_okD(1) [OF ok]]
  obtain a b where ab: "acct a b (?sh, globals s)" using acctL_update [OF store_okD(4) [OF ok] store_okD(1) [OF ok]] by metis
  obtain sh' g' where f: "shardRemove pol k (?sh, globals s) = (r, sh', g')" "store_ok pol pol_ok h s'" "capped s \<longrightarrow> capped s'"
    "lookup h s' = (if sh_nodes sh' = sh_nodes ?sh then lookup h s else (lookup h s)(k := None))"
    by (rule withShard_shrink [OF ok run [unfolded storeRemove_def]]) (use remove_correct [OF sok] in auto)
  show ?thesis
    using remove_correct [OF sok ab f(1)] f(2-4) by (auto simp: lookup_def fun_upd_idem_iff fun_eq_iff)
qed

lemma evictShards_correct:
  "\<forall>sh \<in> set shs. shard_ok pol pol_ok sh \<Longrightarrow> acctL a b shs g \<Longrightarrow>
   \<exists>shs' g' n'. evictShards pol cur shs g n = Some (shs', g', n') \<and> acctL a b shs' g'
     \<and> list_all2 (\<lambda>sh sh'. shrunk pol pol_ok sh sh'
         \<and> (\<forall>k e. sh_nodes sh k = Some e \<and> sh_nodes sh' k = None \<longrightarrow> isExpired cur e)) shs shs'
     \<and> n' + sum_list (map (\<lambda>sh. length (sh_list sh)) shs') = n + sum_list (map (\<lambda>sh. length (sh_list sh)) shs)
     \<and> capacity_bytes g' = capacity_bytes g \<and> wal_log g' = wal_log g \<and> next_version g' = next_version g"
proof (induction shs arbitrary: a b g n)
  case (Cons sh shs)
  let ?l = "sum_list (map (\<lambda>sh. length (sh_list sh)) shs)"
  have "shard_ok pol pol_ok sh" "acct (sum_list (map sh_bytes shs) + a) (?l + b) (sh, g)"
    using Cons.prems by (simp_all add: acctL_def acct_def)
  from shardEvictExpired_correct [OF this, of cur n] obtain sh' g' n' where
    1: "shardEvictExpired pol cur ((sh, g), n) = Some ((sh', g'), n')"
    "swept pol pol_ok (sum_list (map sh_bytes shs) + a) (?l + b) cur ((sh\<lparr>sh_last_evict := cur\<rparr>, g), n) ((sh', g'), n')" by metis
  have w: "shard_ok pol pol_ok sh'" "acct (sum_list (map sh_bytes shs) + a) (?l + b) (sh', g')"
    "n' + length (sh_list sh') = n + length (sh_list sh)" "sh_nodes sh' \<subseteq>\<^sub>m sh_nodes sh"
    "capacity_bytes g' = capacity_bytes g" "wal_log g' = wal_log g" "next_version g' = next_version g"
    "\<forall>k e. sh_nodes sh k = Some e \<and> sh_nodes sh' k = None \<longrightarrow> isExpired cur e"
    using 1(2) by (simp_all add: swept_def reported_def)
  have "acctL (sh_bytes sh' + a) (length (sh_list sh') + b) shs g'" using w(2) by (simp add: acctL_def acct_def)
  from Cons.IH [OF _ this, of n'] Cons.prems(1) obtain shs' g2 n2 where
    2: "evictShards pol cur shs g' n' = Some (shs', g2, n2)" "acctL (sh_bytes sh' + a) (length (sh_list sh') + b) shs' g2"
    "list_all2 (\<lambda>sh sh'. shrunk pol pol_ok sh sh'
         \<and> (\<forall>k e. sh_nodes sh k = Some e \<and> sh_nodes sh' k = None \<longrightarrow> isExpired cur e)) shs shs'"
    "n2 + sum_list (map (\<lambda>sh. length (sh_list sh)) shs') = n' + ?l"
    "capacity_bytes g2 = capacity_bytes g'" "wal_log g2 = wal_log g'" "next_version g2 = next_version g'" by auto
  have "acctL a b (sh' # shs') g2" using 2(2) by (simp add: acctL_def)
  then show ?case using 1(1) 2 w by (auto simp: shrunk_def)
qed simp

lemma storeEvictExpired_correct:
  assumes ok: "store_ok pol pol_ok h s"
  obtains n s' where "storeEvictExpired pol ck s = Some (n, s')" "store_ok pol pol_ok h s'" "capped s \<longrightarrow> capped s'"
    "lookup h s' \<subseteq>\<^sub>m lookup h s" "\<forall>k e. lookup h s k = Some e \<and> lookup h s' k = None \<longrightarrow> isExpired (ck_now ck) e"
    "n + storeSize s' = storeSize s" "wal_log (globals s') = wal_log (globals s)" "next_version (globals s') = next_version (globals s)"
proof -
  have "\<forall>sh \<in> set (shards s). shard_ok pol pol_ok sh" using store_okD(2) [OF ok] by (auto simp: in_set_conv_nth)
  from evictShards_correct [OF this store_okD(4) [OF ok], of "ck_now ck" 0] obtain shs g n where
    e: "evictShards pol (ck_now ck) (shards s) (globals s) 0 = Some (shs, g, n)" "acctL 0 0 shs g"
    "list_all2 (\<lambda>sh sh'. shrunk pol pol_ok sh sh'
         \<and> (\<forall>k e. sh_nodes sh k = Some e \<and> sh_nodes sh' k = None \<longrightarrow> isExpired (ck_now ck) e)) (shards s) shs"
    "n + sum_list (map (\<lambda>sh. length (sh_list sh)) shs) = sum_list (map (\<lambda>sh. length (sh_list sh)) (shards s))"
    "capacity_bytes g = capacity_bytes (globals s)" "wal_log g = wal_log (globals s)" "next_version g = next_version (globals s)"
    by auto
  have la: "list_all2 (shrunk pol pol_ok) (shards s) shs" using e(3) by (auto elim: list_all2_mono)
  note st = store_shrunk [OF ok la e(2,5)]
  have "isExpired (ck_now ck) v" if "lookup h s k = Some v" "lookup h (s\<lparr>shards := shs, globals := g\<rparr>) k = None" for k v
  proof -
    have "length shs = length (shards s)" using la by (simp add: list_all2_lengthD)
    then show ?thesis
      using list_all2_nthD [OF e(3) store_okD(1) [OF ok, of k]] that by (simp add: lookup_def)
  qed
  then show ?thesis
    using that [of n "s\<lparr>shards := shs, globals := g\<rparr>"] e(1,4,6,7) st by (auto simp: storeEvictExpired_def storeSize_def)
qed

lemma evictIfNeeded_shard:
  assumes "shard_ok pol pol_ok sh" "acct a b (sh, g)" "evictIfNeeded pol cap (sh, g) = (sh', g')"
  shows "shrunk pol pol_ok sh sh' \<and> acct a b (sh', g') \<and> (sh_bytes sh' \<le> cap \<or> tombOnly sh')
    \<and> (\<forall>k e. sh_nodes sh k = Some e \<and> isTombstone e \<longrightarrow> sh_nodes sh' k = Some e)
    \<and> capacity_bytes g' = capacity_bytes g \<and> wal_log g' = wal_log g \<and> next_version g' = next_version g
    \<and> (sh_bytes sh \<le> cap \<longrightarrow> sh_nodes sh' = sh_nodes sh)"
proof -
  have b: "shard_base pol pol_ok {} (fst (sh, g))" and nd: "none_due (sh_wheel sh)" using assms(1) by (simp_all add: shard_ok_def)
  obtain ks where ks: "evictedBy ks (sh, g) (sh', g')" "shard_base pol pol_ok ({} - set ks) sh'" "acct a b (sh', g')"
    "sh_bytes sh' \<le> cap \<or> (\<forall>k e. sh_nodes sh' k = Some e \<longrightarrow> isTombstone e)" "sh_bytes sh \<le> cap \<longrightarrow> ks = []"
    using evictIfNeeded_correct [OF b assms(2), of cap] by (auto simp: evictPost_def assms(3))
  have e: "sh_nodes sh' = sh_nodes sh |` (- set ks)" "\<forall>k \<in> set ks. \<not> isTombstone (entryAt sh k)"
    "deadline (sh_wheel sh') = deadline (sh_wheel sh) |` (- set ks)" "tick_count (sh_wheel sh') = tick_count (sh_wheel sh)"
    "wal_log g' = wal_log g" "next_version g' = next_version g" "capacity_bytes g' = capacity_bytes g"
    using ks(1) by (simp_all add: evictedBy_def)
  have "none_due (sh_wheel sh')"
    by (rule none_due_restrict [OF _ nd shard_baseD(3) [OF ks(2)] e(3,4)]) (use shard_baseD(3) [OF b] in simp)
  then have "shard_ok pol pol_ok sh'" using ks(2) by (simp add: shard_ok_def)
  moreover have "sh_nodes sh' \<subseteq>\<^sub>m sh_nodes sh" by (auto simp: e(1) map_le_def restrict_map_def split: if_splits)
  moreover have "sh_nodes sh' k = Some v" if "sh_nodes sh k = Some v" "isTombstone v" for k v
  proof -
    have "k \<notin> set ks" using e(2) that by (auto simp: entryAt_def)
    then show ?thesis using that by (simp add: e(1))
  qed
  moreover have "sh_nodes sh' = sh_nodes sh" if "sh_bytes sh \<le> cap" using ks(5) that by (simp add: e(1) restrict_map_def)
  ultimately show ?thesis using ks(3,4) e(5-7) by (simp add: shrunk_def tombOnly_def)
qed

lemma evictAll_correct:
  "\<forall>sh \<in> set shs. shard_ok pol pol_ok sh \<Longrightarrow> acctL a b shs g \<Longrightarrow> evictAll pol cap shs g = (shs', g') \<Longrightarrow>
   acctL a b shs' g' \<and> list_all2 (\<lambda>sh sh'. shrunk pol pol_ok sh sh' \<and> (sh_bytes sh' \<le> cap \<or> tombOnly sh')
       \<and> (\<forall>k e. sh_nodes sh k = Some e \<and> isTombstone e \<longrightarrow> sh_nodes sh' k = Some e)
       \<and> (sh_bytes sh \<le> cap \<longrightarrow> sh_nodes sh' = sh_nodes sh)) shs shs'
   \<and> capacity_bytes g' = capacity_bytes g"
proof (induction shs arbitrary: a b g shs' g')
  case (Cons sh shs)
  let ?l = "sum_list (map (\<lambda>sh. length (sh_list sh)) shs)"
  obtain sh1 g1 where 1: "evictIfNeeded pol cap (sh, g) = (sh1, g1)" by fastforce
  obtain shs2 g2 where 2: "evictAll pol cap shs g1 = (shs2, g2)" by fastforce
  have r: "shs' = sh1 # shs2" "g' = g2" using Cons.prems(3) 1 2 by simp_all
  have "shard_ok pol pol_ok sh" "acct (sum_list (map sh_bytes shs) + a) (?l + b) (sh, g)"
    using Cons.prems by (simp_all add: acctL_def acct_def)
  note w = evictIfNeeded_shard [OF this 1]
  have "acctL (sh_bytes sh1 + a) (length (sh_list sh1) + b) shs g1" using w by (simp add: acctL_def acct_def)
  from Cons.IH [OF _ this 2] Cons.prems(1) w show ?case
    by (simp add: r acctL_def)
qed simp

lemma setCapacity_correct:
  assumes ok: "store_ok pol pol_ok h s"
  shows "store_ok pol pol_ok h (setCapacity pol cap s) \<and> capped (setCapacity pol cap s)
    \<and> lookup h (setCapacity pol cap s) \<subseteq>\<^sub>m lookup h s
    \<and> (\<forall>k e. lookup h s k = Some e \<and> isTombstone e \<longrightarrow> lookup h (setCapacity pol cap s) k = Some e)"
proof -
  define s1 where "s1 = s\<lparr>globals := (globals s)\<lparr>capacity_bytes := cap\<rparr>\<rparr>"
  have ok1: "store_ok pol pol_ok h s1" using ok by (simp add: store_ok_def s1_def acctL_def shardFor_def)
  have lk: "lookup h s1 = lookup h s" by (simp add: lookup_def s1_def shardFor_def fun_eq_iff)
  obtain shs g where e: "evictAll pol (capOf s1) (shards s1) (globals s1) = (shs, g)" by fastforce
  have "\<forall>sh \<in> set (shards s1). shard_ok pol pol_ok sh" using store_okD(2) [OF ok1] by (auto simp: in_set_conv_nth)
  note c = evictAll_correct [OF this store_okD(4) [OF ok1] e]
  have la: "list_all2 (shrunk pol pol_ok) (shards s1) shs" using c by (auto elim: list_all2_mono)
  have g: "acctL 0 0 shs g" "capacity_bytes g = capacity_bytes (globals s1)" using c by simp_all
  have r: "setCapacity pol cap s = s1\<lparr>shards := shs, globals := g\<rparr>" using e by (simp add: setCapacity_def Let_def s1_def [symmetric])
  have len: "length shs = length (shards s1)" using la by (simp add: list_all2_lengthD)
  note st = store_shrunk [OF ok1 la g, folded r]
  have "capped (setCapacity pol cap s)"
    using c g(2) len by (auto simp: r capped_def capOf_def shardCapacity_def list_all2_conv_all_nth in_set_conv_nth)
  moreover have "lookup h (setCapacity pol cap s) k = Some v" if "lookup h s k = Some v" "isTombstone v" for k v
    using c that list_all2_nthD2 [of _ "shards s1" shs "shardFor h s1 k"] store_okD(1) [OF ok1, of k] len
    by (fastforce simp: r lookup_def lk [symmetric] list_all2_conv_all_nth)
  ultimately show ?thesis using st lk by simp
qed

end

end
