(* ===== verification/Replication.thy ===== *)
theory Replication
  imports Fanout HintQueue EvictionStore
begin

unbundle bit_operations_syntax

text \<open>
  Replicated writes and quorum reads (\<open>include/cinder/node/read_quorum.hpp\<close>,
  \<open>src/node/replication_manager.cpp\<close>). Sends and callbacks are values: an operation takes the reports of the
  transport in the order they arrive and returns the calls of its completion callback, the hints it
  enqueues and the messages it sends. Trace identifiers and metrics are left out.
\<close>

section \<open>The reducer of a quorum read\<close>

text \<open>\<open>rr_best\<close> is the triple \<open>best_version_\<close>, \<open>best_writer_\<close>, \<open>best_tombstone_\<close>; \<open>rr_out\<close> records each decision.\<close>

record ReadReducer =
  rr_r :: nat
  rr_pending :: nat
  rr_acks :: nat
  rr_best :: LwwStamp
  rr_needs_repair :: bool
  rr_entry :: "VersionedEntry option"
  rr_out :: "(VersionedEntry option \<times> bool \<times> nat) list"

definition newReadReducer :: "nat \<Rightarrow> nat \<Rightarrow> VersionedEntry option \<Rightarrow> ReadReducer" where
  "newReadReducer r total_n local =
     (case local of
        None \<Rightarrow> \<lparr>rr_r = r, rr_pending = total_n, rr_acks = 0, rr_best = \<lparr>st_version = 0, st_writer = 0, st_tombstone = False\<rparr>,
          rr_needs_repair = False, rr_entry = None, rr_out = []\<rparr>
      | Some e \<Rightarrow> \<lparr>rr_r = r, rr_pending = total_n, rr_acks = 1, rr_best = stampOf e, rr_needs_repair = False, rr_entry = Some e, rr_out = []\<rparr>)"

definition voteOf :: "Response \<Rightarrow> LwwStamp" where
  "voteOf r = \<lparr>st_version = rs_version r, st_writer = rs_writer r, st_tombstone = rs_tombstone r\<rparr>"

definition entryOfVote :: "Clock \<Rightarrow> Response \<Rightarrow> VersionedEntry" where
  "entryOfVote ck r =
     (let e = (case rs_value r of None \<Rightarrow> emptyEntry | Some v \<Rightarrow> emptyEntry\<lparr>ve_value := v\<rparr>);
          e = setVersion (rs_version r) e;
          e = e\<lparr>writer_node_hash := rs_writer r\<rparr>;
          e = setTombstone (rs_tombstone r) e
      in case rs_expires_at r of
           None \<Rightarrow> e
         | Some t \<Rightarrow> (setHasTtl True e)\<lparr>expires_at := toSteadyExpiry ck t\<rparr>)"

definition noteRemote :: "Clock \<Rightarrow> nat \<Rightarrow> Response Result \<Rightarrow> bool \<Rightarrow> ReadReducer \<Rightarrow> ReadReducer" where
  "noteRemote ck i res active rr =
     (if \<not> active then rr
      else
        let rr = rr\<lparr>rr_pending := rr_pending rr - 1\<rparr> in
        case res of
          Inl e \<Rightarrow> rr
        | Inr r \<Rightarrow>
            if rs_status r = errcByte OK \<and> rs_version r \<noteq> 0 then
              let rr = rr\<lparr>rr_acks := rr_acks rr + 1\<rparr>; vote = voteOf r; best = rr_best rr in
              if lwwWinsOver vote best then
                rr\<lparr>rr_needs_repair := True, rr_best := vote, rr_entry := Some (entryOfVote ck r)\<rparr>
              else if compareLww vote best \<noteq> Equal then rr\<lparr>rr_needs_repair := True\<rparr>
              else rr
            else if rs_status r = errcByte NotFound then rr\<lparr>rr_needs_repair := True\<rparr>
            else rr)"

definition readShouldFire :: "ReadReducer \<Rightarrow> bool" where
  "readShouldFire rr \<longleftrightarrow> rr_acks rr \<ge> rr_r rr \<or> rr_pending rr = 0"

definition readFire :: "ReadReducer \<Rightarrow> ReadReducer" where
  "readFire rr = rr\<lparr>rr_out := rr_out rr @ [(rr_entry rr, rr_needs_repair rr, rr_acks rr)]\<rparr>"

text \<open>The calls of the callback, the entries put into the local store, and the repair messages.\<close>

record ReadEffects =
  re_results :: "VersionedEntry Result list"
  re_heals :: "VersionedEntry list"
  re_repairs :: "(NodeId \<times> Request) list"

definition replicateRequest :: "Clock \<Rightarrow> string \<Rightarrow> VersionedEntry \<Rightarrow> Request" where
  "replicateRequest ck key e = (emptyRequest OpReplicate key)\<lparr>rq_value := ve_value e, rq_version := version e,
     rq_writer := writer_node_hash e, rq_tombstone := isTombstone e,
     rq_expires_at := (if hasTtl e then Some (toSystemExpiry ck (expires_at e)) else None)\<rparr>"

definition notFound :: "VersionedEntry option \<Rightarrow> VersionedEntry Result" where
  "notFound res = (case res of None \<Rightarrow> Inl (mkError NotFound ''key not found'') | Some e \<Rightarrow> Inr e)"

definition readEffects :: "Clock \<Rightarrow> string \<Rightarrow> NodeId list \<Rightarrow> (VersionedEntry option \<times> bool \<times> nat) list \<Rightarrow> ReadEffects" where
  "readEffects ck key replicas outs =
     \<lparr>re_results = map (\<lambda>(res, repair, acks). notFound res) outs,
      re_heals = concat (map (\<lambda>(res, repair, acks). case res of None \<Rightarrow> [] | Some e \<Rightarrow> if repair then [e] else []) outs),
      re_repairs = concat (map (\<lambda>(res, repair, acks). case res of None \<Rightarrow> []
          | Some e \<Rightarrow> if repair then map (\<lambda>t. (t, replicateRequest ck key e)) replicas else []) outs)\<rparr>"

definition readRun :: "Clock \<Rightarrow> nat \<Rightarrow> nat \<Rightarrow> VersionedEntry option \<Rightarrow> (nat \<times> Response Result) list \<Rightarrow> ReadReducer FanOutDrain" where
  "readRun ck n r local reports = fanOutQuorum n (noteRemote ck) readShouldFire readFire reports (newReadReducer r n local)"

section \<open>Replicated writes\<close>

datatype ConsistencyMode = Async | Quorum

definition fnv1a64 :: "string \<Rightarrow> u64" where
  "fnv1a64 s = foldl (\<lambda>h c. (h XOR of_nat (of_char c)) * 1099511628211) 14695981039346656037 s"

record WriteQuorum =
  wq_acks :: nat
  wq_pending :: nat
  wq_w :: nat
  wq_done :: "unit Result list"
  wq_hints :: "nat list"

definition writeEach :: "nat \<Rightarrow> unit Result \<Rightarrow> bool \<Rightarrow> WriteQuorum \<Rightarrow> WriteQuorum" where
  "writeEach i r active st =
     (let st = (case r of
          Inl e \<Rightarrow> st\<lparr>wq_hints := wq_hints st @ [i]\<rparr>
        | Inr _ \<Rightarrow> if active then st\<lparr>wq_acks := wq_acks st + 1\<rparr> else st)
      in st\<lparr>wq_pending := wq_pending st - 1\<rparr>)"

definition writeShouldFire :: "WriteQuorum \<Rightarrow> bool" where
  "writeShouldFire st \<longleftrightarrow> wq_acks st \<ge> wq_w st \<or> wq_pending st = 0 \<or> wq_acks st + wq_pending st < wq_w st"

definition writeFire :: "WriteQuorum \<Rightarrow> WriteQuorum" where
  "writeFire st =
     (if wq_acks st \<ge> wq_w st then st\<lparr>wq_done := wq_done st @ [Inr ()]\<rparr>
      else st\<lparr>wq_done := wq_done st @ [Inl (mkError NotReady ''quorum not reached'')]\<rparr>)"

definition writeQuorumSize :: "nat \<Rightarrow> nat" where
  "writeQuorumSize n = (n + 1) div 2 + 1"

definition writeRun :: "nat \<Rightarrow> (nat \<times> unit Result) list \<Rightarrow> WriteQuorum FanOutDrain" where
  "writeRun n reports = fanOutQuorum n writeEach writeShouldFire writeFire reports
     \<lparr>wq_acks = 1, wq_pending = n, wq_w = writeQuorumSize n, wq_done = [], wq_hints = []\<rparr>"

text \<open>The calls of \<open>on_done\<close>, and the replicas (with the request) that get a hint.\<close>

definition fanOutWrite :: "Request \<Rightarrow> NodeId list \<Rightarrow> ConsistencyMode \<Rightarrow> (nat \<times> unit Result) list \<Rightarrow> unit Result list \<times> (NodeId \<times> Request) list" where
  "fanOutWrite req replicas mode reports =
     (case mode of
        Async \<Rightarrow> ([Inr ()], map (\<lambda>(i, r). (replicas ! i, req)) (filter (\<lambda>(i, r). isl r \<and> i < length replicas) reports))
      | Quorum \<Rightarrow>
          if replicas = [] then ([Inr ()], [])
          else let st = fo_state (writeRun (length replicas) reports)
               in (wq_done st, map (\<lambda>i. (replicas ! i, req)) (wq_hints st)))"

section \<open>Both reducers are fan-out clients\<close>

interpretation wq: fan_out_client writeEach writeShouldFire writeFire wq_pending "\<lambda>st. length (wq_done st)"
  by unfold_locales (auto simp: writeEach_def writeShouldFire_def writeFire_def Let_def split: sum.split)

interpretation rq: fan_out_client "noteRemote ck" readShouldFire readFire rr_pending "\<lambda>rr. length (rr_out rr)" for ck
  by unfold_locales (auto simp: noteRemote_def readShouldFire_def readFire_def Let_def split: sum.split)

section \<open>The write decision\<close>

definition acked :: "unit Result \<Rightarrow> bool" where
  "acked r \<longleftrightarrow> \<not> isl r"

lemma writeEach_fields [simp]:
  "wq_acks (writeEach i r active st) = wq_acks st + (if acked r \<and> active then 1 else 0)"
  "wq_w (writeEach i r active st) = wq_w st" "wq_done (writeEach i r active st) = wq_done st"
  "wq_hints (writeEach i r active st) = wq_hints st @ (if acked r then [] else [i])"
  "wq_pending (writeEach i r active st) = wq_pending st - 1"
  by (auto simp: writeEach_def acked_def Let_def split: sum.split)

lemma writeFire_fields [simp]:
  "wq_acks (writeFire st) = wq_acks st" "wq_w (writeFire st) = wq_w st" "wq_hints (writeFire st) = wq_hints st"
  "wq_pending (writeFire st) = wq_pending st"
  "wq_done (writeFire st) = wq_done st @ [if wq_acks st \<ge> wq_w st then Inr () else Inl (mkError NotReady ''quorum not reached'')]"
  by (simp_all add: writeFire_def)

text \<open>
  Before the decision the counters are exact; after it the decision is the one that the reports still
  allow, whatever the stragglers say.
\<close>

lemma writeRun_invariant:
  "let d = writeRun n rs; st = fo_state d; oks = card (firstWith acked n rs); left = n - card (heard n rs) in
   wq_w st = writeQuorumSize n
   \<and> distinct (wq_hints st) \<and> set (wq_hints st) = firstWith (\<lambda>r. \<not> acked r) n rs
   \<and> (if fo_fired d then
        wq_done st = [Inr ()] \<and> writeQuorumSize n \<le> 1 + oks
        \<or> wq_done st = [Inl (mkError NotReady ''quorum not reached'')] \<and> 1 + oks + left < writeQuorumSize n
      else wq_acks st = 1 + oks \<and> wq_pending st = left \<and> wq_done st = [])"
proof (induction rs rule: rev_induct)
  case Nil
  then show ?case by (simp add: writeRun_def fanOutQuorum_def heard_def)
next
  case (snoc x rs)
  obtain i r where x: "x = (i, r)" by fastforce
  let ?s0 = "\<lparr>wq_acks = 1, wq_pending = n, wq_w = writeQuorumSize n, wq_done = [], wq_hints = []\<rparr>"
  note ih = snoc [unfolded Let_def]
  show ?case
  proof (cases rule: fan_step_cases [OF refl refl, where n = n and oe = writeEach and sf = writeShouldFire and fr = writeFire
        and rs = rs and s = ?s0 and i = i and r = r, folded writeRun_def, case_names dropped taken])
    case dropped
    then show ?thesis using ih by (cases "fo_fired (writeRun n rs)") (simp_all add: x firstWith_dropped Let_def)
  next
    case taken
    let ?d = "writeRun n rs" and ?d' = "writeRun n (rs @ [(i, r)])"
    let ?oks = "card (firstWith acked n rs)" and ?left = "n - card (heard n rs)"
    have oks: "card (firstWith acked n (rs @ [(i, r)])) = ?oks + (if acked r then 1 else 0)"
      using firstWith_taken(1) [OF taken(1,2), of acked r] firstWith_taken(2) [OF taken(1,2), of acked] by simp
    have left: "n - card (heard n (rs @ [(i, r)])) = ?left - 1" "0 < ?left"
      using taken(3) card_heard [of n "rs @ [(i, r)]"] by simp_all
    have hints: "distinct (wq_hints (fo_state ?d'))" "set (wq_hints (fo_state ?d')) = firstWith (\<lambda>r. \<not> acked r) n (rs @ [(i, r)])"
      "wq_w (fo_state ?d') = writeQuorumSize n"
      using ih taken(5) firstWith_taken(1) [OF taken(1,2), of "\<lambda>r. \<not> acked r" r]
        firstWith_taken(2) [OF taken(1,2), of "\<lambda>r. \<not> acked r"] by (auto split: if_splits)
    show ?thesis
    proof (cases "fo_fired ?d")
      case True
      then have "fo_fired ?d'" "wq_done (fo_state ?d') = wq_done (fo_state ?d)" using taken(4,5) by simp_all
      moreover have "(if acked r then 1 else 0) \<le> (1 :: nat)" by simp
      then have "1 + (?oks + (if acked r then 1 else 0)) + (?left - 1) \<le> 1 + ?oks + ?left" using left(2) by linarith
      ultimately show ?thesis using ih True hints oks left(1) by (auto simp: x Let_def)
    next
      case False
      define st where "st = writeEach i r True (fo_state ?d)"
      have st: "wq_acks st = 1 + ?oks + (if acked r then 1 else 0)" "wq_pending st = ?left - 1" "wq_done st = []" "wq_w st = writeQuorumSize n"
        using ih False by (auto simp: st_def)
      show ?thesis
      proof (cases "writeShouldFire st")
        case True
        then have fd: "fo_fired ?d'" "fo_state ?d' = writeFire st" using taken(4,5) False by (simp_all add: st_def)
        have "wq_acks st + wq_pending st < wq_w st" if "\<not> wq_acks st \<ge> wq_w st" using True that by (auto simp: writeShouldFire_def)
        then show ?thesis using fd st hints oks left(1) by (auto simp: x Let_def)
      next
        case nf: False
        then have fd: "\<not> fo_fired ?d'" "fo_state ?d' = st" using taken(4,5) False by (simp_all add: st_def)
        then show ?thesis using st hints oks left(1) by (simp add: x Let_def)
      qed
    qed
  qed
qed

text \<open>
  C14. A quorum write completes exactly once, and its outcome does not depend on the order, the duplication
  or the lateness of the replicas' reports: once every replica has reported, the callback was called with
  success exactly if the local write and the replicas whose first report was an acknowledgement make a
  majority, and otherwise with \<open>NotReady\<close>; every replica that failed, and no other, got exactly one hint.
\<close>

theorem write_quorum_decision:
  assumes "replicas \<noteq> []" "heard (length replicas) reports = {..<length replicas}"
  shows "let n = length replicas; res = fanOutWrite req replicas Quorum reports in
    fst res = [if (n + 1) div 2 + 1 \<le> 1 + card (firstWith acked n reports) then Inr () else Inl (mkError NotReady ''quorum not reached'')]
    \<and> (\<exists>idx. snd res = map (\<lambda>i. (replicas ! i, req)) idx \<and> distinct idx \<and> set idx = firstWith (\<lambda>r. \<not> acked r) n reports)"
proof -
  let ?n = "length replicas"
  have n: "0 < ?n" using assms(1) by simp
  have fired: "fo_fired (writeRun ?n reports)"
    unfolding writeRun_def by (rule wq.all_heard [OF _ n assms(2)]) simp
  note inv = writeRun_invariant [of ?n reports, unfolded Let_def assms(2)]
  show ?thesis using inv fired assms(1) by (auto simp: fanOutWrite_def Let_def writeQuorumSize_def)
qed

theorem write_quorum_decision_witness:
  "fst (fanOutWrite (emptyRequest OpReplicate ''k'') [''b'', ''c''] Quorum [(1, Inl (mkError Timeout [])), (1, Inr ()), (0, Inr ())]) = [Inr ()]"
proof -
  let ?rs = "[(1, Inl (mkError Timeout [])), (1, Inr ()), (0, Inr ())] :: (nat \<times> unit Result) list"
  have h: "heard (length [''b'', ''c'']) ?rs = {..<length [''b'', ''c'']}" by (auto simp: heard_def)
  have f: "firstWith acked (length [''b'', ''c'']) ?rs = {0}"
    by (auto simp: firstWith_def acked_def less_Suc_eq split: if_splits)
  show ?thesis using write_quorum_decision [OF _ h, of "emptyRequest OpReplicate ''k''"] unfolding Let_def f by simp
qed

section \<open>The read decision\<close>

definition isVote :: "Response Result \<Rightarrow> bool" where
  "isVote res \<longleftrightarrow> (case res of Inl e \<Rightarrow> False | Inr r \<Rightarrow> rs_status r = errcByte OK \<and> rs_version r \<noteq> 0)"

definition noStamp :: LwwStamp where
  "noStamp = \<lparr>st_version = 0, st_writer = 0, st_tombstone = False\<rparr>"

text \<open>The vote that target \<open>i\<close> cast with its first report.\<close>

definition voteAt :: "(nat \<times> Response Result) list \<Rightarrow> nat \<Rightarrow> LwwStamp" where
  "voteAt reports i = (case map_of reports i of Some (Inr r) \<Rightarrow> voteOf r | _ \<Rightarrow> noStamp)"

definition localVotes :: "VersionedEntry option \<Rightarrow> nat" where
  "localVotes local = (if local = None then 0 else 1)"

text \<open>Versions fit the 62 bits that an entry stores.\<close>

definition narrowReport :: "Response Result \<Rightarrow> bool" where
  "narrowReport res \<longleftrightarrow> (case res of Inl e \<Rightarrow> True | Inr r \<Rightarrow> rs_version r < 2 ^ 62)"

lemma take_bit_narrow: "(v :: u64) < 2 ^ 62 \<Longrightarrow> take_bit 62 v = v"
  by (simp add: take_bit_eq_mod word_unat_eq_iff unat_mod word_less_nat_alt)

lemma entry_frames:
  "version (e\<lparr>writer_node_hash := w\<rparr>) = version e" "isTombstone (e\<lparr>writer_node_hash := w\<rparr>) = isTombstone e"
  "version (e\<lparr>expires_at := t\<rparr>) = version e" "isTombstone (e\<lparr>expires_at := t\<rparr>) = isTombstone e"
  by (simp_all add: version_def isTombstone_def)

lemma stamp_entryOfVote: "rs_version r < 2 ^ 62 \<Longrightarrow> stampOf (entryOfVote ck r) = voteOf r"
  by (cases "rs_value r"; cases "rs_expires_at r")
    (simp_all add: stampOf_def entryOfVote_def voteOf_def Let_def version_setVersion take_bit_narrow entry_frames)

lemma noStamp_less: "rs_version r \<noteq> 0 \<Longrightarrow> noStamp < voteOf r"
  by (simp add: noStamp_def voteOf_def less_LwwStamp_ext_def less_eq_LwwStamp_ext_def word_neq_0_conv)

text \<open>What the entry of a decision accounts for: the local entry and a set of votes.\<close>

definition covers :: "VersionedEntry option \<Rightarrow> (nat \<times> Response Result) list \<Rightarrow> nat set \<Rightarrow> VersionedEntry option \<Rightarrow> bool" where
  "covers local reports V entry \<longleftrightarrow>
     (case entry of
        None \<Rightarrow> local = None \<and> V = {}
      | Some e \<Rightarrow> (\<forall>i \<in> V. voteAt reports i \<le> stampOf e) \<and> (\<forall>l. local = Some l \<longrightarrow> stampOf l \<le> stampOf e))"

lemma map_of_heard: "i \<in> heard n rs \<Longrightarrow> map_of (rs @ [x]) i = map_of rs i"
  by (cases x) (auto simp: heard_def map_add_def map_of_eq_None_iff split: option.split)

lemma covers_snoc: "V \<subseteq> heard n rs \<Longrightarrow> covers local (rs @ [x]) V entry = covers local rs V entry"
proof -
  assume "V \<subseteq> heard n rs"
  then have "voteAt (rs @ [x]) i = voteAt rs i" if "i \<in> V" for i using map_of_heard [of i n rs x] that by (auto simp: voteAt_def)
  then show ?thesis by (auto simp: covers_def split: option.split)
qed

definition tracksBest :: "ReadReducer \<Rightarrow> bool" where
  "tracksBest rr \<longleftrightarrow> (case rr_entry rr of None \<Rightarrow> rr_best rr = noStamp | Some e \<Rightarrow> stampOf e = rr_best rr)"

lemma noteRemote_vote:
  assumes narrow: "narrowReport res" and tracked: "tracksBest rr"
    and cov: "covers local rs V (rr_entry rr)" "V \<subseteq> heard n rs" and new: "i < n" "i \<notin> heard n rs"
    and rr'_def: "rr' = noteRemote ck i res True rr"
  shows "tracksBest rr'"
    "covers local (rs @ [(i, res)]) (if isVote res then insert i V else V) (rr_entry rr')"
    "rr_acks rr' = rr_acks rr + (if isVote res then 1 else 0)" "rr_pending rr' = rr_pending rr - 1" "rr_r rr' = rr_r rr" "rr_out rr' = rr_out rr"
proof -
  have cs: "covers local (rs @ [(i, res)]) V (rr_entry rr)" using cov covers_snoc by blast
  show "rr_pending rr' = rr_pending rr - 1" "rr_r rr' = rr_r rr" "rr_out rr' = rr_out rr"
    "rr_acks rr' = rr_acks rr + (if isVote res then 1 else 0)"
    by (simp_all add: rr'_def noteRemote_def isVote_def Let_def split: sum.split)
  have "tracksBest rr'
      \<and> covers local (rs @ [(i, res)]) (if isVote res then insert i V else V) (rr_entry rr')"
  proof (cases "isVote res")
    case False
    then have "rr_entry rr' = rr_entry rr" "rr_best rr' = rr_best rr"
      by (auto simp: rr'_def noteRemote_def isVote_def Let_def split: sum.split)
    then show ?thesis using tracked cs False by (cases "rr_entry rr") (simp_all add: tracksBest_def)
  next
    case True
    then obtain r where r: "res = Inr r" "rs_status r = errcByte OK" "rs_version r \<noteq> 0" by (auto simp: isVote_def split: sum.splits)
    have "map_of rs i = None" using new by (auto simp: heard_def map_of_eq_None_iff)
    then have at: "voteAt (rs @ [(i, res)]) i = voteOf r" by (simp add: voteAt_def r(1) map_add_def)
    have st: "stampOf (entryOfVote ck r) = voteOf r" using narrow r(1) by (intro stamp_entryOfVote) (simp add: narrowReport_def)
    show ?thesis
    proof (cases "rr_best rr < voteOf r")
      case win: True
      then have e: "rr_entry rr' = Some (entryOfVote ck r)" "rr_best rr' = voteOf r"
        using r by (simp_all add: rr'_def noteRemote_def Let_def lwwWinsOver_less)
      have "covers local (rs @ [(i, res)]) V (Some (entryOfVote ck r))"
        using cs tracked win st by (auto simp: covers_def tracksBest_def split: option.splits)
      then show ?thesis using True e st at by (simp add: covers_def tracksBest_def)
    next
      case lose: False
      then have e: "rr_entry rr' = rr_entry rr" "rr_best rr' = rr_best rr"
        using r by (simp_all add: rr'_def noteRemote_def Let_def lwwWinsOver_less)
      obtain x where x: "rr_entry rr = Some x" "stampOf x = rr_best rr"
        using tracked lose noStamp_less [OF r(3)] by (auto simp: tracksBest_def split: option.splits)
      then show ?thesis using True e cs at lose by (simp add: covers_def tracksBest_def not_less)
    qed
  qed
  then show "tracksBest rr'"
    "covers local (rs @ [(i, res)]) (if isVote res then insert i V else V) (rr_entry rr')" by blast+
qed

lemma newReadReducer_facts:
  "rr_r (newReadReducer r n local) = r" "rr_pending (newReadReducer r n local) = n" "rr_acks (newReadReducer r n local) = localVotes local"
  "rr_out (newReadReducer r n local) = []" "covers local [] {} (rr_entry (newReadReducer r n local))"
  "tracksBest (newReadReducer r n local)"
  by (cases local; simp add: newReadReducer_def localVotes_def covers_def noStamp_def tracksBest_def)+

text \<open>
  Before the decision the reducer holds the maximum of everything it has seen; the decision is that maximum
  over a set of votes that is large enough or complete.
\<close>

definition readDecision :: "nat \<Rightarrow> nat \<Rightarrow> VersionedEntry option \<Rightarrow> (nat \<times> Response Result) list
    \<Rightarrow> (VersionedEntry option \<times> bool \<times> nat) list \<Rightarrow> bool" where
  "readDecision n r local reports out \<longleftrightarrow>
     (\<exists>entry rep V. out = [(entry, rep, localVotes local + card V)] \<and> V \<subseteq> firstWith isVote n reports \<and> covers local reports V entry
        \<and> (r \<le> localVotes local + card V \<or> card (heard n reports) = n \<and> V = firstWith isVote n reports))"

lemma readDecision_snoc:
  assumes "readDecision n r local rs out" "firstWith isVote n rs \<subseteq> firstWith isVote n (rs @ [x])"
    "card (heard n rs) < n \<or> heard n (rs @ [x]) = heard n rs \<and> firstWith isVote n (rs @ [x]) = firstWith isVote n rs"
  shows "readDecision n r local (rs @ [x]) out"
proof -
  obtain entry rep V where e: "out = [(entry, rep, localVotes local + card V)]" "V \<subseteq> firstWith isVote n rs" "covers local rs V entry"
    "r \<le> localVotes local + card V \<or> card (heard n rs) = n \<and> V = firstWith isVote n rs"
    using assms(1) unfolding readDecision_def by blast
  have "V \<subseteq> heard n rs" using e(2) firstWith_heard [of isVote n rs] by blast
  then have "covers local (rs @ [x]) V entry" using e(3) covers_snoc by blast
  moreover have "V \<subseteq> firstWith isVote n (rs @ [x])" using e(2) assms(2) by (rule subset_trans)
  moreover have "r \<le> localVotes local + card V \<or> card (heard n (rs @ [x])) = n \<and> V = firstWith isVote n (rs @ [x])"
    using e(4) assms(3) by auto
  ultimately show ?thesis unfolding readDecision_def using e(1) by blast
qed

lemma readRun_invariant:
  assumes "\<forall>x \<in> set rs. narrowReport (snd x)" and d_def: "d = readRun ck n r local"
  shows "rr_r (fo_state (d rs)) = r \<and>
    (if fo_fired (d rs) then
       readDecision n r local rs (rr_out (fo_state (d rs)))
     else rr_out (fo_state (d rs)) = [] \<and> rr_acks (fo_state (d rs)) = localVotes local + card (firstWith isVote n rs)
       \<and> rr_pending (fo_state (d rs)) = n - card (heard n rs) \<and> covers local rs (firstWith isVote n rs) (rr_entry (fo_state (d rs)))
       \<and> tracksBest (fo_state (d rs)))"
  using assms(1)
proof (induction rs rule: rev_induct)
  case Nil
  then show ?case using newReadReducer_facts [where r = r and n = n and local = local] by (simp add: d_def readRun_def fanOutQuorum_def heard_def)
next
  case (snoc x rs)
  obtain i res where x: "x = (i, res)" by fastforce
  have narrow: "narrowReport res" and ih: "\<forall>x \<in> set rs. narrowReport (snd x)" using snoc.prems x by auto
  note ih = snoc.IH [OF ih]
  have sub: "V \<subseteq> heard n rs" if "V \<subseteq> firstWith isVote n rs" for V using that firstWith_heard [of isVote n rs] by blast
  show ?case
  proof (cases rule: fan_step_cases [OF refl refl, where n = n and oe = "noteRemote ck" and sf = readShouldFire and fr = readFire
        and rs = rs and s = "newReadReducer r n local" and i = i and r = res, folded readRun_def, case_names dropped taken])
    case dropped
    have dd: "d (rs @ [x]) = d rs" using dropped(1) by (simp add: d_def x)
    have V: "firstWith isVote n (rs @ [x]) = firstWith isVote n rs" "heard n (rs @ [x]) = heard n rs" using dropped(2,3) firstWith_dropped by (simp_all add: x)
    show ?thesis
    proof (cases "fo_fired (d rs)")
      case True
      then show ?thesis using ih dd V readDecision_snoc [of n r local rs _ x] by simp
    next
      case False
      then show ?thesis using ih dd V covers_snoc [OF sub [OF subset_refl]] by simp
    qed
  next
    case taken
    have V: "firstWith isVote n (rs @ [x]) = (if isVote res then insert i (firstWith isVote n rs) else firstWith isVote n rs)" "i \<notin> firstWith isVote n rs"
      using firstWith_taken(1) [OF taken(1,2)] firstWith_taken(2) [OF taken(1,2)] by (simp_all add: x)
    have dd: "d rs = readRun ck n r local rs" "d (rs @ [x]) = readRun ck n r local (rs @ [(i, res)])" by (simp_all add: d_def x)
    show ?thesis
    proof (cases "fo_fired (d rs)")
      case True
      then have f: "fo_fired (d (rs @ [x]))" "fo_state (d (rs @ [x])) = noteRemote ck i res False (fo_state (d rs))"
        using taken(4,5) dd by simp_all
      have lt: "card (heard n rs) < n" using taken(3) card_heard [of n "rs @ [(i, res)]"] by simp
      have "firstWith isVote n rs \<subseteq> firstWith isVote n (rs @ [x])" using V(1) by (simp add: subset_insertI)
      then have "readDecision n r local (rs @ [x]) (rr_out (fo_state (d rs)))" using ih True lt by (intro readDecision_snoc) simp_all
      then show ?thesis using f ih by (simp add: noteRemote_def)
    next
      case False
      define rr where "rr = noteRemote ck i res True (fo_state (d rs))"
      have ih': "rr_r (fo_state (d rs)) = r" "rr_out (fo_state (d rs)) = []" "rr_acks (fo_state (d rs)) = localVotes local + card (firstWith isVote n rs)"
        "rr_pending (fo_state (d rs)) = n - card (heard n rs)" "covers local rs (firstWith isVote n rs) (rr_entry (fo_state (d rs)))"
        "tracksBest (fo_state (d rs))"
        using ih False by simp_all
      note nv = noteRemote_vote [OF narrow ih'(6) ih'(5) firstWith_heard taken(1,2) rr_def]
      have acks: "rr_acks rr = localVotes local + card (firstWith isVote n (rs @ [x]))" using nv(3) ih'(3) V by simp
      have cov: "covers local (rs @ [x]) (firstWith isVote n (rs @ [x])) (rr_entry rr)" using nv(2) V(1) by (simp add: x)
      have pend: "rr_pending rr = n - card (heard n (rs @ [x]))" using nv(4) ih'(4) taken(3) by (simp add: x)
      show ?thesis
      proof (cases "readShouldFire rr")
        case True
        then have f: "fo_fired (d (rs @ [x]))" "fo_state (d (rs @ [x])) = readFire rr" using taken(4,5) False dd by (simp_all add: rr_def)
        have "r \<le> rr_acks rr \<or> card (heard n (rs @ [x])) = n"
          using True pend nv(5) ih'(1) card_heard [of n "rs @ [x]"] by (auto simp: readShouldFire_def)
        then have "readDecision n r local (rs @ [x]) [(rr_entry rr, rr_needs_repair rr, rr_acks rr)]"
          unfolding readDecision_def acks using cov by blast
        then show ?thesis using f nv(5,6) ih'(1,2) by (simp add: readFire_def)
      next
        case nf: False
        then have f: "\<not> fo_fired (d (rs @ [x]))" "fo_state (d (rs @ [x])) = rr" using taken(4,5) False dd by (simp_all add: rr_def)
        then show ?thesis using cov acks pend nv(1,5,6) ih'(1,2) by simp
      qed
    qed
  qed
qed

lemma readRun_done:
  assumes "\<forall>x \<in> set rs. narrowReport (snd x)" "rr_out (fo_state (readRun ck n r local rs)) = [(entry, rep, acks)]"
  obtains V where "acks = localVotes local + card V" "V \<subseteq> firstWith isVote n rs" "covers local rs V entry"
proof -
  note inv = readRun_invariant [OF assms(1) refl, of ck n r local]
  have "fo_fired (readRun ck n r local rs)" using inv assms(2) by (auto split: if_splits)
  then have "readDecision n r local rs [(entry, rep, acks)]" using inv assms(2) by simp
  then show ?thesis unfolding readDecision_def using that by blast
qed

text \<open>
  C15. A read quorum meets a write quorum. Suppose a write with stamp \<open>ws\<close> was stored by at least \<open>w\<close> of the
  \<open>n + 1\<close> copies (the replicas in \<open>F\<close>, and the local one if \<open>lf\<close>), and a later read with \<open>r + w > n + 1\<close> decides with
  at least \<open>r\<close> versioned answers. Then whatever the order and the losses of the reports, the entry it returns is
  at least as new as that write in the last-writer-wins order. Versions are below \<open>2 ^ 62\<close>, the width an
  entry stores.
\<close>

theorem quorum_read_sees_write:
  assumes "\<forall>x \<in> set reports. narrowReport (snd x)"
    and "F \<subseteq> {..<n}" "\<forall>i \<in> F \<inter> firstWith isVote n reports. ws \<le> voteAt reports i"
    and "lf \<longrightarrow> (\<exists>l. local = Some l \<and> ws \<le> stampOf l)" "w \<le> card F + (if lf then 1 else 0)" "n + 1 < w + r"
    and "rr_out (fo_state (readRun ck n r local reports)) = [(entry, repair, acks)]" "r \<le> acks"
  shows "\<exists>e. notFound entry = Inr e \<and> ws \<le> stampOf e"
proof -
  obtain V where V: "acks = localVotes local + card V" "V \<subseteq> firstWith isVote n reports" "covers local reports V entry"
    using readRun_done [OF assms(1,7)] by blast
  have Vn: "V \<subseteq> {..<n}" using V(2) by (auto simp: firstWith_def)
  have "F \<inter> V \<noteq> {} \<or> lf"
  proof (rule ccontr)
    assume "\<not> (F \<inter> V \<noteq> {} \<or> lf)"
    then have d: "F \<inter> V = {}" "\<not> lf" by simp_all
    have "card F + card V = card (F \<union> V)" using d(1) assms(2) Vn by (intro card_Un_disjoint [symmetric]) (auto intro: finite_subset)
    also have "\<dots> \<le> n" using card_mono [of "{..<n}" "F \<union> V"] assms(2) Vn by simp
    finally have "w + r \<le> n + 1" using assms(5,8) d(2) V(1) by (simp add: localVotes_def split: if_splits)
    then show False using assms(6) by simp
  qed
  then obtain e where "entry = Some e" "ws \<le> stampOf e"
  proof
    assume "F \<inter> V \<noteq> {}"
    then obtain i where i: "i \<in> F" "i \<in> V" by blast
    then have "ws \<le> voteAt reports i" using assms(3) V(2) by blast
    moreover obtain e where "entry = Some e" "voteAt reports i \<le> stampOf e" using V(3) i(2) by (auto simp: covers_def split: option.splits)
    ultimately show ?thesis using that order_trans by blast
  next
    assume lf
    then obtain l where "local = Some l" "ws \<le> stampOf l" using assms(4) by blast
    moreover from this obtain e where "entry = Some e" "stampOf l \<le> stampOf e" using V(3) by (auto simp: covers_def split: option.splits)
    ultimately show ?thesis using that order_trans by blast
  qed
  then show ?thesis by (simp add: notFound_def)
qed

definition demoVote :: "nat \<Rightarrow> Response" where
  "demoVote v = \<lparr>rs_status = errcByte OK, rs_value = Some ''x'', rs_version = of_nat v, rs_writer = 1, rs_expires_at = None,
     rs_tombstone = False, rs_trace_id = 0, rs_span_id = 0\<rparr>"

definition demoReports :: "(nat \<times> Response Result) list" where
  "demoReports = [(1, Inl (mkError Timeout [])), (0, Inr (demoVote 5))]"

definition demoSample :: Clock where
  "demoSample = \<lparr>ck_now = 0, ck_system = 0\<rparr>"

lemma demo_read:
  "\<exists>entry repair. rr_out (fo_state (readRun demoSample 2 2 (Some (writeAtVersion 3)) demoReports)) = [(entry, repair, 2)]"
  by (simp add: readRun_def demoReports_def fanOutQuorum_def fanStep_def newReadReducer_def noteRemote_def readShouldFire_def readFire_def
      demoVote_def Let_def)

theorem quorum_read_sees_write_witness:
  "\<exists>entry repair e. rr_out (fo_state (readRun demoSample 2 2 (Some (writeAtVersion 3)) demoReports)) = [(entry, repair, 2)]
     \<and> notFound entry = Inr e \<and> voteOf (demoVote 5) \<le> stampOf e"
proof -
  obtain entry repair where out: "rr_out (fo_state (readRun demoSample 2 2 (Some (writeAtVersion 3)) demoReports)) = [(entry, repair, 2)]"
    using demo_read by blast
  have narrow: "\<forall>x \<in> set demoReports. narrowReport (snd x)" by (simp add: demoReports_def narrowReport_def demoVote_def)
  have votes: "\<forall>i \<in> {0, 1} \<inter> firstWith isVote 2 demoReports. voteOf (demoVote 5) \<le> voteAt demoReports i"
    by (auto simp: firstWith_def demoReports_def isVote_def voteAt_def)
  have "\<exists>e. notFound entry = Inr e \<and> voteOf (demoVote 5) \<le> stampOf e"
    by (rule quorum_read_sees_write [OF narrow _ votes _ _ _ out, of False 2]) auto
  then show ?thesis using out by blast
qed

text \<open>Replicas that fail only count down.\<close>

lemma silent_replicas:
  assumes "k \<le> n" "localVotes local < r"
  shows "fo_state (readRun ck n r local (map (\<lambda>i. (i, Inl er)) [0..<k]))
      = (if k = n \<and> 0 < n then readFire ((newReadReducer r n local)\<lparr>rr_pending := 0\<rparr>) else (newReadReducer r n local)\<lparr>rr_pending := n - k\<rparr>)
    \<and> fo_fired (readRun ck n r local (map (\<lambda>i. (i, Inl er)) [0..<k])) = (k = n \<and> 0 < n)"
  using assms(1)
proof (induction k)
  case 0
  then show ?case using newReadReducer_facts(2) [of r n local] by (cases "newReadReducer r n local") (auto simp: readRun_def fanOutQuorum_def)
next
  case (Suc k)
  let ?rs = "map (\<lambda>i. (i, Inl er)) [0..<k] :: (nat \<times> Response Result) list"
  let ?rr = "newReadReducer r n local"
  have h: "k \<notin> heard n ?rs" by (auto simp: heard_def)
  have st: "fo_state (readRun ck n r local ?rs) = ?rr\<lparr>rr_pending := n - k\<rparr>" "\<not> fo_fired (readRun ck n r local ?rs)" using Suc by simp_all
  have each: "noteRemote ck k (Inl er) True (?rr\<lparr>rr_pending := n - k\<rparr>) = ?rr\<lparr>rr_pending := n - Suc k\<rparr>" by (simp add: noteRemote_def)
  have fire: "readShouldFire (?rr\<lparr>rr_pending := n - Suc k\<rparr>) = (Suc k = n)"
    using Suc.prems assms(2) newReadReducer_facts(1,3) [of r n local] by (auto simp: readShouldFire_def)
  show ?case
  proof (cases rule: fan_step_cases [OF refl refl, where n = n and oe = "noteRemote ck" and sf = readShouldFire and fr = readFire
        and rs = ?rs and s = ?rr and i = k and r = "Inl er", folded readRun_def, case_names dropped taken])
    case dropped
    then show ?thesis using h Suc.prems by simp
  next
    case taken
    then show ?thesis using st each fire Suc.prems by auto
  qed
qed



end
