(* ===== verification/HintJournal.thy ===== *)
theory HintJournal
  imports HintQueue Wal
begin

text \<open>
  The journal of hints (\<open>src/node/hint_journal.cpp\<close>). A file is its bytes, an open descriptor adds the current
  offset: reads and writes move it, a write past the end leaves a hole of zero bytes. \<open>xxh\<close> stands for
  \<open>XXH3_64bits\<close>. Whether a system call succeeds is an argument, and for \<open>write\<close> the sequence of its results.
  The operations on the queue are those of \<open>HintQueue\<close>; \<open>None\<close> means one of them does not return.
\<close>

section \<open>Model\<close>

definition K_OP_ADD :: u8 where "K_OP_ADD = 1"

definition K_OP_DEL :: u8 where "K_OP_DEL = 2"

definition K_COMPACT_RECORDS :: nat where "K_COMPACT_RECORDS = 4096"

record HintJournal =
  hj_open :: bool
  hj_data :: bytes
  hj_pos :: nat
  hj_records :: nat

definition closedJournal :: HintJournal where
  "closedJournal = \<lparr>hj_open = False, hj_data = [], hj_pos = 0, hj_records = 0\<rparr>"

subsection \<open>Files with an offset\<close>

definition readExactly :: "nat \<Rightarrow> bytes \<Rightarrow> nat \<Rightarrow> bytes option \<times> nat" where
  "readExactly n data pos =
     (if pos + n \<le> length data then (Some (take n (drop pos data)), pos + n) else (None, max pos (length data)))"

definition fileWrite :: "bytes \<Rightarrow> bytes \<times> nat \<Rightarrow> bytes \<times> nat" where
  "fileWrite bs f =
     (case f of (data, pos) \<Rightarrow>
        (take pos data @ replicate (pos - length data) (CHR 0x00) @ bs @ drop (pos + length bs) data, pos + length bs))"

fun writeAllAt :: "WriteRes list \<Rightarrow> bytes \<Rightarrow> bytes \<times> nat \<Rightarrow> bool \<times> WriteRes list \<times> bytes \<times> nat" where
  "writeAllAt rs [] f = (True, rs, f)"
| "writeAllAt [] data f = (False, [], f)"
| "writeAllAt (Interrupted # rs) data f = writeAllAt rs data f"
| "writeAllAt (WriteError # rs) data f = (False, rs, f)"
| "writeAllAt (Wrote n # rs) data f =
     (if n = 0 then (False, rs, f) else writeAllAt rs (drop n data) (fileWrite (take n data) f))"

subsection \<open>Records\<close>

definition entryExpiryMs :: "Request \<Rightarrow> u64" where
  "entryExpiryMs req = (case rq_expires_at req of None \<Rightarrow> 0 | Some t \<Rightarrow> word_of_int (truncMs t))"

definition encodeAdd :: "Hint \<Rightarrow> u64 \<Rightarrow> bytes" where
  "encodeAdd h sys_expiry_ms =
     (let req = ht_req h;
          out = ByteWriter (length (ht_target h) + length (rq_key req) + length (rq_value req) + 64 + 8 + 1);
          out = bufWrite K_OP_ADD out;
          out = bufWrite sys_expiry_ms out;
          out = bufWrite (word_of_nat (length (ht_target h)) :: u32) out;
          out = bufWriteString (ht_target h) out;
          out = bufWrite (word_of_nat (length (rq_key req)) :: u32) out;
          out = bufWriteString (rq_key req) out;
          out = bufWrite (word_of_nat (length (rq_value req)) :: u32) out;
          out = bufWriteString (rq_value req) out;
          out = bufWrite (rq_version req) out;
          out = bufWrite (rq_writer req) out;
          out = bufWrite (entryExpiryMs req) out;
          out = bufWrite (boolByte (rq_tombstone req)) out
      in written out)"

definition encodeDel :: "NodeId \<Rightarrow> Key \<Rightarrow> u64 \<Rightarrow> bytes" where
  "encodeDel target key ver =
     (let out = ByteWriter (length target + length key + 32);
          out = bufWrite K_OP_DEL out;
          out = bufWrite (word_of_nat (length target) :: u32) out;
          out = bufWriteString target out;
          out = bufWrite (word_of_nat (length key) :: u32) out;
          out = bufWriteString key out;
          out = bufWrite ver out
      in written out)"

text \<open>\<open>ParsedRecord\<close> with its flag \<open>is_add\<close>.\<close>

datatype ParsedRecord = AddRecord Hint u64 | DelRecord NodeId Key u64

definition optTrailer :: "(int option \<Rightarrow> bool \<Rightarrow> Reader \<Rightarrow> 'b option \<times> bool \<times> Reader) \<Rightarrow> Reader \<Rightarrow> 'b option \<times> bool \<times> Reader" where
  "optTrailer k r =
     (if remaining r \<noteq> 0 then
        bindO (buf_u64 r) (\<lambda>exp_ms r.
        bindO (buf_u8 r) (\<lambda>tombstone_byte r.
          if tombstone_byte > 1 \<or> remaining r \<noteq> 0 then (None, True, r)
          else k (if exp_ms \<noteq> 0 then Some (sint exp_ms * 1000000) else None) (tombstone_byte \<noteq> 0) r))
      else k None False r)"

definition parseAdd :: "Clock \<Rightarrow> Reader \<Rightarrow> ParsedRecord option \<times> bool \<times> Reader" where
  "parseAdd ck r =
     bindO (buf_u64 r) (\<lambda>exp r.
     bindO (buf_u32 r) (\<lambda>tlen r.
     bindO (bufReadString (unat tlen) r) (\<lambda>target r.
     bindO (buf_u32 r) (\<lambda>klen r.
     bindO (bufReadString (unat klen) r) (\<lambda>key r.
     bindO (buf_u32 r) (\<lambda>vlen r.
     bindO (bufReadString (unat vlen) r) (\<lambda>value r.
     bindO (buf_u64 r) (\<lambda>ver r.
     bindO (buf_u64 r) (\<lambda>writer r.
     optTrailer (\<lambda>entry_expiry tombstone r.
       (Some (AddRecord \<lparr>ht_target = target,
          ht_req = (emptyRequest OpReplicate key)\<lparr>rq_value := value, rq_version := ver, rq_writer := writer, rq_expires_at := entry_expiry,
            rq_tombstone := tombstone\<rparr>,
          ht_expires_at = ck_now ck + 30000 * 1000000\<rparr> exp), False, r)) r)))))))))"

definition parseDel :: "Reader \<Rightarrow> ParsedRecord option \<times> bool \<times> Reader" where
  "parseDel r =
     bindO (buf_u32 r) (\<lambda>tlen r.
     bindO (bufReadString (unat tlen) r) (\<lambda>target r.
     bindO (buf_u32 r) (\<lambda>klen r.
     bindO (bufReadString (unat klen) r) (\<lambda>key r.
     bindO (buf_u64 r) (\<lambda>ver r.
       if remaining r \<noteq> 0 then (None, True, r) else (Some (DelRecord target key ver), False, r))))))"

definition parseRecord :: "Clock \<Rightarrow> bytes \<Rightarrow> ParsedRecord option" where
  "parseRecord ck payload =
     (if payload = [] then None
      else fst (bindO (buf_u8 (BufferReader payload)) (\<lambda>op r.
        if op = K_OP_ADD then parseAdd ck r else if op = K_OP_DEL then parseDel r else (None, True, r))))"

subsection \<open>Appending\<close>

definition journalWrite :: "(bytes \<Rightarrow> u64) \<Rightarrow> WriteRes list \<Rightarrow> bytes \<Rightarrow> bytes \<times> nat \<Rightarrow> bool \<times> WriteRes list \<times> bytes \<times> nat" where
  "journalWrite xxh rs payload f =
     (case writeAllAt rs (leBytes (word_of_nat (length payload) :: u32)) f of
        (False, rs, f) \<Rightarrow> (False, rs, f)
      | (True, rs, f) \<Rightarrow>
          (case writeAllAt rs (leBytes (xxh payload)) f of
             (False, rs, f) \<Rightarrow> (False, rs, f)
           | (True, rs, f) \<Rightarrow> writeAllAt rs payload f))"

definition journalAppend :: "(bytes \<Rightarrow> u64) \<Rightarrow> WriteRes list \<Rightarrow> bytes \<Rightarrow> HintJournal \<Rightarrow> HintJournal" where
  "journalAppend xxh rs payload j =
     (if \<not> hj_open j then j
      else case journalWrite xxh rs payload (hj_data j, hj_pos j) of
        (ok, rs, data, pos) \<Rightarrow> j\<lparr>hj_data := data, hj_pos := pos, hj_records := (if ok then hj_records j + 1 else hj_records j)\<rparr>)"

definition appendAdd :: "(bytes \<Rightarrow> u64) \<Rightarrow> WriteRes list \<Rightarrow> Hint \<Rightarrow> u64 \<Rightarrow> HintJournal \<Rightarrow> HintJournal" where
  "appendAdd xxh rs h sys_expiry_ms j = journalAppend xxh rs (encodeAdd h sys_expiry_ms) j"

definition appendDel :: "(bytes \<Rightarrow> u64) \<Rightarrow> WriteRes list \<Rightarrow> NodeId \<Rightarrow> Key \<Rightarrow> u64 \<Rightarrow> HintJournal \<Rightarrow> HintJournal" where
  "appendDel xxh rs target key ver j = journalAppend xxh rs (encodeDel target key ver) j"

definition needsCompaction :: "HintJournal \<Rightarrow> bool" where
  "needsCompaction j \<longleftrightarrow> hj_records j > K_COMPACT_RECORDS"

subsection \<open>Recovery\<close>

definition replayRecord :: "nat \<Rightarrow> Clock \<Rightarrow> ParsedRecord \<Rightarrow> HintQueue \<Rightarrow> HintQueue option" where
  "replayRecord sz ck r q =
     (case r of
        AddRecord h sys_expiry_ms \<Rightarrow> if sys_expiry_ms > nowSystemMs ck then map_option snd (hqPush sz h q) else Some q
      | DelRecord target key ver \<Rightarrow> hqRemoveReq sz target ((emptyRequest OpGet key)\<lparr>rq_version := ver\<rparr>) q)"

text \<open>One length-prefixed, checksummed frame; \<open>None\<close> is a break of the loop with the offset it leaves behind.\<close>

definition readFrame :: "(bytes \<Rightarrow> u64) \<Rightarrow> bytes \<Rightarrow> nat \<Rightarrow> bytes option \<times> nat" where
  "readFrame xxh data pos =
     (case readExactly 4 data pos of
        (None, pos) \<Rightarrow> (None, pos)
      | (Some lb, pos) \<Rightarrow>
          let len = unat (leWord lb :: u32) in
          if int len > int (length data) - int pos - 8 then (None, pos)
          else (case readExactly 8 data pos of
             (None, pos) \<Rightarrow> (None, pos)
           | (Some expected, pos) \<Rightarrow>
               (case readExactly len data pos of
                  (None, pos) \<Rightarrow> (None, pos)
                | (Some payload, pos) \<Rightarrow> if xxh payload \<noteq> leWord expected then (None, pos) else (Some payload, pos))))"

lemma readFrame_progress: "readFrame xxh data pos = (Some p, pos') \<Longrightarrow> pos < pos' \<and> pos' \<le> length data"
  by (auto simp: readFrame_def readExactly_def Let_def split: if_splits)

function journalScan :: "(bytes \<Rightarrow> u64) \<Rightarrow> nat \<Rightarrow> Clock \<Rightarrow> bytes \<Rightarrow> nat \<Rightarrow> nat \<Rightarrow> HintQueue \<Rightarrow> (nat \<times> nat \<times> HintQueue) option" where
  "journalScan xxh sz ck data pos records q =
     (case readFrame xxh data pos of
        (None, pos') \<Rightarrow> Some (pos', records, q)
      | (Some payload, pos') \<Rightarrow>
          (case parseRecord ck payload of
             None \<Rightarrow> Some (pos', records, q)
           | Some r \<Rightarrow>
               (case replayRecord sz ck r q of
                  None \<Rightarrow> None
                | Some q \<Rightarrow> journalScan xxh sz ck data pos' (records + 1) q)))"
  by pat_completeness auto
termination
  by (relation "measure (\<lambda>(xxh, sz, ck, data, pos, records, q). length data - pos)") (auto dest!: readFrame_progress [OF sym])

declare journalScan.simps [simp del]

text \<open>Whether the directory can be made, the file opened and a torn tail truncated.\<close>

record RecoverEnv =
  rv_dir :: bool
  rv_open :: bool
  rv_truncate :: bool

text \<open>The offset is left where \<open>lseek(fd, 0, SEEK_END)\<close> put it.\<close>

definition journalOpen :: "(bytes \<Rightarrow> u64) \<Rightarrow> nat \<Rightarrow> Clock \<Rightarrow> RecoverEnv \<Rightarrow> bytes \<Rightarrow> HintQueue \<Rightarrow> (nat \<times> HintJournal \<times> HintQueue) option" where
  "journalOpen xxh sz ck env file q =
     (if \<not> rv_dir env \<or> \<not> rv_open env then Some (0, closedJournal, q)
      else case journalScan xxh sz ck file 0 0 q of
        None \<Rightarrow> None
      | Some (end_pos, records, q) \<Rightarrow>
          let data = (if length file > end_pos \<and> rv_truncate env then take end_pos file else file)
          in Some (hq_size q, \<lparr>hj_open = True, hj_data = data, hj_pos = length file, hj_records = records\<rparr>, q))"

subsection \<open>Compaction\<close>

datatype Publish = Published | RenamedOnly | NotRenamed

record CompactEnv =
  ce_tmp :: bool
  ce_writes :: "WriteRes list"
  ce_fsync :: bool
  ce_publish :: Publish
  ce_reopen :: bool

definition remainingMs :: "Clock \<Rightarrow> Hint \<Rightarrow> int" where
  "remainingMs ck h = truncMs (ht_expires_at h - ck_now ck)"

fun compactWrite :: "(bytes \<Rightarrow> u64) \<Rightarrow> Clock \<Rightarrow> WriteRes list \<Rightarrow> Hint list \<Rightarrow> bytes \<times> nat \<Rightarrow> nat \<Rightarrow> bool \<times> (bytes \<times> nat) \<times> nat" where
  "compactWrite xxh ck rs [] f kept = (True, f, kept)"
| "compactWrite xxh ck rs (h # hs) f kept =
     (if remainingMs ck h \<le> 0 then compactWrite xxh ck rs hs f kept
      else case journalWrite xxh rs (encodeAdd h (nowSystemMs ck + word_of_int (remainingMs ck h))) f of
        (ok, rs, f) \<Rightarrow> if ok then compactWrite xxh ck rs hs f (kept + 1) else (False, f, kept))"

text \<open>The descriptor is reopened without \<open>O_APPEND\<close>: its offset is 0.\<close>

definition compact :: "(bytes \<Rightarrow> u64) \<Rightarrow> nat \<Rightarrow> Clock \<Rightarrow> CompactEnv \<Rightarrow> HintJournal \<Rightarrow> HintQueue \<Rightarrow> (HintJournal \<times> HintQueue) option" where
  "compact xxh sz ck env j q =
     (if \<not> hj_open j then Some (j, q)
      else case hqSnapshot sz (ck_now ck) K_CAPACITY q of
        None \<Rightarrow> None
      | Some (live, q) \<Rightarrow>
          if \<not> ce_tmp env then Some (j, q)
          else (case compactWrite xxh ck (ce_writes env) (map fst live) ([], 0) 0 of
            (ok, (tmp, _), kept) \<Rightarrow>
              if \<not> (ok \<and> ce_fsync env) then Some (j, q)
              else (case ce_publish env of
                NotRenamed \<Rightarrow> Some (j\<lparr>hj_open := ce_reopen env, hj_pos := 0\<rparr>, q)
              | RenamedOnly \<Rightarrow> Some (j\<lparr>hj_open := ce_reopen env, hj_data := tmp, hj_pos := 0\<rparr>, q)
              | Published \<Rightarrow> Some (j\<lparr>hj_open := ce_reopen env, hj_data := tmp, hj_pos := 0, hj_records := kept\<rparr>, q))))"

section \<open>Writing\<close>

lemma fileWrite_nil: "pos \<le> length data \<Longrightarrow> fileWrite [] (data, pos) = (data, pos)"
  by (simp add: fileWrite_def)

lemma fileWrite_append: "fileWrite bs (fileWrite as f) = fileWrite (as @ bs) f" if "as \<noteq> [] \<or> snd f \<le> length (fst f)"
proof -
  obtain data pos where f: "f = (data, pos)" by fastforce
  show ?thesis using that by (cases "pos \<le> length data") (auto simp: f fileWrite_def add_ac)
qed

lemma writeAllAt_ok:
  "writeAllAt rs d f = (True, rs', f') \<Longrightarrow> d \<noteq> [] \<Longrightarrow> f' = fileWrite d f"
proof (induction rs d f rule: writeAllAt.induct)
  case (5 n rs v va f)
  show ?case
  proof (cases "drop n (v # va) = []")
    case True
    then show ?thesis using "5.prems" by (auto split: if_splits)
  next
    case False
    have n: "n \<noteq> 0" using "5.prems" by (auto split: if_splits)
    then have "f' = fileWrite (drop n (v # va)) (fileWrite (take n (v # va)) f)" using 5 False by simp
    also have "\<dots> = fileWrite (v # va) f" using n by (subst fileWrite_append) (simp_all only: append_take_drop_id, simp add: take_Cons')
    finally show ?thesis .
  qed
qed auto

definition frame :: "(bytes \<Rightarrow> u64) \<Rightarrow> bytes \<Rightarrow> bytes" where
  "frame xxh p = leBytes (word_of_nat (length p) :: u32) @ leBytes (xxh p) @ p"

lemma length_frame [simp]: "length (frame xxh p) = 12 + length p"
  by (simp add: frame_def)

lemma journalWrite_ok:
  assumes "journalWrite xxh rs p f = (True, rs', f')" "p \<noteq> []"
  shows "f' = fileWrite (frame xxh p) f"
proof -
  obtain r1 f1 r2 f2 where w: "writeAllAt rs (leBytes (word_of_nat (length p) :: u32)) f = (True, r1, f1)"
    "writeAllAt r1 (leBytes (xxh p)) f1 = (True, r2, f2)" "writeAllAt r2 p f2 = (True, rs', f')"
    using assms(1) by (auto simp: journalWrite_def split: prod.splits bool.splits)
  have ne: "leBytes (word_of_nat (length p) :: u32) \<noteq> []" "leBytes (xxh p) \<noteq> []"
    by (metis length_fields list.size(3) zero_neq_numeral)+
  show ?thesis
    using writeAllAt_ok [OF w(1) ne(1)] writeAllAt_ok [OF w(2) ne(2)] writeAllAt_ok [OF w(3) assms(2)] ne
    by (simp add: fileWrite_append frame_def)
qed

section \<open>Reading back\<close>

definition addBody :: "Hint \<Rightarrow> u64 \<Rightarrow> bytes" where
  "addBody h exp = leBytes K_OP_ADD @ leBytes exp @ leBytes (word_of_nat (length (ht_target h)) :: u32) @ ht_target h
     @ leBytes (word_of_nat (length (rq_key (ht_req h))) :: u32) @ rq_key (ht_req h)
     @ leBytes (word_of_nat (length (rq_value (ht_req h))) :: u32) @ rq_value (ht_req h)
     @ leBytes (rq_version (ht_req h)) @ leBytes (rq_writer (ht_req h)) @ leBytes (entryExpiryMs (ht_req h)) @ leBytes (boolByte (rq_tombstone (ht_req h)))"

definition delBody :: "NodeId \<Rightarrow> Key \<Rightarrow> u64 \<Rightarrow> bytes" where
  "delBody target key ver = leBytes K_OP_DEL @ leBytes (word_of_nat (length target) :: u32) @ target
     @ leBytes (word_of_nat (length key) :: u32) @ key @ leBytes ver"

lemma encodeAdd_eq: "encodeAdd h exp = addBody h exp"
proof -
  define w where "w = ByteWriter (length (ht_target h) + length (rq_key (ht_req h)) + length (rq_value (ht_req h)) + 64 + 8 + 1)"
  have f: "fits n w" if "n \<le> length (ht_target h) + length (rq_key (ht_req h)) + length (rq_value (ht_req h)) + 73" for n
    using that by (simp add: fits_def ByteWriter_def w_def)
  have "encodeAdd h exp = written (writeBytes (addBody h exp) w)"
    unfolding encodeAdd_def Let_def writer_defs addBody_def w_def [symmetric] by (simp add: writeBytes_append f)
  also have "\<dots> = written w @ addBody h exp" by (intro writeBytes_written(1) f) (simp add: addBody_def)
  finally show ?thesis by (simp add: w_def written_def ByteWriter_def)
qed

lemma encodeDel_eq: "encodeDel target key ver = delBody target key ver"
proof -
  define w where "w = ByteWriter (length target + length key + 32)"
  have f: "fits n w" if "n \<le> length target + length key + 32" for n using that by (simp add: fits_def ByteWriter_def w_def)
  have "encodeDel target key ver = written (writeBytes (delBody target key ver) w)"
    unfolding encodeDel_def Let_def writer_defs delBody_def w_def [symmetric] by (simp add: writeBytes_append f)
  also have "\<dots> = written w @ delBody target key ver" by (intro writeBytes_written(1) f) (simp add: delBody_def)
  finally show ?thesis by (simp add: w_def written_def ByteWriter_def)
qed

text \<open>A parser that reads the whole of its input.\<close>

definition reads_all :: "(Reader \<Rightarrow> 'b option \<times> bool \<times> Reader) \<Rightarrow> 'b \<Rightarrow> bytes \<Rightarrow> bool" where
  "reads_all k b bs \<longleftrightarrow> (\<forall>r. rd_ok r \<longrightarrow> rest r = bs \<longrightarrow> fst (k r) = Some b)"

lemma reads_all_bindO:
  assumes "field_ok m a bs" "reads_all (k a) b bs'"
  shows "reads_all (\<lambda>r. bindO (m r) k) b (bs @ bs')"
  unfolding reads_all_def
proof (intro allI impI)
  fix r assume r: "rd_ok r" "rest r = bs @ bs'"
  then have "m r = (Some a, adv (length bs) r)" using assms(1) by (simp add: field_ok_def)
  moreover have "rd_ok (adv (length bs) r)" "rest (adv (length bs) r) = bs'" using r by (simp_all add: rd_ok_adv)
  ultimately show "fst (bindO (m r) k) = Some b" using assms(2) by (simp add: reads_all_def bindO_def)
qed

definition wireHint :: "Hint \<Rightarrow> bool" where
  "wireHint h \<longleftrightarrow> length (ht_target h) < 2 ^ 32 \<and> length (rq_key (ht_req h)) < 2 ^ 32 \<and> length (rq_value (ht_req h)) < 2 ^ 32"

text \<open>What a recovered hint keeps: the trace, the relative lifetime and the opcode are reset, the entry's expiry is cut to milliseconds, and the hint gets a fresh 30 seconds.\<close>

definition recoveredHint :: "Clock \<Rightarrow> Hint \<Rightarrow> Hint" where
  "recoveredHint ck h = \<lparr>ht_target = ht_target h,
     ht_req = (emptyRequest OpReplicate (rq_key (ht_req h)))\<lparr>rq_value := rq_value (ht_req h), rq_version := rq_version (ht_req h),
       rq_writer := rq_writer (ht_req h),
       rq_expires_at := (if entryExpiryMs (ht_req h) \<noteq> 0 then Some (sint (entryExpiryMs (ht_req h)) * 1000000) else None),
       rq_tombstone := rq_tombstone (ht_req h)\<rparr>,
     ht_expires_at = ck_now ck + 30000 * 1000000\<rparr>"

lemma reads_all_trailer:
  assumes "\<And>r. fst (k (if e \<noteq> 0 then Some (sint e * 1000000) else None) b r) = Some x"
  shows "reads_all (optTrailer k) x (leBytes (e :: u64) @ leBytes (boolByte b))"
  unfolding reads_all_def
proof (intro allI impI)
  fix r assume r: "rd_ok r" "rest r = leBytes e @ leBytes (boolByte b)"
  have 1: "buf_u64 r = (Some e, adv 8 r)" using field_ok_le(3) [of e] r by (simp add: field_ok_def)
  have r1: "rd_ok (adv 8 r)" "rest (adv 8 r) = leBytes (boolByte b) @ []" using r by (simp_all add: rd_ok_adv)
  have 2: "buf_u8 (adv 8 r) = (Some (boolByte b), adv 1 (adv 8 r))" using field_ok_le(1) [of "boolByte b"] r1 by (simp add: field_ok_def)
  have "rest (adv 1 (adv 8 r)) = []" using r by simp
  moreover have "\<not> boolByte b > 1" "(boolByte b \<noteq> 0) = b" by (simp_all add: boolByte_def)
  moreover have "remaining r \<noteq> 0" using r(2) by simp
  ultimately show "fst (optTrailer k r) = Some x" using assms 1 2 by (simp add: optTrailer_def bindO_def)
qed

lemma parse_start:
  assumes "reads_all (\<lambda>r. if op = K_OP_ADD then parseAdd ck r else if op = K_OP_DEL then parseDel r else (None, True, r)) b bs"
  shows "parseRecord ck (leBytes op @ bs) = Some b"
proof -
  let ?k = "\<lambda>op r. if op = K_OP_ADD then parseAdd ck r else if op = K_OP_DEL then parseDel r else (None, True, r)"
  have "reads_all (\<lambda>r. bindO (buf_u8 r) ?k) b (leBytes op @ bs)" using reads_all_bindO [OF field_ok_le(1), of ?k op b bs] assms by simp
  moreover have "rd_ok (BufferReader (leBytes op @ bs))" "rest (BufferReader (leBytes op @ bs)) = leBytes op @ bs"
    by (simp_all add: rd_ok_def BufferReader_def rest_def)
  moreover have "leBytes op @ bs \<noteq> []" using length_fields(4) [of op] by (auto simp del: length_fields)
  ultimately show ?thesis unfolding parseRecord_def reads_all_def by simp
qed

lemma unat_len32: "length s < 2 ^ 32 \<Longrightarrow> unat (word_of_nat (length s) :: u32) = length s"
  by (simp add: unat_of_nat)

lemma parse_add:
  assumes "wireHint h"
  shows "parseRecord ck (encodeAdd h exp) = Some (AddRecord (recoveredHint ck h) exp)"
proof -
  have n: "unat (word_of_nat (length (ht_target h)) :: u32) = length (ht_target h)"
    "unat (word_of_nat (length (rq_key (ht_req h))) :: u32) = length (rq_key (ht_req h))"
    "unat (word_of_nat (length (rq_value (ht_req h))) :: u32) = length (rq_value (ht_req h))"
    using assms by (simp_all add: wireHint_def unat_len32)
  have add: "(\<lambda>r. if K_OP_ADD = K_OP_ADD then parseAdd ck r else if K_OP_ADD = K_OP_DEL then parseDel r else (None, True, r)) = parseAdd ck"
    by simp
  show ?thesis
    unfolding encodeAdd_eq addBody_def
    apply (rule parse_start)
    apply (unfold add, unfold parseAdd_def)
    apply (rule reads_all_bindO, rule codec_simps)
    apply (rule reads_all_bindO, rule codec_simps)
    apply (rule reads_all_bindO, rule field_ok_string, simp only: n)
    apply (rule reads_all_bindO, rule codec_simps)
    apply (rule reads_all_bindO, rule field_ok_string, simp only: n)
    apply (rule reads_all_bindO, rule codec_simps)
    apply (rule reads_all_bindO, rule field_ok_string, simp only: n)
    apply (rule reads_all_bindO, rule codec_simps)+
    apply (rule reads_all_trailer)
    apply (simp add: recoveredHint_def)
    done
qed

lemma parse_del:
  assumes "length target < 2 ^ 32" "length key < 2 ^ 32"
  shows "parseRecord ck (encodeDel target key ver) = Some (DelRecord target key ver)"
proof -
  have n: "unat (word_of_nat (length target) :: u32) = length target" "unat (word_of_nat (length key) :: u32) = length key"
    using assms by (simp_all add: unat_len32)
  have del: "(\<lambda>r. if K_OP_DEL = K_OP_ADD then parseAdd ck r else if K_OP_DEL = K_OP_DEL then parseDel r else (None, True, r)) = parseDel"
    by (simp add: K_OP_DEL_def K_OP_ADD_def)
  have v: "leBytes ver = leBytes ver @ []" by simp
  show ?thesis
    unfolding encodeDel_eq delBody_def
    apply (rule parse_start)
    apply (unfold del, unfold parseDel_def)
    apply (rule reads_all_bindO, rule codec_simps)
    apply (rule reads_all_bindO, rule field_ok_string, simp only: n)
    apply (rule reads_all_bindO, rule codec_simps)
    apply (rule reads_all_bindO, rule field_ok_string, simp only: n)
    apply (subst v, rule reads_all_bindO, rule codec_simps)
    apply (simp add: reads_all_def)
    done
qed

text \<open>The frames of a journal: whole ones are returned, a torn one ends the scan.\<close>

lemma readFrame_whole:
  assumes "drop pos data = frame xxh p @ xs" "length p < 2 ^ 32" "pos \<le> length data"
  shows "readFrame xxh data pos = (Some p, pos + length (frame xxh p))"
proof -
  have len: "length data = pos + 12 + length p + length xs" using arg_cong [OF assms(1), of length] assms(3) by simp
  have d: "drop (pos + 4) data = leBytes (xxh p) @ p @ xs" "drop (12 + pos) data = p @ xs"
    using arg_cong [OF assms(1), of "drop 4"] arg_cong [OF assms(1), of "drop 12"] by (simp_all add: frame_def add.commute)
  show ?thesis using len assms d by (simp add: readFrame_def readExactly_def Let_def frame_def unat_len32 le32.dec_enc le64.dec_enc)
qed

lemma readFrame_short:
  assumes "drop pos data = xs" "pos \<le> length data" "length xs < 4"
  shows "readFrame xxh data pos = (None, length data)"
proof -
  have "length data < pos + 4" using arg_cong [OF assms(1), of length] assms(2,3) by simp
  then show ?thesis using assms(2) by (simp add: readFrame_def readExactly_def)
qed

lemma readFrame_cut:
  assumes "drop pos data = leBytes (word_of_nat n :: u32) @ xs" "pos \<le> length data" "n < 2 ^ 32" "length xs < n + 8"
  shows "readFrame xxh data pos = (None, pos + 4)"
proof -
  have "length data = pos + 4 + length xs" using arg_cong [OF assms(1), of length] assms(2) by simp
  then show ?thesis using assms by (simp add: readFrame_def readExactly_def Let_def unat_of_nat le32.dec_enc)
qed

section \<open>Recovery replays the journal\<close>

text \<open>What was journalled, and the calls on the queue that its recovery makes.\<close>

datatype JournalOp = AddOp Hint u64 | DelOp NodeId Key u64

fun encodeOp :: "JournalOp \<Rightarrow> bytes" where
  "encodeOp (AddOp h exp) = encodeAdd h exp"
| "encodeOp (DelOp target key ver) = encodeDel target key ver"

fun wireOp :: "JournalOp \<Rightarrow> bool" where
  "wireOp (AddOp h exp) \<longleftrightarrow> wireHint h \<and> length (encodeAdd h exp) < 2 ^ 32"
| "wireOp (DelOp target key ver) \<longleftrightarrow> length (encodeDel target key ver) < 2 ^ 32"

fun opCalls :: "Clock \<Rightarrow> JournalOp \<Rightarrow> HintCall list" where
  "opCalls ck (AddOp h exp) = (if exp > nowSystemMs ck then [Push (recoveredHint ck h)] else [])"
| "opCalls ck (DelOp target key ver) = [RemoveReq target ((emptyRequest OpGet key)\<lparr>rq_version := ver\<rparr>)]"

definition journalOf :: "(bytes \<Rightarrow> u64) \<Rightarrow> JournalOp list \<Rightarrow> bytes" where
  "journalOf xxh ops = concat (map (frame xxh \<circ> encodeOp) ops)"

lemma journalOf_simps [simp]: "journalOf xxh [] = []" "journalOf xxh (op # ops) = frame xxh (encodeOp op) @ journalOf xxh ops"
  by (simp_all add: journalOf_def)

lemma replay_op:
  assumes "wireOp op"
  obtains r where "parseRecord ck (encodeOp op) = Some r" "replayRecord sz ck r q = map_option snd (hqRun sz (opCalls ck op) q)"
proof (cases op)
  case (AddOp h exp)
  then have "parseRecord ck (encodeOp op) = Some (AddRecord (recoveredHint ck h) exp)" using assms parse_add by simp
  moreover have "replayRecord sz ck (AddRecord (recoveredHint ck h) exp) q = map_option snd (hqRun sz (opCalls ck op) q)"
    by (cases "hqPush sz (recoveredHint ck h) q") (auto simp: AddOp replayRecord_def map_prod_def split: prod.splits)
  ultimately show ?thesis by (rule that)
next
  case (DelOp target key ver)
  have "length target < 2 ^ 32" "length key < 2 ^ 32" using assms DelOp by (auto simp: encodeDel_eq delBody_def)
  then have "parseRecord ck (encodeOp op) = Some (DelRecord target key ver)" using DelOp parse_del by simp
  moreover have "replayRecord sz ck (DelRecord target key ver) q = map_option snd (hqRun sz (opCalls ck op) q)"
    by (cases "hqRemoveReq sz target ((emptyRequest OpGet key)\<lparr>rq_version := ver\<rparr>) q") (auto simp: DelOp replayRecord_def)
  ultimately show ?thesis by (rule that)
qed

lemma hqRun_append:
  "hqRun sz (cs @ ds) q = Option.bind (hqRun sz cs q) (\<lambda>(rs, q). Option.bind (hqRun sz ds q) (\<lambda>(rs', q). Some (rs @ rs', q)))"
  by (induction cs arbitrary: q) (auto split: bind_splits prod.splits)

lemma journalScan_ops:
  assumes "drop pos data = journalOf xxh ops @ xs" "pos \<le> length data" "list_all wireOp ops"
    and "hqRun sz (concat (map (opCalls ck) ops)) q = Some (rets, q')"
  shows "journalScan xxh sz ck data pos n q = journalScan xxh sz ck data (pos + length (journalOf xxh ops)) (n + length ops) q'"
  using assms
proof (induction ops arbitrary: pos n q rets)
  case (Cons op ops)
  obtain r where r: "parseRecord ck (encodeOp op) = Some r" "replayRecord sz ck r q = map_option snd (hqRun sz (opCalls ck op) q)"
    using replay_op [of op ck sz q] Cons.prems(3) by auto
  obtain rs1 q1 rs2 where q1: "hqRun sz (opCalls ck op) q = Some (rs1, q1)" "hqRun sz (concat (map (opCalls ck) ops)) q1 = Some (rs2, q')"
    using Cons.prems(4) by (auto simp: hqRun_append split: bind_splits)
  have d: "drop pos data = frame xxh (encodeOp op) @ journalOf xxh ops @ xs" using Cons.prems(1) by simp
  have "length (encodeOp op) < 2 ^ 32" using Cons.prems(3) by (cases op) auto
  from readFrame_whole [OF d this Cons.prems(2)]
  have step: "journalScan xxh sz ck data pos n q = journalScan xxh sz ck data (pos + length (frame xxh (encodeOp op))) (n + 1) q1"
    using r q1(1) by (subst journalScan.simps) simp
  have "drop (pos + length (frame xxh (encodeOp op))) data = journalOf xxh ops @ xs"
    using arg_cong [OF d, of "drop (length (frame xxh (encodeOp op)))"] by (simp add: add.commute)
  moreover have "pos + length (frame xxh (encodeOp op)) \<le> length data" using arg_cong [OF d, of length] Cons.prems(2) by simp
  ultimately show ?case using Cons.IH [of "pos + length (frame xxh (encodeOp op))" q1 rs2 "n + 1"] Cons.prems(3) q1(2)
    unfolding step by (simp add: add.assoc)
qed simp

definition systemOk :: RecoverEnv where
  "systemOk = \<lparr>rv_dir = True, rv_open = True, rv_truncate = True\<rparr>"

text \<open>Where the scan stops at the end of whole records: at the end of the file, or past the length of a torn record.\<close>

definition tornAt :: "bytes \<Rightarrow> nat \<Rightarrow> bool" where
  "tornAt torn len \<longleftrightarrow> torn = [] \<or> (length torn < 4) \<or> (\<exists>xs. torn = leBytes (word_of_nat len :: u32) @ xs \<and> len < 2 ^ 32 \<and> length xs < len + 8)"

lemma torn_frame: "strict_prefix torn (frame xxh p) \<Longrightarrow> length p < 2 ^ 32 \<Longrightarrow> tornAt torn (length p)"
  unfolding frame_def tornAt_def
  by (erule strict_prefix_append_cases) (auto dest!: prefix_length_less)

lemma scan_torn:
  assumes "drop pos data = torn" "pos \<le> length data" "tornAt torn len"
  shows "journalScan xxh sz ck data pos n q = Some (pos + min 4 (length torn), n, q)"
proof (cases "length torn < 4")
  case True
  then have "readFrame xxh data pos = (None, length data)" using readFrame_short [OF assms(1,2)] by blast
  moreover have "length data = pos + min 4 (length torn)" using arg_cong [OF assms(1), of length] assms(2) True by simp
  ultimately show ?thesis by (simp add: journalScan.simps)
next
  case False
  then obtain xs where xs: "torn = leBytes (word_of_nat len :: u32) @ xs" "len < 2 ^ 32" "length xs < len + 8"
    using assms(3) by (auto simp: tornAt_def)
  then have "readFrame xxh data pos = (None, pos + 4)" using readFrame_cut [OF _ assms(2) xs(2,3)] assms(1) by simp
  then show ?thesis using False by (simp add: journalScan.simps)
qed

lemma open_journal:
  assumes "list_all wireOp ops" "tornAt torn len"
  obtains rets q where "hqRun sz (concat (map (opCalls ck) ops)) newHintQueue = Some (rets, q)"
    "journalOpen xxh sz ck systemOk (journalOf xxh ops @ torn) newHintQueue
       = Some (hq_size q, \<lparr>hj_open = True, hj_data = journalOf xxh ops @ take 4 torn,
           hj_pos = length (journalOf xxh ops @ torn), hj_records = length ops\<rparr>, q)"
proof -
  obtain rets q where r: "hqRun sz (concat (map (opCalls ck) ops)) newHintQueue = Some (rets, q)"
    by (rule reachable_rep [of sz "concat (map (opCalls ck) ops)"])
  let ?f = "journalOf xxh ops @ torn"
  have "journalScan xxh sz ck ?f 0 0 newHintQueue = journalScan xxh sz ck ?f (length (journalOf xxh ops)) (length ops) q"
    using journalScan_ops [of 0 ?f xxh ops torn sz ck newHintQueue rets q 0] assms(1) r by simp
  also have "\<dots> = Some (length (journalOf xxh ops) + min 4 (length torn), length ops, q)"
    by (rule scan_torn [OF _ _ assms(2)]) simp_all
  finally show ?thesis using r by (intro that [of rets q]) (auto simp: journalOpen_def systemOk_def Let_def)
qed

text \<open>Appending at the end of the file adds one record; a prefix of a journal is whole records and a torn one.\<close>

lemma encodeOp_ne: "encodeOp op \<noteq> []"
proof (cases op)
  case (AddOp h exp)
  then have "0 < length (encodeOp op)" by (simp add: encodeAdd_eq addBody_def)
  then show ?thesis by blast
next
  case (DelOp target key ver)
  then have "0 < length (encodeOp op)" by (simp add: encodeDel_eq delBody_def)
  then show ?thesis by blast
qed

lemma append_ok:
  assumes "hj_open j" "hj_records (journalAppend xxh rs (encodeOp op) j) = hj_records j + 1"
  shows "journalAppend xxh rs (encodeOp op) j = j\<lparr>hj_data := fst (fileWrite (frame xxh (encodeOp op)) (hj_data j, hj_pos j)),
    hj_pos := snd (fileWrite (frame xxh (encodeOp op)) (hj_data j, hj_pos j)), hj_records := hj_records j + 1\<rparr>"
proof -
  obtain ok rs' f' where w: "journalWrite xxh rs (encodeOp op) (hj_data j, hj_pos j) = (ok, rs', f')" using prod_cases3 by blast
  then have "ok" using assms by (cases ok; cases f') (auto simp: journalAppend_def)
  then show ?thesis using w assms(1) journalWrite_ok [OF _ encodeOp_ne, of xxh rs op] by (cases f') (auto simp: journalAppend_def)
qed

fun appendOps :: "(bytes \<Rightarrow> u64) \<Rightarrow> (WriteRes list \<times> JournalOp) list \<Rightarrow> HintJournal \<Rightarrow> HintJournal" where
  "appendOps xxh [] j = j"
| "appendOps xxh ((rs, op) # xs) j = appendOps xxh xs (journalAppend xxh rs (encodeOp op) j)"

lemma append_records: "hj_records (journalAppend xxh rs p j) \<le> hj_records j + 1" "hj_open (journalAppend xxh rs p j) = hj_open j"
  by (auto simp: journalAppend_def split: prod.splits)

lemma appendOps_records: "hj_records (appendOps xxh xs j) \<le> hj_records j + length xs"
proof (induction xs arbitrary: j)
  case (Cons x xs)
  obtain rs op where x: "x = (rs, op)" by fastforce
  show ?case using Cons.IH [of "journalAppend xxh rs (encodeOp op) j"] append_records(1) [of xxh rs "encodeOp op" j] by (simp add: x)
qed simp

lemma appendOps_data:
  assumes "hj_open j" "hj_pos j = length (hj_data j)" "hj_records (appendOps xxh xs j) = hj_records j + length xs"
  shows "hj_data (appendOps xxh xs j) = hj_data j @ journalOf xxh (map snd xs)"
  using assms
proof (induction xs arbitrary: j)
  case (Cons x xs)
  obtain rs op where x: "x = (rs, op)" by fastforce
  let ?j = "journalAppend xxh rs (encodeOp op) j"
  have n: "hj_records ?j = hj_records j + 1" "hj_records (appendOps xxh xs ?j) = hj_records ?j + length xs"
    using Cons.prems(3) append_records(1) [of xxh rs "encodeOp op" j] appendOps_records [of xxh xs ?j] by (auto simp: x)
  have d: "hj_data ?j = hj_data j @ frame xxh (encodeOp op)" "hj_pos ?j = length (hj_data ?j)"
    using append_ok [OF Cons.prems(1) n(1)] Cons.prems(2) by (simp_all add: fileWrite_def)
  show ?case using Cons.IH [of ?j] append_records(2) Cons.prems(1) n(2) d by (simp add: x)
qed simp

lemma prefix_journal:
  "prefix f (journalOf xxh ops) \<Longrightarrow>
   \<exists>k torn. k \<le> length ops \<and> f = journalOf xxh (take k ops) @ torn \<and> (torn = [] \<or> (\<exists>op \<in> set ops. strict_prefix torn (frame xxh (encodeOp op))))"
proof (induction ops arbitrary: f)
  case (Cons op ops)
  show ?case
  proof (cases "strict_prefix f (frame xxh (encodeOp op))")
    case True
    then show ?thesis by (intro exI [of _ 0] exI [of _ f]) auto
  next
    case False
    with Cons.prems obtain g where g: "f = frame xxh (encodeOp op) @ g" "prefix g (journalOf xxh ops)"
      by (auto simp: prefix_append strict_prefix_def)
    from Cons.IH [OF g(2)] obtain k torn where "k \<le> length ops" "g = journalOf xxh (take k ops) @ torn"
      "torn = [] \<or> (\<exists>op \<in> set ops. strict_prefix torn (frame xxh (encodeOp op)))" by blast
    with g(1) show ?thesis by (intro exI [of _ "Suc k"] exI [of _ torn]) auto
  qed
qed simp

lemma wireOp_length: "wireOp op \<Longrightarrow> length (encodeOp op) < 2 ^ 32"
  by (cases op) auto

section \<open>Compaction loses the offset\<close>

definition compactOp :: "Clock \<Rightarrow> Hint \<Rightarrow> JournalOp" where
  "compactOp ck h = AddOp h (nowSystemMs ck + word_of_int (remainingMs ck h))"

lemma compactWrite_data:
  assumes "fst (compactWrite xxh ck rs hs f kept)" "\<forall>h \<in> set hs. remainingMs ck h > 0" "snd f = length (fst f)"
  shows "compactWrite xxh ck rs hs f kept = (True, (fst f @ journalOf xxh (map (compactOp ck) hs), length (fst f @ journalOf xxh (map (compactOp ck) hs))), kept + length hs)"
  using assms
proof (induction xxh ck rs hs f kept rule: compactWrite.induct)
  case (1 xxh ck rs f kept)
  then show ?case by (cases f) simp
next
  case (2 xxh ck rs h hs f kept)
  let ?p = "encodeOp (compactOp ck h)"
  obtain ok rs' f' where w: "journalWrite xxh rs ?p f = (ok, rs', f')" using prod_cases3 by blast
  have pos: "\<not> remainingMs ck h \<le> 0" using "2.prems"(2) by simp
  have p: "encodeAdd h (nowSystemMs ck + word_of_int (remainingMs ck h)) = ?p" by (simp add: compactOp_def)
  have ok: "ok" using "2.prems"(1) w pos p by (cases ok) auto
  then have f': "f' = fileWrite (frame xxh ?p) f" using journalWrite_ok [OF _ encodeOp_ne, of xxh rs "compactOp ck h" f rs' f'] w by simp
  then have e: "fst f' = fst f @ frame xxh ?p" "snd f' = length (fst f')" using "2.prems"(3) by (cases f; simp add: fileWrite_def)+
  have "compactWrite xxh ck rs (h # hs) f kept = compactWrite xxh ck rs' hs f' (kept + 1)" using w ok pos p by simp
  moreover have "compactWrite xxh ck rs' hs f' (kept + 1) = (True, (fst f' @ journalOf xxh (map (compactOp ck) hs),
      length (fst f' @ journalOf xxh (map (compactOp ck) hs))), kept + 1 + length hs)"
    using "2.prems" w ok pos p e(2) by (intro "2.IH"(2) [OF pos _ refl]) auto
  ultimately show ?case using e(1) by simp
qed

lemma compaction_then_append_overwrites:
  assumes j: "hj_open j" and env: "ce_tmp env" "ce_fsync env" "ce_reopen env" "ce_publish env = Published"
    and snap: "hqSnapshot sz (ck_now ck) K_CAPACITY q = Some (live, q1)" "map fst live = h # hs" "\<forall>h \<in> set (h # hs). remainingMs ck h > 0"
    and wr: "fst (compactWrite xxh ck (ce_writes env) (h # hs) ([], 0) 0)"
    and same: "length (encodeOp op) = length (encodeOp (compactOp ck h))"
  shows "\<exists>j1. compact xxh sz ck env j q = Some (j1, q1) \<and> hj_data j1 = journalOf xxh (map (compactOp ck) (h # hs))
    \<and> (hj_records (journalAppend xxh rs (encodeOp op) j1) = hj_records j1 + 1
         \<longrightarrow> hj_data (journalAppend xxh rs (encodeOp op) j1) = journalOf xxh (op # map (compactOp ck) hs))"
proof -
  let ?d = "journalOf xxh (map (compactOp ck) (h # hs))"
  let ?j = "j\<lparr>hj_open := True, hj_data := ?d, hj_pos := 0, hj_records := length (h # hs)\<rparr>"
  have "compactWrite xxh ck (ce_writes env) (map fst live) ([], 0) 0 = (True, (?d, length ?d), length (h # hs))"
    unfolding snap(2) using compactWrite_data [OF wr snap(3)] by simp
  then have "compact xxh sz ck env j q = Some (?j, q1)" using j env snap(1) by (simp add: compact_def)
  moreover have "hj_data (journalAppend xxh rs (encodeOp op) ?j) = journalOf xxh (op # map (compactOp ck) hs)"
    if "hj_records (journalAppend xxh rs (encodeOp op) ?j) = hj_records ?j + 1"
    using append_ok [OF _ that] same by (simp add: fileWrite_def)
  ultimately show ?thesis by (intro exI [of _ ?j]) auto
qed

section \<open>Properties\<close>


definition demoOp :: "nat \<Rightarrow> JournalOp" where
  "demoOp v = AddOp (demoHint v) 1000"

definition demoClock :: Clock where
  "demoClock = \<lparr>ck_now = 0, ck_system = 0\<rparr>"

lemma demoOp_wire: "wireOp (demoOp v)"
  by (simp add: demoOp_def demoHint_def wireHint_def encodeAdd_eq addBody_def)

lemma writeAllAt_whole: "d \<noteq> [] \<Longrightarrow> writeAllAt (Wrote (length d) # rs) d f = (True, rs, fileWrite d f)"
  by (cases d) (auto simp: neq_Nil_conv)

definition wholeWrites :: "bytes \<Rightarrow> WriteRes list" where
  "wholeWrites p = [Wrote 4, Wrote 8, Wrote (length p)]"

lemma journalWrite_whole: "p \<noteq> [] \<Longrightarrow> journalWrite xxh (wholeWrites p) p f = (True, [], fileWrite (frame xxh p) f)"
proof -
  assume p: "p \<noteq> []"
  have ne: "leBytes (word_of_nat (length p) :: u32) \<noteq> []" "leBytes (xxh p) \<noteq> []"
    by (metis length_fields list.size(3) zero_neq_numeral)+
  have "writeAllAt (wholeWrites p) (leBytes (word_of_nat (length p) :: u32)) f = (True, [Wrote 8, Wrote (length p)], fileWrite (leBytes (word_of_nat (length p) :: u32)) f)"
    using writeAllAt_whole [OF ne(1)] by (simp add: wholeWrites_def)
  moreover have "writeAllAt [Wrote 8, Wrote (length p)] (leBytes (xxh p)) g = (True, [Wrote (length p)], fileWrite (leBytes (xxh p)) g)" for g
    using writeAllAt_whole [OF ne(2)] by simp
  ultimately show ?thesis using writeAllAt_whole [OF p] ne p by (simp add: journalWrite_def fileWrite_append frame_def)
qed


text \<open>
  C40. The truncation of a torn tail does not heal the journal. The scan has already moved past the length prefix
  of the torn record, so the cut leaves those four bytes in place, and the descriptor's offset stays at the old
  end of the file. A record that is appended afterwards, successfully, is lost at the next recovery, which sees
  the records before the tear only (here for a torn record longer than what was appended).
\<close>

theorem torn_tail_not_healed:
  assumes "list_all wireOp ops" "strict_prefix torn (frame xxh p)" "length p < 2 ^ 32" "4 \<le> length torn"
    and "journalOpen xxh sz ck systemOk (journalOf xxh ops @ torn) newHintQueue = Some (n, j, q)"
    and "hj_records (journalAppend xxh rs (encodeOp op) j) = hj_records j + 1" "length (encodeOp op) + length torn < length p"
  shows "\<exists>rets q' j'. hqRun sz (concat (map (opCalls ck') ops)) newHintQueue = Some (rets, q')
    \<and> journalOpen xxh sz ck' systemOk (hj_data (journalAppend xxh rs (encodeOp op) j)) newHintQueue = Some (hq_size q', j', q') \<and> hj_records j' = length ops"
proof -
  have t: "tornAt torn (length p)" by (rule torn_frame [OF assms(2,3)])
  then obtain xs where xs: "torn = leBytes (word_of_nat (length p) :: u32) @ xs" using assms(4) by (auto simp: tornAt_def)
  have "j = \<lparr>hj_open = True, hj_data = journalOf xxh ops @ take 4 torn, hj_pos = length (journalOf xxh ops @ torn), hj_records = length ops\<rparr>"
    by (rule open_journal [OF assms(1) t, of sz ck xxh]) (use assms(5) in simp)
  then have data: "hj_data (journalAppend xxh rs (encodeOp op) j)
      = journalOf xxh ops @ leBytes (word_of_nat (length p) :: u32) @ replicate (length xs) (CHR 0x00) @ frame xxh (encodeOp op)"
    using append_ok [OF _ assms(6)] by (simp add: fileWrite_def xs)
  have "tornAt (leBytes (word_of_nat (length p) :: u32) @ replicate (length xs) (CHR 0x00) @ frame xxh (encodeOp op)) (length p)"
    using assms(3,7) xs by (auto simp: tornAt_def)
  then obtain rets q' where "hqRun sz (concat (map (opCalls ck') ops)) newHintQueue = Some (rets, q')"
    "\<exists>j'. journalOpen xxh sz ck' systemOk (hj_data (journalAppend xxh rs (encodeOp op) j)) newHintQueue = Some (hq_size q', j', q') \<and> hj_records j' = length ops"
    unfolding data by (rule open_journal [OF assms(1), where sz = sz and ck = ck' and xxh = xxh]) auto
  then show ?thesis by blast
qed

theorem torn_tail_not_healed_witness:
  "\<exists>q n j rets q' j'. journalOpen (\<lambda>_. 0) 0 demoClock systemOk (take 4 (frame (\<lambda>_. 0) (replicate 100 (CHR ''x'')))) newHintQueue = Some (n, j, q)
    \<and> hj_records (journalAppend (\<lambda>_. 0) (wholeWrites (encodeOp (demoOp 3))) (encodeOp (demoOp 3)) j) = 1
    \<and> journalOpen (\<lambda>_. 0) 0 demoClock systemOk (hj_data (journalAppend (\<lambda>_. 0) (wholeWrites (encodeOp (demoOp 3))) (encodeOp (demoOp 3)) j)) newHintQueue
        = Some (hq_size q', j', q') \<and> hj_records j' = 0"
proof -
  let ?p = "replicate 100 (CHR ''x'')" and ?torn = "take 4 (frame (\<lambda>_. 0) (replicate 100 (CHR ''x'')))"
  have "length ?torn < length (frame (\<lambda>_. 0) ?p)" by simp
  then have pre: "strict_prefix ?torn (frame (\<lambda>_. 0) ?p)" using take_is_prefix [of 4 "frame (\<lambda>_. 0) ?p"] by (metis less_irrefl strict_prefix_def)
  then have t: "tornAt ?torn (length ?p)" by (intro torn_frame) simp_all
  obtain q where o: "journalOpen (\<lambda>_. 0) 0 demoClock systemOk (journalOf (\<lambda>_. 0) [] @ ?torn) newHintQueue
     = Some (hq_size q, \<lparr>hj_open = True, hj_data = journalOf (\<lambda>_. 0) [] @ take 4 ?torn, hj_pos = length (journalOf (\<lambda>_. 0) [] @ ?torn), hj_records = 0\<rparr>, q)"
    by (rule open_journal [OF _ t, of "[]" 0 demoClock "\<lambda>_. 0"]) auto
  let ?j = "\<lparr>hj_open = True, hj_data = journalOf (\<lambda>_. 0) [] @ take 4 ?torn, hj_pos = length (journalOf (\<lambda>_. 0) [] @ ?torn), hj_records = 0\<rparr>"
  have r: "hj_records (journalAppend (\<lambda>_. 0) (wholeWrites (encodeOp (demoOp 3))) (encodeOp (demoOp 3)) ?j) = hj_records ?j + 1"
    using journalWrite_whole [OF encodeOp_ne, of "\<lambda>_. 0" "demoOp 3" "(hj_data ?j, hj_pos ?j)"]
    by (cases "fileWrite (frame (\<lambda>_. 0) (encodeOp (demoOp 3))) (hj_data ?j, hj_pos ?j)") (simp add: journalAppend_def)
  have len: "length (encodeOp (demoOp 3)) + length ?torn < length ?p" by (simp add: demoOp_def demoHint_def encodeAdd_eq addBody_def)
  obtain rets q' j' where "journalOpen (\<lambda>_. 0) 0 demoClock systemOk (hj_data (journalAppend (\<lambda>_. 0) (wholeWrites (encodeOp (demoOp 3))) (encodeOp (demoOp 3)) ?j)) newHintQueue
      = Some (hq_size q', j', q')" "hj_records j' = length ([] :: JournalOp list)"
    using torn_tail_not_healed [OF _ pre _ _ o r len, where ck' = demoClock] by auto
  then show ?thesis using o r by (intro exI [of _ q] exI [of _ "hq_size q"] exI [of _ ?j]) auto
qed

end
