(* ===== verification/ReplicationManager.thy ===== *)
theory ReplicationManager
  imports Replication HintJournal "HOL-Library.Multiset"
begin

text \<open>
  The replication manager (\<open>src/node/replication_manager.cpp\<close>): the local store, the queue and the journal of
  hints and the table of coalesced reads (\<open>ReadFlightRegistry\<close> in \<open>include/cinder/node/read_quorum.hpp\<close>) put together. An operation takes the
  reports of its own sends in the order they arrive; other operations run before or after it. Callbacks are
  names \<open>'c\<close>, and calling one is returning it with its argument.
\<close>

section \<open>Coalesced reads\<close>

record 'c ReadFlights =
  rf_table :: "(Key \<times> nat) \<Rightarrow> nat option"
  rf_waiters :: "nat \<Rightarrow> 'c list"
  rf_next :: nat

definition noFlights :: "'c ReadFlights" where
  "noFlights = \<lparr>rf_table = (\<lambda>_. None), rf_waiters = (\<lambda>_. []), rf_next = 0\<rparr>"

definition attach :: "Key \<Rightarrow> nat \<Rightarrow> 'c \<Rightarrow> 'c ReadFlights \<Rightarrow> (nat \<times> bool) \<times> 'c ReadFlights" where
  "attach key r cb rf =
     (case rf_table rf (key, r) of
        None \<Rightarrow> ((rf_next rf, True), rf\<lparr>rf_table := (rf_table rf)((key, r) \<mapsto> rf_next rf),
          rf_waiters := (rf_waiters rf)(rf_next rf := [cb]), rf_next := rf_next rf + 1\<rparr>)
      | Some flight \<Rightarrow> ((flight, False), rf\<lparr>rf_waiters := (rf_waiters rf)(flight := rf_waiters rf flight @ [cb])\<rparr>))"

definition finish :: "Key \<Rightarrow> nat \<Rightarrow> nat \<Rightarrow> 'r \<Rightarrow> 'c ReadFlights \<Rightarrow> ('c \<times> 'r) list \<times> 'c ReadFlights" where
  "finish key r flight result rf =
     (let rf' = (if rf_table rf (key, r) = Some flight then rf\<lparr>rf_table := (rf_table rf)((key, r) := None)\<rparr> else rf)
      in (map (\<lambda>cb. (cb, result)) (rf_waiters rf flight), rf'\<lparr>rf_waiters := (rf_waiters rf')(flight := [])\<rparr>))"

section \<open>The manager\<close>

record ('p, 'c) ReplMgr =
  rm_store :: "'p StoreSt"
  rm_hints :: HintQueue
  rm_journal :: "HintJournal option"
  rm_flights :: "'c ReadFlights"
  rm_replaying :: bool

text \<open>What the system provides to the hint path.\<close>

record HintEnv =
  he_xxh :: "bytes \<Rightarrow> u64"
  he_sz :: nat
  he_writes :: "WriteRes list"
  he_compact :: CompactEnv

definition K_HINT_TTL :: int where "K_HINT_TTL = 30000"

definition K_REPLAY_BATCH :: nat where "K_REPLAY_BATCH = 256"

definition sysHintExpiryMs :: "Clock \<Rightarrow> u64" where
  "sysHintExpiryMs ck = nowSystemMs ck + word_of_int K_HINT_TTL"

definition enqueueHint :: "HintEnv \<Rightarrow> Clock \<Rightarrow> NodeId \<Rightarrow> Request \<Rightarrow> ('p, 'c) ReplMgr \<Rightarrow> ('p, 'c) ReplMgr option" where
  "enqueueHint env ck target req m =
     (let h = \<lparr>ht_target = target, ht_req = req, ht_expires_at = ck_now ck + K_HINT_TTL * 1000000\<rparr> in do {
        (j, q) \<leftarrow> (case rm_journal m of
            None \<Rightarrow> Some (None, rm_hints m)
          | Some j \<Rightarrow>
              let j = appendAdd (he_xxh env) (he_writes env) h (sysHintExpiryMs ck) j in
              if needsCompaction j then map_option (map_prod Some id) (compact (he_xxh env) (he_sz env) ck (he_compact env) j (rm_hints m))
              else Some (Some j, rm_hints m));
        (accepted, q) \<leftarrow> hqPush (he_sz env) h q;
        Some (m\<lparr>rm_journal := j, rm_hints := q\<rparr>)
      })"

fun enqueueAll :: "HintEnv \<Rightarrow> Clock \<Rightarrow> (NodeId \<times> Request) list \<Rightarrow> ('p, 'c) ReplMgr \<Rightarrow> ('p, 'c) ReplMgr option" where
  "enqueueAll env ck [] m = Some m"
| "enqueueAll env ck ((t, req) # hs) m = Option.bind (enqueueHint env ck t req m) (enqueueAll env ck hs)"

text \<open>The entry a write stores and the request it replicates.\<close>

definition writeEntry :: "Clock \<Rightarrow> NodeId \<Rightarrow> bytes \<Rightarrow> int option \<Rightarrow> u64 \<Rightarrow> VersionedEntry" where
  "writeEntry ck self value ttl_ms ver =
     (let e = (setVersion ver (emptyEntry\<lparr>ve_value := value\<rparr>))\<lparr>writer_node_hash := fnv1a64 self\<rparr>
      in case ttl_ms of None \<Rightarrow> e | Some ttl \<Rightarrow> setHasTtl True (e\<lparr>expires_at := ck_now ck + ttl * 1000000\<rparr>))"

definition writeAsync :: "'p Policy \<Rightarrow> (Key \<Rightarrow> nat) \<Rightarrow> HintEnv \<Rightarrow> Clock \<Rightarrow> NodeId \<Rightarrow> Key \<Rightarrow> bytes \<Rightarrow> int option \<Rightarrow> NodeId list \<Rightarrow> ConsistencyMode \<Rightarrow>
    (nat \<times> unit Result) list \<Rightarrow> ('p, 'c) ReplMgr \<Rightarrow> (unit Result list \<times> ('p, 'c) ReplMgr) option" where
  "writeAsync pol h env ck self key value ttl_ms replicas mode reports m =
     (case storeMintVersion (rm_store m) of
        (ver, s) \<Rightarrow>
          let e = writeEntry ck self value ttl_ms ver;
              wire_expiry = (if hasTtl e then Some (toSystemExpiry ck (expires_at e)) else None)
          in case storePutVersioned pol h ck key e s of
               (Inl er, s) \<Rightarrow> Some ([Inl er], m\<lparr>rm_store := s\<rparr>)
             | (Inr _, s) \<Rightarrow>
                 (case fanOutWrite ((emptyRequest OpReplicate key)\<lparr>rq_value := value, rq_expires_at := wire_expiry, rq_version := ver,
                      rq_writer := fnv1a64 self\<rparr>) replicas mode reports of
                    (done, hints) \<Rightarrow> map_option (Pair done) (enqueueAll env ck hints (m\<lparr>rm_store := s\<rparr>))))"

definition replDeleteAsync :: "'p Policy \<Rightarrow> (Key \<Rightarrow> nat) \<Rightarrow> HintEnv \<Rightarrow> Clock \<Rightarrow> NodeId \<Rightarrow> Key \<Rightarrow> NodeId list \<Rightarrow> ConsistencyMode \<Rightarrow>
    (nat \<times> unit Result) list \<Rightarrow> ('p, 'c) ReplMgr \<Rightarrow> (unit Result list \<times> ('p, 'c) ReplMgr) option" where
  "replDeleteAsync pol h env ck self key replicas mode reports m =
     (case storeMintVersion (rm_store m) of
        (ver, s) \<Rightarrow>
          (case storeRemoveVersioned pol h ck key ver (fnv1a64 self) s of
             (Inl er, s) \<Rightarrow> Some ([Inl er], m\<lparr>rm_store := s\<rparr>)
           | (Inr _, s) \<Rightarrow>
               (case storeGetVersioned pol h ck key s of
                  (tomb, s) \<Rightarrow>
                    let wire_expiry = (case tomb of None \<Rightarrow> None
                          | Some t \<Rightarrow> if isTombstone t \<and> hasTtl t then Some (toSystemExpiry ck (expires_at t)) else None)
                    in (case fanOutWrite ((emptyRequest OpReplicate key)\<lparr>rq_tombstone := True, rq_expires_at := wire_expiry,
                           rq_version := ver, rq_writer := fnv1a64 self\<rparr>) replicas mode reports of
                          (done, hints) \<Rightarrow> map_option (Pair done) (enqueueAll env ck hints (m\<lparr>rm_store := s\<rparr>))))))"

subsection \<open>Quorum reads\<close>

text \<open>
  A read starts by looking at the local store; without replicas or with \<open>R \<le> 1\<close> it is answered at once, otherwise
  it joins the flight for its key and \<open>R\<close>, as leader (with the local entry it will reduce from) or as waiter. The
  leader's decision heals the local store, sends the repairs and completes the flight.
\<close>

datatype ReadRole = Answered "VersionedEntry Result" | Waits | Leads nat "VersionedEntry option"

definition readAsync :: "'p Policy \<Rightarrow> (Key \<Rightarrow> nat) \<Rightarrow> Clock \<Rightarrow> Key \<Rightarrow> NodeId list \<Rightarrow> nat \<Rightarrow> 'c \<Rightarrow> ('p, 'c) ReplMgr \<Rightarrow> ReadRole \<times> ('p, 'c) ReplMgr" where
  "readAsync pol h ck key replicas r cb m =
     (case storeGetVersioned pol h ck key (rm_store m) of
        (local, s) \<Rightarrow>
          let m = m\<lparr>rm_store := s\<rparr> in
          if replicas = [] \<or> r \<le> 1 then (Answered (notFound local), m)
          else (case attach key r cb (rm_flights m) of
             ((flight, is_leader), rf) \<Rightarrow>
               (if is_leader then Leads flight local else Waits, m\<lparr>rm_flights := rf\<rparr>)))"

fun healAll :: "'p Policy \<Rightarrow> (Key \<Rightarrow> nat) \<Rightarrow> Clock \<Rightarrow> Key \<Rightarrow> VersionedEntry list \<Rightarrow> 'p StoreSt \<Rightarrow> 'p StoreSt" where
  "healAll pol h ck key [] s = s"
| "healAll pol h ck key (e # es) s = healAll pol h ck key es (snd (storePutVersioned pol h ck key e s))"

fun finishAll :: "Key \<Rightarrow> nat \<Rightarrow> nat \<Rightarrow> 'r list \<Rightarrow> 'c ReadFlights \<Rightarrow> ('c \<times> 'r) list \<times> 'c ReadFlights" where
  "finishAll key r flight [] rf = ([], rf)"
| "finishAll key r flight (x # xs) rf =
     (case finish key r flight x rf of (calls, rf) \<Rightarrow> (case finishAll key r flight xs rf of (calls', rf) \<Rightarrow> (calls @ calls', rf)))"

definition readLead :: "'p Policy \<Rightarrow> (Key \<Rightarrow> nat) \<Rightarrow> Clock \<Rightarrow> Key \<Rightarrow> NodeId list \<Rightarrow> nat \<Rightarrow> nat \<Rightarrow> VersionedEntry option \<Rightarrow>
    (nat \<times> Response Result) list \<Rightarrow> ('p, 'c) ReplMgr \<Rightarrow> ('c \<times> VersionedEntry Result) list \<times> (NodeId \<times> Request) list \<times> ('p, 'c) ReplMgr" where
  "readLead pol h ck key replicas r flight local reports m =
     (let eff = readEffects ck key replicas (rr_out (fo_state (readRun ck (length replicas) r local reports)));
          s = healAll pol h ck key (re_heals eff) (rm_store m)
      in case finishAll key r flight (re_results eff) (rm_flights m) of
           (calls, rf) \<Rightarrow> (calls, re_repairs eff, m\<lparr>rm_store := s, rm_flights := rf\<rparr>))"

subsection \<open>Replaying hints\<close>

record HintReplay =
  hr_pending :: nat
  hr_replayed :: nat
  hr_hints :: "HintQueue option"
  hr_journal :: "HintJournal option"
  hr_finished :: "nat list"

definition replayEach :: "HintEnv \<Rightarrow> (Hint \<times> Handle) list \<Rightarrow> nat \<Rightarrow> unit Result \<Rightarrow> bool \<Rightarrow> HintReplay \<Rightarrow> HintReplay" where
  "replayEach env batch i r active st =
     (let st = (case r of
          Inl e \<Rightarrow> st
        | Inr _ \<Rightarrow>
            (case batch ! i of (h, handle) \<Rightarrow>
               st\<lparr>hr_hints := Option.bind (hr_hints st) (hqRemove (he_sz env) handle),
                  hr_journal := map_option (appendDel (he_xxh env) (he_writes env) (ht_target h) (rq_key (ht_req h)) (rq_version (ht_req h))) (hr_journal st),
                  hr_replayed := hr_replayed st + 1\<rparr>))
      in st\<lparr>hr_pending := hr_pending st - 1\<rparr>)"

definition replayShouldFire :: "HintReplay \<Rightarrow> bool" where
  "replayShouldFire st \<longleftrightarrow> hr_pending st = 0"

definition replayFire :: "HintReplay \<Rightarrow> HintReplay" where
  "replayFire st = st\<lparr>hr_finished := hr_finished st @ [hr_replayed st]\<rparr>"

definition replayRun :: "HintEnv \<Rightarrow> (Hint \<times> Handle) list \<Rightarrow> HintQueue \<Rightarrow> HintJournal option \<Rightarrow> (nat \<times> unit Result) list \<Rightarrow> HintReplay FanOutDrain" where
  "replayRun env batch q j reports = fanOutQuorum (length batch) (replayEach env batch) replayShouldFire replayFire reports
     \<lparr>hr_pending = length batch, hr_replayed = 0, hr_hints = Some q, hr_journal = j, hr_finished = []\<rparr>"

text \<open>The calls of \<open>on_done\<close>, the hints that were sent, and the manager; the guard is released at the completion.\<close>

definition replayHints :: "HintEnv \<Rightarrow> Clock \<Rightarrow> (nat \<times> unit Result) list \<Rightarrow> ('p, 'c) ReplMgr \<Rightarrow> (nat list \<times> Hint list \<times> ('p, 'c) ReplMgr) option" where
  "replayHints env ck reports m =
     (if rm_replaying m then Some ([0], [], m)
      else do {
        (batch, q) \<leftarrow> hqSnapshot (he_sz env) (ck_now ck) K_REPLAY_BATCH (rm_hints m);
        if batch = [] then Some ([0], [], m\<lparr>rm_hints := q\<rparr>)
        else do {
          let st = fo_state (replayRun env batch q (rm_journal m) reports);
          q \<leftarrow> hr_hints st;
          Some (hr_finished st, map fst batch, m\<lparr>rm_hints := q, rm_journal := hr_journal st, rm_replaying := (hr_finished st = [])\<rparr>)
        }
      })"

definition recoverHints :: "HintEnv \<Rightarrow> Clock \<Rightarrow> RecoverEnv \<Rightarrow> bytes option \<Rightarrow> ('p, 'c) ReplMgr \<Rightarrow> (nat \<times> ('p, 'c) ReplMgr) option" where
  "recoverHints env ck rv path_file m =
     (case path_file of
        None \<Rightarrow> Some (0, m)
      | Some file \<Rightarrow>
          map_option (\<lambda>(n, j, q). (n, m\<lparr>rm_journal := Some j, rm_hints := q\<rparr>)) (journalOpen (he_xxh env) (he_sz env) ck rv file (rm_hints m)))"

interpretation hr: fan_out_client "replayEach env batch" replayShouldFire replayFire hr_pending "\<lambda>st. length (hr_finished st)" for env batch
  by unfold_locales (auto simp: replayEach_def replayShouldFire_def replayFire_def Let_def split: sum.split prod.split)

inductive_cases hintSpec_SnapshotE: "hintSpec sz (Snapshot now n) r s s'"

section \<open>Replaying\<close>

lemma snapSpec_live: "snapSpec now n es = (live, left) \<Longrightarrow> set live \<subseteq> set left"
  by (induction now n es arbitrary: live left rule: snapSpec.induct) (fastforce split: if_splits prod.splits)+

lemma handles_unique: "hqRep sz q xs fs \<Longrightarrow> inj_on snd (set (hs_entries (absQueue q)))"
  by (auto simp: abs_rep inj_on_def HintQueue.entryAt_def)

lemma remove_entries:
  assumes "hqRep sz q xs fs"
  obtains q' xs' fs' where "hqRemove sz handle q = Some q'" "hqRep sz q' xs' fs'"
    "hs_entries (absQueue q') = filter (\<lambda>e. snd e \<noteq> handle) (hs_entries (absQueue q))"
  using remove_rep [OF assms, of handle] by (auto elim!: hintSpec_RemoveE)

lemma replayEach_fields:
  "hr_finished (replayEach env batch i r a st) = hr_finished st"
  "hr_replayed (replayEach env batch i r a st) = hr_replayed st + (if acked r then 1 else 0)"
  "hr_hints (replayEach env batch i r a st) = (if acked r then Option.bind (hr_hints st) (hqRemove (he_sz env) (snd (batch ! i))) else hr_hints st)"
  by (auto simp: replayEach_def acked_def Let_def split: sum.split prod.split)

lemma replayFire_fields:
  "hr_finished (replayFire st) = hr_finished st @ [hr_replayed st]" "hr_replayed (replayFire st) = hr_replayed st" "hr_hints (replayFire st) = hr_hints st"
  by (simp_all add: replayFire_def)

lemma replayRun_invariant:
  assumes rep: "hqRep (he_sz env) q xs fs" and batch: "set batch \<subseteq> set (hs_entries (absQueue q))" and n: "n = length batch"
  shows "\<exists>q' xs' fs'. hr_hints (fo_state (replayRun env batch q j rs)) = Some q' \<and> hqRep (he_sz env) q' xs' fs'
    \<and> hs_entries (absQueue q') = filter (\<lambda>e. e \<notin> (!) batch ` firstWith acked n rs) (hs_entries (absQueue q))
    \<and> hr_replayed (fo_state (replayRun env batch q j rs)) = card (firstWith acked n rs)
    \<and> hr_finished (fo_state (replayRun env batch q j rs)) = (if fo_fired (replayRun env batch q j rs) then [card (firstWith acked n rs)] else [])
    \<and> (fo_fired (replayRun env batch q j rs) \<longrightarrow> card (heard n rs) = n)"
proof (induction rs rule: rev_induct)
  case Nil
  then show ?case using rep by (auto simp: replayRun_def fanOutQuorum_def)
next
  case (snoc x rs)
  obtain i r where x: "x = (i, r)" by fastforce
  obtain q' xs' fs' where ih: "hr_hints (fo_state (replayRun env batch q j rs)) = Some q'" "hqRep (he_sz env) q' xs' fs'"
    "hs_entries (absQueue q') = filter (\<lambda>e. e \<notin> (!) batch ` firstWith acked n rs) (hs_entries (absQueue q))"
    "hr_replayed (fo_state (replayRun env batch q j rs)) = card (firstWith acked n rs)"
    "hr_finished (fo_state (replayRun env batch q j rs)) = (if fo_fired (replayRun env batch q j rs) then [card (firstWith acked n rs)] else [])"
    "fo_fired (replayRun env batch q j rs) \<longrightarrow> card (heard n rs) = n" using snoc by blast
  let ?s0 = "\<lparr>hr_pending = length batch, hr_replayed = 0, hr_hints = Some q, hr_journal = j, hr_finished = []\<rparr>"
  show ?case
  proof (cases rule: fan_step_cases [OF refl refl, where n = n and oe = "replayEach env batch" and sf = replayShouldFire and fr = replayFire
        and rs = rs and s = ?s0 and i = i and r = r, unfolded n, folded replayRun_def, folded n, case_names dropped taken])
    case dropped
    then have "firstWith acked n (rs @ [x]) = firstWith acked n rs" by (simp add: x firstWith_dropped)
    then show ?thesis unfolding x using ih dropped(1,2) x by auto
  next
    case taken
    have lt: "card (heard n rs) < n" using taken(3) card_heard [of n "rs @ [(i, r)]"] by simp
    then have nf: "\<not> fo_fired (replayRun env batch q j rs)" using ih(6) by auto
    let ?st = "replayEach env batch i r True (fo_state (replayRun env batch q j rs))"
    have V: "firstWith acked n (rs @ [x]) = (if acked r then insert i (firstWith acked n rs) else firstWith acked n rs)" "i \<notin> firstWith acked n rs"
      using firstWith_taken(1) [OF taken(1,2), of acked r] firstWith_taken(2) [OF taken(1,2), of acked] by (simp_all add: x)
    have cnt: "hr_replayed ?st = card (firstWith acked n (rs @ [x]))" using ih(4) V by (simp add: replayEach_fields)
    have "\<exists>q2 xs2 fs2. hr_hints ?st = Some q2 \<and> hqRep (he_sz env) q2 xs2 fs2
      \<and> hs_entries (absQueue q2) = filter (\<lambda>e. e \<notin> (!) batch ` firstWith acked n (rs @ [x])) (hs_entries (absQueue q))"
    proof (cases "acked r")
      case False
      then show ?thesis using ih(1-3) V(1) by (auto simp: replayEach_fields)
    next
      case True
      obtain q2 xs2 fs2 where q2: "hqRemove (he_sz env) (snd (batch ! i)) q' = Some q2" "hqRep (he_sz env) q2 xs2 fs2"
        "hs_entries (absQueue q2) = filter (\<lambda>e. snd e \<noteq> snd (batch ! i)) (hs_entries (absQueue q'))" using remove_entries [OF ih(2)] by blast
      have bi: "batch ! i \<in> set (hs_entries (absQueue q))" using batch taken(1) n by auto
      have "hs_entries (absQueue q2) = filter (\<lambda>e. e \<notin> (!) batch ` firstWith acked n (rs @ [x])) (hs_entries (absQueue q))"
        unfolding q2(3) ih(3) filter_filter
      proof (rule filter_cong [OF refl])
        fix e assume "e \<in> set (hs_entries (absQueue q))"
        then have "snd e = snd (batch ! i) \<longleftrightarrow> e = batch ! i" using handles_unique [OF rep] bi by (auto dest: inj_onD)
        then show "(e \<notin> (!) batch ` firstWith acked n rs \<and> snd e \<noteq> snd (batch ! i)) = (e \<notin> (!) batch ` firstWith acked n (rs @ [x]))"
          using True V(1) by auto
      qed
      then show ?thesis using q2(1,2) True ih(1) by (auto simp: replayEach_fields)
    qed
    moreover have "hr_pending ?st = n - card (heard n (rs @ [x]))"
      using hr.undecided [where s = ?s0 and n = n and rs = rs and env = env and batch = batch, folded replayRun_def] nf n taken(3) lt
      by (simp add: x replayRun_def replayEach_def Let_def split: sum.split prod.split)
    then have "replayShouldFire ?st \<longleftrightarrow> card (heard n (rs @ [x])) = n" using card_heard [of n "rs @ [x]"] by (auto simp: replayShouldFire_def)
    ultimately show ?thesis
      using taken(4,5) nf cnt ih(5) by (auto simp: x replayEach_fields replayFire_fields)
  qed
qed


definition demoMgr :: "HintQueue \<Rightarrow> (unit, unit) ReplMgr" where
  "demoMgr q = \<lparr>rm_store = newStore () 1 demoClock, rm_hints = q, rm_journal = None, rm_flights = noFlights, rm_replaying = False\<rparr>"

definition demoEnv :: HintEnv where
  "demoEnv = \<lparr>he_xxh = (\<lambda>_. 0), he_sz = 0, he_writes = [], he_compact = \<lparr>ce_tmp = False, ce_writes = [], ce_fsync = False, ce_publish = Published, ce_reopen = False\<rparr>\<rparr>"

definition demoOther :: Hint where
  "demoOther = (demoHint 3)\<lparr>ht_target := ''n3''\<rparr>"

lemma demoOther_facts:
  "estimatedPayloadBytes 0 demoOther = 4" "\<not> sameSlotAs demoOther (demoHint 3)" "ht_expires_at demoOther = 30" "ht_expires_at (demoHint v) = 30"
  by (simp_all add: demoOther_def estimatedPayloadBytes_def demoHint_def sameSlotAs_def)


section \<open>Coalesced reads are answered once\<close>

text \<open>
  The interleavings of \<open>attach\<close> and \<open>finish\<close>: \<open>lead\<close> holds the flights whose leader has not finished yet, \<open>joined\<close>
  the reads attached so far and \<open>answered\<close> those answered with their results. A leader finishes its own flight once.
\<close>

inductive flightRun :: "'c ReadFlights \<Rightarrow> (nat \<times> Key \<times> nat) set \<Rightarrow> (Key \<times> nat \<times> 'c) multiset \<Rightarrow> ((Key \<times> nat \<times> 'c) \<times> 'r) multiset \<Rightarrow> bool" where
  start: "flightRun noFlights {} {#} {#}"
| joins: "flightRun rf lead joined answered \<Longrightarrow> attach key r cb rf = ((flight, False), rf')
    \<Longrightarrow> flightRun rf' lead (add_mset (key, r, cb) joined) answered"
| leads: "flightRun rf lead joined answered \<Longrightarrow> attach key r cb rf = ((flight, True), rf')
    \<Longrightarrow> flightRun rf' (insert (flight, key, r) lead) (add_mset (key, r, cb) joined) answered"
| finishes: "flightRun rf lead joined answered \<Longrightarrow> (flight, key, r) \<in> lead \<Longrightarrow> finish key r flight result rf = (calls, rf')
    \<Longrightarrow> flightRun rf' (lead - {(flight, key, r)}) joined (answered + mset (map (\<lambda>(cb, v). ((key, r, cb), v)) calls))"

definition waitingOn :: "'c ReadFlights \<Rightarrow> nat \<times> Key \<times> nat \<Rightarrow> (Key \<times> nat \<times> 'c) multiset" where
  "waitingOn rf = (\<lambda>(flight, key, r). mset (map (\<lambda>cb. (key, r, cb)) (rf_waiters rf flight)))"

definition flightsOk :: "'c ReadFlights \<Rightarrow> (nat \<times> Key \<times> nat) set \<Rightarrow> bool" where
  "flightsOk rf lead \<longleftrightarrow> finite lead \<and> inj_on fst lead \<and> (\<forall>flight key r. rf_table rf (key, r) = Some flight \<longleftrightarrow> (flight, key, r) \<in> lead)
     \<and> (\<forall>x \<in> lead. fst x < rf_next rf)"

lemma waitingOn_cong:
  assumes "\<And>x. x \<in> lead \<Longrightarrow> rf_waiters rf' (fst x) = rf_waiters rf (fst x)"
  shows "(\<Sum>x\<in>lead. waitingOn rf' x) = (\<Sum>x\<in>lead. waitingOn rf x)"
  by (rule sum.cong [OF refl]) (use assms in \<open>force simp: waitingOn_def\<close>)

lemma other_flight: "inj_on fst lead \<Longrightarrow> y \<in> lead \<Longrightarrow> x \<in> lead - {y} \<Longrightarrow> fst x \<noteq> fst y"
  by (auto dest: inj_onD)

lemma flightsOk_free: "flightsOk rf lead \<Longrightarrow> rf_table rf (key, r) = None \<Longrightarrow> (flight, key, r) \<notin> lead"
  unfolding flightsOk_def by (metis option.distinct(1))

lemma flightsOk_unique: "flightsOk rf lead \<Longrightarrow> (flight, key, r) \<in> lead \<Longrightarrow> (flight', key, r) \<in> lead \<Longrightarrow> flight' = flight"
  unfolding flightsOk_def by (metis option.inject)

lemma flightRun_invariant:
  "flightRun rf lead joined answered \<Longrightarrow> flightsOk rf lead \<and> joined = image_mset fst answered + (\<Sum>x\<in>lead. waitingOn rf x)"
proof (induction rule: flightRun.induct)
  case start
  then show ?case by (auto simp: flightsOk_def noFlights_def)
next
  case (joins rf lead joined answered key r cb flight rf')
  then have t: "rf_table rf (key, r) = Some flight" "rf' = rf\<lparr>rf_waiters := (rf_waiters rf)(flight := rf_waiters rf flight @ [cb])\<rparr>"
    by (auto simp: attach_def split: option.splits)
  have ok: "flightsOk rf lead" and eq: "joined = image_mset fst answered + (\<Sum>x\<in>lead. waitingOn rf x)" using joins.IH by blast+
  have x: "(flight, key, r) \<in> lead" "finite lead" "inj_on fst lead" using ok t(1) by (auto simp: flightsOk_def)
  have "(\<Sum>x\<in>lead - {(flight, key, r)}. waitingOn rf' x) = (\<Sum>x\<in>lead - {(flight, key, r)}. waitingOn rf x)"
    by (rule waitingOn_cong, drule other_flight [OF x(3,1)]) (simp add: t(2))
  moreover have "waitingOn rf' (flight, key, r) = add_mset (key, r, cb) (waitingOn rf (flight, key, r))" by (simp add: waitingOn_def t(2))
  ultimately have "(\<Sum>x\<in>lead. waitingOn rf' x) = add_mset (key, r, cb) (\<Sum>x\<in>lead. waitingOn rf x)"
    by (simp add: sum.remove [OF x(2,1)])
  moreover have "flightsOk rf' lead" using ok by (simp add: flightsOk_def t(2))
  ultimately show ?case using eq by simp
next
  case (leads rf lead joined answered key r cb flight rf')
  then have t: "rf_table rf (key, r) = None" "flight = rf_next rf"
    "rf' = rf\<lparr>rf_table := (rf_table rf)((key, r) \<mapsto> flight), rf_waiters := (rf_waiters rf)(flight := [cb]), rf_next := rf_next rf + 1\<rparr>"
    by (auto simp: attach_def split: option.splits)
  have ok: "flightsOk rf lead" and eq: "joined = image_mset fst answered + (\<Sum>x\<in>lead. waitingOn rf x)" using leads.IH by blast+
  have new: "flight \<notin> fst ` lead" "finite lead" using ok t(2) by (force simp: flightsOk_def)+
  then have "(\<Sum>x\<in>lead. waitingOn rf' x) = (\<Sum>x\<in>lead. waitingOn rf x)" by (intro waitingOn_cong) (force simp: t(3))
  moreover have "(flight, key, r) \<notin> lead" using new by force
  moreover have "rf_table rf' (k, n) = Some f \<longleftrightarrow> (f, k, n) \<in> insert (flight, key, r) lead" for f k n
    using ok flightsOk_free [OF ok t(1)] by (cases "(k, n) = (key, r)") (auto simp: flightsOk_def t(3))
  then have "flightsOk rf' (insert (flight, key, r) lead)" using ok new unfolding flightsOk_def by (auto simp: t(2,3) less_Suc_eq)
  moreover have "waitingOn rf' (flight, key, r) = {#(key, r, cb)#}" by (simp add: waitingOn_def t(3))
  ultimately show ?case using eq new(2) by simp
next
  case (finishes rf lead joined answered flight key r result calls rf')
  then have ok: "flightsOk rf lead" and eq: "joined = image_mset fst answered + (\<Sum>x\<in>lead. waitingOn rf x)" by blast+
  then have x: "(flight, key, r) \<in> lead" "finite lead" "inj_on fst lead" "rf_table rf (key, r) = Some flight" using finishes.hyps(2) by (auto simp: flightsOk_def)
  then have t: "calls = map (\<lambda>cb. (cb, result)) (rf_waiters rf flight)"
    "rf' = rf\<lparr>rf_table := (rf_table rf)((key, r) := None), rf_waiters := (rf_waiters rf)(flight := [])\<rparr>"
    using finishes.hyps(3) by (auto simp: finish_def)
  have "(\<Sum>x\<in>lead - {(flight, key, r)}. waitingOn rf' x) = (\<Sum>x\<in>lead - {(flight, key, r)}. waitingOn rf x)"
    by (rule waitingOn_cong, drule other_flight [OF x(3,1)]) (simp add: t(2))
  moreover have "image_mset fst (mset (map (\<lambda>(cb, v). ((key, r, cb), v)) calls)) = waitingOn rf (flight, key, r)"
    by (simp add: t(1) waitingOn_def multiset.map_comp comp_def)
  moreover have "flightsOk rf' (lead - {(flight, key, r)})"
    using ok flightsOk_unique [OF ok x(1)] by (auto simp: flightsOk_def t(2) inj_on_def)
  ultimately show ?case using eq by (simp add: sum.remove [OF x(2,1)])
qed

text \<open>
  C21. Coalescing loses no read and answers none twice: under every interleaving of readers attaching to flights and
  leaders finishing theirs, the answered reads are among the attached ones with their multiplicity, each with a
  result for its own key and quorum size, and once no leader is outstanding they are all of them.
\<close>

theorem coalesced_reads_answered_once:
  assumes "flightRun rf lead joined answered"
  shows "image_mset fst answered \<subseteq># joined \<and> (lead = {} \<longrightarrow> image_mset fst answered = joined)"
  using flightRun_invariant [OF assms] by auto

theorem coalesced_reads_answered_once_witness:
  "\<exists>rf. flightRun rf {} {#(''k'', 1, ''a''), (''k'', 1, ''b'')#} {#((''k'', 1, ''a''), 5), ((''k'', 1, ''b''), 5 :: nat)#}
     \<and> image_mset fst {#((''k'', 1, ''a''), 5), ((''k'', 1, ''b''), 5 :: nat)#} = {#(''k'', 1 :: nat, ''a''), (''k'', 1, ''b'')#}"
proof -
  obtain rf1 where r1: "attach ''k'' 1 ''a'' noFlights = ((0, True), rf1)" "rf_waiters rf1 0 = [''a'']" "rf_table rf1 (''k'', 1) = Some 0"
    by (simp add: attach_def noFlights_def)
  obtain rf2 where r2: "attach ''k'' 1 ''b'' rf1 = ((0, False), rf2)" "rf_waiters rf2 0 = [''a'', ''b'']" "rf_table rf2 (''k'', 1) = Some 0"
    using r1(2,3) by (simp add: attach_def)
  obtain rf3 where r3: "finish ''k'' 1 0 (5 :: nat) rf2 = ([(''a'', 5), (''b'', 5)], rf3)" using r2(2) by (simp add: finish_def Let_def)
  have "flightRun rf3 {} {#(''k'', 1, ''a''), (''k'', 1, ''b'')#} {#((''k'', 1, ''a''), 5), ((''k'', 1, ''b''), 5 :: nat)#}"
    using flightRun.finishes [OF flightRun.joins [OF flightRun.leads [OF flightRun.start r1(1)] r2(1)] _ r3] by (simp add: add_mset_commute)
  then show ?thesis using coalesced_reads_answered_once [of rf3 "{}"] by blast
qed

end
