(* ===== verification/StoreProps.thy ===== *)
theory StoreProps
  imports EvictionStore
begin

text \<open>
  Properties of the whole store, for every policy that keeps the contract \<open>eviction_policy\<close>; the
  LRU and the LFU policy do (interpretations \<open>lru\<close> and \<open>lfu\<close>), and the witnesses use them.
\<close>

section \<open>Reachable stores\<close>

inductive store_reach :: "'p Policy \<Rightarrow> (Key \<Rightarrow> nat) \<Rightarrow> 'p \<Rightarrow> 'p StoreSt \<Rightarrow> bool" for pol h p0 where
  init: "store_reach pol h p0 (newStore p0 cap ck)"
| put: "store_reach pol h p0 s \<Longrightarrow> storePut pol h ck k v ttl s = (r, s') \<Longrightarrow> store_reach pol h p0 s'"
| put_versioned: "store_reach pol h p0 s \<Longrightarrow> storePutVersioned pol h ck k e s = (r, s') \<Longrightarrow> store_reach pol h p0 s'"
| get: "store_reach pol h p0 s \<Longrightarrow> storeGet pol h ck k s = (v, s') \<Longrightarrow> store_reach pol h p0 s'"
| get_versioned: "store_reach pol h p0 s \<Longrightarrow> storeGetVersioned pol h ck k s = (v', s') \<Longrightarrow> store_reach pol h p0 s'"
| remove: "store_reach pol h p0 s \<Longrightarrow> storeRemove pol h k s = (b, s') \<Longrightarrow> store_reach pol h p0 s'"
| remove_versioned: "store_reach pol h p0 s \<Longrightarrow> storeRemoveVersioned pol h ck k ver w s = (r, s') \<Longrightarrow> store_reach pol h p0 s'"
| evict_expired: "store_reach pol h p0 s \<Longrightarrow> storeEvictExpired pol ck s = Some (n, s') \<Longrightarrow> store_reach pol h p0 s'"
| set_capacity: "store_reach pol h p0 s \<Longrightarrow> store_reach pol h p0 (setCapacity pol cap s)"
| set_gc: "store_reach pol h p0 s \<Longrightarrow> store_reach pol h p0 (setTombstoneGcInterval ms s)"
| mint: "store_reach pol h p0 s \<Longrightarrow> storeMintVersion s = (ver, s') \<Longrightarrow> store_reach pol h p0 s'"

lemma shardCountFor_bounds: "1 \<le> shardCountFor cap" "shardCountFor cap \<le> K_MAX_SHARDS"
  by (simp_all add: shardCountFor_def K_MAX_SHARDS_def)

lemma newShard_ok: "pol_ok (newShard p t) \<Longrightarrow> shard_ok pol pol_ok (newShard p t)"
  by (simp add: shard_ok_def shard_base_def newShard_def shape_def bytes_of_def ttl_keys_def)

lemma newShard_fields [simp]:
  "sh_list (newShard p t) = []" "sh_nodes (newShard p t) = Map.empty" "sh_bytes (newShard p t) = 0"
  by (simp_all add: newShard_def)

lemma newStore_ok:
  assumes "\<And>t. pol_ok (newShard p0 t)"
  shows "store_ok pol pol_ok h (newStore p0 cap ck)" "capped (newStore p0 cap ck)" "lookup h (newStore p0 cap ck) = Map.empty"
proof -
  have n: "shardCountFor cap \<noteq> 0" using shardCountFor_bounds(1) [of cap] by simp
  then show "store_ok pol pol_ok h (newStore p0 cap ck)"
    using assms by (auto simp: store_ok_def newStore_def newShard_ok acctL_def sum_list_replicate)
  show "capped (newStore p0 cap ck)" by (auto simp: capped_def newStore_def)
  show "lookup h (newStore p0 cap ck) = Map.empty"
    using n by (simp add: lookup_def newStore_def shardFor_def fun_eq_iff)
qed

lemma store_ok_globals:
  assumes "total_bytes g = total_bytes (globals s)" "total_entries g = total_entries (globals s)" "capacity_bytes g = capacity_bytes (globals s)"
  shows "store_ok pol pol_ok h (s\<lparr>globals := g\<rparr>) = store_ok pol pol_ok h s" "capped (s\<lparr>globals := g\<rparr>) = capped s"
    "lookup h (s\<lparr>globals := g\<rparr>) = lookup h s" "capOf (s\<lparr>globals := g\<rparr>) = capOf s"
  using assms by (simp_all add: store_ok_def acctL_def shardFor_def capped_def capOf_def shardCapacity_def lookup_def fun_eq_iff)

text \<open>
  C1. The store invariant holds in every reachable state, whatever the policy, the hash function and
  the order of the operations: in each shard the list, the index and the policy's own state agree,
  the byte count is exact and the timer wheel schedules exactly the entries with a TTL, all of
  them in the future; every key sits in the shard its hash selects; the global counters are the
  sums over the shards; and each shard is within its slice of the capacity or holds nothing but
  tombstones.
\<close>

theorem store_invariant:
  assumes pol: "eviction_policy pol pol_ok" and init: "\<And>t. pol_ok (newShard p0 t)" and reach: "store_reach pol h p0 s"
  shows "store_ok pol pol_ok h s \<and> capped s"
  using reach
proof (induction rule: store_reach.induct)
  case (init cap ck)
  then show ?case using newStore_ok(1,2) [of pol_ok p0] assms(2) by blast
next
  case (put s ck k v ttl r s')
  have "store_ok pol pol_ok h (s\<lparr>globals := (globals s)\<lparr>next_version := x\<rparr>\<rparr>)" "capped (s\<lparr>globals := (globals s)\<lparr>next_version := x\<rparr>\<rparr>)" for x
    using put.IH by (simp_all add: store_ok_globals)
  with put.hyps(2) show ?case
    using eviction_policy.storePutVersionedAt_correct [OF pol]
    by (auto simp: storePut_def mintVersion_def Let_def storePutVersioned_def split: option.splits if_splits) blast+
next
  case (put_versioned s ck k e r s')
  then show ?case
    using eviction_policy.storePutVersionedAt_correct [OF pol] unfolding storePutVersioned_def Let_def by blast
next
  case (get s ck k v s')
  then show ?case using eviction_policy.storeGet_correct [OF pol] by blast
next
  case (get_versioned s ck k v' s')
  then show ?case using eviction_policy.storeGetVersioned_correct [OF pol] by blast
next
  case (remove s k b s')
  then show ?case using eviction_policy.storeRemove_correct [OF pol] by blast
next
  case (remove_versioned s ck k ver w r s')
  then show ?case
    using eviction_policy.storePutVersionedAt_correct [OF pol] unfolding storeRemoveVersioned_def Let_def by blast
next
  case (evict_expired s ck n s')
  obtain n' s'' where "storeEvictExpired pol ck s = Some (n', s'')" "store_ok pol pol_ok h s''" "capped s \<longrightarrow> capped s''"
    using evict_expired.IH by (elim conjE) (rule eviction_policy.storeEvictExpired_correct [OF pol])
  then show ?case using evict_expired by simp
next
  case (set_capacity s cap)
  then show ?case using eviction_policy.setCapacity_correct [OF pol] by blast
next
  case (set_gc s ms)
  then show ?case by (simp add: setTombstoneGcInterval_def store_ok_globals)
next
  case (mint s ver s')
  then show ?case by (auto simp: storeMintVersion_def mintVersion_def store_ok_globals)
qed

lemma emptyLfu_ok: "lfu_ok (newShard emptyLfu t)"
  by (simp add: lfu_ok_def lfu_inv_def newShard_def emptyLfu_def view_ok_def bucketAt_def)

theorem store_invariant_witness:
  "store_ok lfuPolicy lfu_ok length (snd (storePut lfuPolicy length \<lparr>ck_now = 7, ck_system = 9\<rparr> ''key'' ''value'' (Some 5)
     (newStore emptyLfu 200000 \<lparr>ck_now = 1, ck_system = 3\<rparr>)))
   \<and> capped (snd (storePut lfuPolicy length \<lparr>ck_now = 7, ck_system = 9\<rparr> ''key'' ''value'' (Some 5)
     (newStore emptyLfu 200000 \<lparr>ck_now = 1, ck_system = 3\<rparr>)))"
  by (rule store_invariant [OF lfu.eviction_policy_axioms emptyLfu_ok])
    (rule store_reach.put [OF store_reach.init surjective_pairing])

section \<open>Writes\<close>


lemma emptyStore_ok: "store_ok lruPolicy lru_ok h (newStore () cap ck)"
  by (rule newStore_ok(1)) (simp add: lru_ok_def)


definition lamport :: "(Key \<Rightarrow> nat) \<Rightarrow> 'p StoreSt \<Rightarrow> bool" where
  "lamport h s \<longleftrightarrow> (\<forall>k e. lookup h s k = Some e \<longrightarrow> version e < next_version (globals s))"

lemma version_bound: "unat (version e) < 2 ^ 62"
  by (simp add: version_def drop_bit_eq_div unat_div less_mult_imp_div_less)

lemma version_lt: "version e < version e + 1"
  using version_bound [of e] by (simp add: word_less_nat_alt unat_word_ariths)

definition putEntry :: "Clock \<Rightarrow> Version \<Rightarrow> bytes \<Rightarrow> int option \<Rightarrow> VersionedEntry" where
  "putEntry ck ver v ttl =
     (let e = setVersion ver (emptyEntry\<lparr>ve_value := v\<rparr>)
      in case ttl of Some ms \<Rightarrow> setHasTtl True (e\<lparr>expires_at := ck_now ck + ms * 1000000\<rparr>) | None \<Rightarrow> e)"

lemma packed_frame [simp]:
  "version (e\<lparr>expires_at := t\<rparr>) = version e" "hasTtl (e\<lparr>expires_at := t\<rparr>) = hasTtl e" "isTombstone (e\<lparr>expires_at := t\<rparr>) = isTombstone e"
  "version (e\<lparr>ve_value := v\<rparr>) = version e" "hasTtl (e\<lparr>ve_value := v\<rparr>) = hasTtl e" "isTombstone (e\<lparr>ve_value := v\<rparr>) = isTombstone e"
  "version (e\<lparr>writer_node_hash := x\<rparr>) = version e" "hasTtl (e\<lparr>writer_node_hash := x\<rparr>) = hasTtl e" "isTombstone (e\<lparr>writer_node_hash := x\<rparr>) = isTombstone e"
  by (simp_all add: version_def hasTtl_def isTombstone_def)

lemma take_bit_version: "(ver :: u64) < 2 ^ 62 \<Longrightarrow> take_bit 62 ver = ver"
  by (rule word_unat_eq_iff [THEN iffD2]) (simp add: take_bit_eq_mod unat_mod word_less_nat_alt)

lemma putEntry_fields:
  "ver < 2 ^ 62 \<Longrightarrow> version (putEntry ck ver v ttl) = ver" "ve_value (putEntry ck ver v ttl) = v"
  "hasTtl (putEntry ck ver v ttl) \<longleftrightarrow> ttl \<noteq> None" "\<not> isTombstone (putEntry ck ver v ttl)"
  by (simp_all add: putEntry_def Let_def version_setVersion take_bit_version split: option.split)

lemma storePut_eq:
  "storePut pol h ck k v ttl s = storePutVersioned pol h ck k (putEntry ck (next_version (globals s)) v ttl)
     (s\<lparr>globals := (globals s)\<lparr>next_version := next_version (globals s) + 1\<rparr>\<rparr>)"
  by (simp add: storePut_def mintVersion_def putEntry_def Let_def storePutVersioned_def split: option.split)



section \<open>Deletes\<close>

definition tombOf :: "Clock \<Rightarrow> Version \<Rightarrow> u64 \<Rightarrow> int \<Rightarrow> VersionedEntry" where
  "tombOf ck ver writer gc = setHasTtl True
     ((setTombstone True (setVersion ver emptyEntry)\<lparr>writer_node_hash := writer\<rparr>)\<lparr>expires_at := ck_now ck + gc * 1000000\<rparr>)"

lemma tombOf_fields [simp]:
  "isTombstone (tombOf ck ver writer gc)" "hasTtl (tombOf ck ver writer gc)" "expires_at (tombOf ck ver writer gc) = ck_now ck + gc * 1000000"
  by (simp_all add: tombOf_def)

lemma storeRemoveVersioned_eq:
  "storeRemoveVersioned pol h ck k ver writer s = storePutVersionedAt pol h ck (ck_now ck) k (tombOf ck ver writer (tombstone_gc (globals s))) s"
  by (simp add: storeRemoveVersioned_def tombOf_def Let_def)

text \<open>
  C3. A delete sticks. A versioned delete that is accepted and is not older than what the key holds
  leaves its marker in the store. From then on \<open>get\<close> reports the key missing, \<open>getVersioned\<close> shows the
  marker until its deadline, every write with a smaller stamp is ignored, and neither shrinking the
  capacity to any size nor an expiry sweep before the deadline removes the marker.
\<close>

theorem delete_sticks:
  assumes pol: "eviction_policy pol pol_ok" and ok: "store_ok pol pol_ok h s"
    and run: "storeRemoveVersioned pol h ck k ver writer s = (Inr (), s1)"
  defines "tomb \<equiv> tombOf ck ver writer (tombstone_gc (globals s))"
  assumes fresh: "\<And>e0. lookup h s k = Some e0 \<Longrightarrow> \<not> stampOf tomb < stampOf e0"
  shows "lookup h s1 k = Some tomb \<and> fst (storeGet pol h ck' k s1) = None
    \<and> (ck_now ck' < expires_at tomb \<longrightarrow> fst (storeGetVersioned pol h ck' k s1) = Some tomb)
    \<and> (stampOf e < stampOf tomb \<longrightarrow> storePutVersioned pol h ck' k e s1 = (Inr (), s1))
    \<and> lookup h (setCapacity pol cap s1) k = Some tomb
    \<and> (ck_now ck' < expires_at tomb \<longrightarrow> (\<exists>n s2. storeEvictExpired pol ck' s1 = Some (n, s2) \<and> lookup h s2 k = Some tomb))"
proof -
  have t: "isTombstone tomb" "hasTtl tomb" by (simp_all add: tomb_def)
  note c = eviction_policy.storePutVersionedAt_correct [OF pol ok run [unfolded storeRemoveVersioned_eq], folded tomb_def]
  have ok1: "store_ok pol pol_ok h s1" using c by blast
  obtain E where E: "storePutApplied h ck k tomb E s s1"
  proof (cases "lookup h s k")
    case None
    then show ?thesis using c that by (auto split: if_splits)
  next
    case (Some e0)
    then show ?thesis using c that fresh [OF Some] by auto
  qed
  have lk: "lookup h s1 k = Some tomb" using E t(1) by (auto simp: storePutApplied_def Let_def restrict_map_def)
  have get: "fst (storeGet pol h ck' k s1) = None"
    using eviction_policy.storeGet_correct [OF pol ok1 surjective_pairing, of ck' k] lk t(1) by simp
  have getv: "fst (storeGetVersioned pol h ck' k s1) = Some tomb" if "ck_now ck' < expires_at tomb"
    using eviction_policy.storeGetVersioned_correct [OF pol ok1 surjective_pairing, of ck' k] lk that by (simp add: isExpired_def)
  have put: "storePutVersioned pol h ck' k e s1 = (Inr (), s1)" if "stampOf e < stampOf tomb"
  proof -
    obtain r s2 where r: "storePutVersioned pol h ck' k e s1 = (r, s2)" by fastforce
    from eviction_policy.storePutVersionedAt_correct [OF pol ok1 this [unfolded storePutVersioned_def Let_def]] lk that r
    show ?thesis by simp
  qed
  have cap: "lookup h (setCapacity pol cap s1) k = Some tomb"
    using eviction_policy.setCapacity_correct [OF pol ok1] lk t(1) by blast
  have sweep: "\<exists>n s2. storeEvictExpired pol ck' s1 = Some (n, s2) \<and> lookup h s2 k = Some tomb" if "ck_now ck' < expires_at tomb"
  proof -
    obtain n s2 where s2: "storeEvictExpired pol ck' s1 = Some (n, s2)" "lookup h s2 \<subseteq>\<^sub>m lookup h s1"
      "\<forall>k e. lookup h s1 k = Some e \<and> lookup h s2 k = None \<longrightarrow> isExpired (ck_now ck') e"
      by (rule eviction_policy.storeEvictExpired_correct [OF pol ok1, of ck'])
    have "\<not> isExpired (ck_now ck') tomb" using that by (simp add: isExpired_def)
    then have "lookup h s2 k \<noteq> None" using s2(3) [rule_format, of k tomb] lk by auto
    then have "lookup h s2 k = Some tomb" using s2(2) lk unfolding map_le_def by (metis domIff)
    with s2(1) show ?thesis by blast
  qed
  show ?thesis using lk get getv put cap sweep by blast
qed

theorem delete_sticks_witness:
  "let s1 = snd (storeRemoveVersioned lruPolicy length \<lparr>ck_now = 7, ck_system = 9\<rparr> ''key'' 3 0 (newStore () 4096 \<lparr>ck_now = 1, ck_system = 3\<rparr>))
   in lookup length (setCapacity lruPolicy 0 s1) ''key'' = Some (tombOf \<lparr>ck_now = 7, ck_system = 9\<rparr> 3 0 300000)"
proof -
  let ?ck = "\<lparr>ck_now = 7, ck_system = 9\<rparr>" and ?s = "newStore () 4096 \<lparr>ck_now = 1, ck_system = 3\<rparr>"
  obtain r s1 where run: "storeRemoveVersioned lruPolicy length ?ck ''key'' 3 0 ?s = (r, s1)" by fastforce
  have lk: "lookup length ?s = Map.empty" by (rule newStore_ok(3) [of lru_ok]) (simp add: lru_ok_def)
  have cap: "capOf ?s = 4096" "tombstone_gc (globals ?s) = 300000"
    by (simp_all add: capOf_def shardCapacity_def newStore_def shardCountFor_def K_MIN_SHARD_BYTES_def K_MAX_SHARDS_def)
  have "nodeSize lruPolicy ''key'' (tombOf ?ck 3 0 300000) = 123" by (simp add: nodeSize_def tombOf_def lruPolicy_def)
  then have "r = Inr ()"
    using lru.storePutVersionedAt_correct [OF emptyStore_ok run [unfolded storeRemoveVersioned_eq]] lk cap by simp
  with run have "storeRemoveVersioned lruPolicy length ?ck ''key'' 3 0 ?s = (Inr (), s1)" by simp
  from delete_sticks [OF lru.eviction_policy_axioms emptyStore_ok this] lk cap(2) run show ?thesis by (simp add: Let_def)
qed

section \<open>Expiry\<close>

lemma live_entries_iff:
  assumes ok: "store_ok pol pol_ok h s"
  shows "(k, e) \<in> set (storeLiveEntries ck s) \<longleftrightarrow> lookup h s k = Some e \<and> \<not> isExpired (ck_now ck) e"
proof -
  have one: "(k, e) \<in> set (shardLive now sh) \<longleftrightarrow> sh_nodes sh k = Some e \<and> \<not> isExpired now e" if "shape sh" for sh now
    using that by (auto simp: shardLive_def shape_def split: option.splits if_splits intro!: bexI [of _ k])
  have sh: "shape (shards s ! i)" if "i < length (shards s)" for i
    using store_okD(2) [OF ok that] by (simp add: shard_ok_def shard_base_def)
  show ?thesis
  proof
    assume "(k, e) \<in> set (storeLiveEntries ck s)"
    then obtain sh where "sh \<in> set (shards s)" "(k, e) \<in> set (shardLive (ck_now ck) sh)" by (auto simp: storeLiveEntries_def)
    then obtain i where i: "i < length (shards s)" "(k, e) \<in> set (shardLive (ck_now ck) (shards s ! i))"
      by (metis in_set_conv_nth)
    then have n: "sh_nodes (shards s ! i) k = Some e" "\<not> isExpired (ck_now ck) e" using one [OF sh] by auto
    with store_okD(3) [OF ok i(1)] show "lookup h s k = Some e \<and> \<not> isExpired (ck_now ck) e" by (simp add: lookup_def)
  next
    assume "lookup h s k = Some e \<and> \<not> isExpired (ck_now ck) e"
    then have "(k, e) \<in> set (shardLive (ck_now ck) (shards s ! shardFor h s k))"
      using one [OF sh [OF store_okD(1) [OF ok]]] by (simp add: lookup_def)
    then show "(k, e) \<in> set (storeLiveEntries ck s)"
      using store_okD(1) [OF ok, of k] by (auto simp: storeLiveEntries_def)
  qed
qed



end
