(* ===== verification/Digits.thy ===== *)
theory Digits
  imports Prelude
begin

text \<open>
  Decimal numbers and substring search: \<open>std::to_string\<close> and \<open>std::format\<close> on unsigned values,
  \<open>parseUint\<close> and \<open>parsePeer\<close> of \<open>include/cinder/common/parse.hpp\<close> (over \<open>std::from_chars\<close>), and
  \<open>find\<close>, \<open>rfind\<close> and \<open>substr\<close> of \<open>std::string_view\<close>.
\<close>

section \<open>Model\<close>

fun decimal :: "nat \<Rightarrow> string" where
  "decimal n = (if n < 10 then [char_of (48 + n)] else decimal (n div 10) @ [char_of (48 + n mod 10)])"

declare decimal.simps [simp del]

definition isDigit :: "char \<Rightarrow> bool" where
  "isDigit c \<longleftrightarrow> 48 \<le> (of_char c :: nat) \<and> (of_char c :: nat) \<le> 57"

definition digitsValue :: "string \<Rightarrow> nat" where
  "digitsValue ds = foldl (\<lambda>acc c. acc * 10 + (of_char c - 48)) 0 ds"

text \<open>\<open>from_chars\<close> into an unsigned type with largest value \<open>limit\<close>, and the whole input consumed.\<close>

definition parseUint :: "nat \<Rightarrow> string \<Rightarrow> nat option" where
  "parseUint limit digits =
     (if digits \<noteq> [] \<and> list_all isDigit digits \<and> digitsValue digits \<le> limit then Some (digitsValue digits) else None)"

definition findFrom :: "char \<Rightarrow> string \<Rightarrow> nat \<Rightarrow> nat option" where
  "findFrom c s pos =
     (let i = pos + length (takeWhile (\<lambda>x. x \<noteq> c) (drop pos s)) in if i < length s then Some i else None)"

definition rfindChar :: "char \<Rightarrow> string \<Rightarrow> nat option" where
  "rfindChar c s =
     (if c \<in> set s then Some (length s - 1 - length (takeWhile (\<lambda>x. x \<noteq> c) (rev s))) else None)"

definition substr :: "string \<Rightarrow> nat \<Rightarrow> nat \<Rightarrow> string" where
  "substr s pos n = take n (drop pos s)"

record NodeConfig =
  nc_id :: NodeId
  nc_host :: string
  nc_port :: u16

definition parsePeer :: "string \<Rightarrow> NodeConfig option" where
  "parsePeer peer =
     (case rfindChar CHR ''@'' peer of
        None \<Rightarrow> None
      | Some at \<Rightarrow>
          (case findFrom CHR '':'' peer at of
             None \<Rightarrow> None
           | Some colon \<Rightarrow>
               if at = 0 \<or> colon = at + 1 then None
               else (case parseUint 65535 (drop (colon + 1) peer) of
                  None \<Rightarrow> None
                | Some port \<Rightarrow> Some \<lparr>nc_id = substr peer 0 at, nc_host = substr peer (at + 1) (colon - at - 1),
                    nc_port = of_nat port\<rparr>)))"

section \<open>Lemmas\<close>

lemma decimal_digits: "decimal n \<noteq> [] \<and> list_all isDigit (decimal n)"
proof (induction n rule: decimal.induct)
  case (1 n)
  have d: "isDigit (char_of (48 + k))" if "k < 10" for k :: nat
    using that by (simp add: isDigit_def of_char_of)
  show ?case
  proof (cases "n < 10")
    case True
    then show ?thesis using d by (simp add: decimal.simps [of n])
  next
    case False
    then show ?thesis using 1 d [of "n mod 10"] by (simp add: decimal.simps [of n])
  qed
qed

lemma digitsValue_decimal: "digitsValue (decimal n) = n"
proof (induction n rule: decimal.induct)
  case (1 n)
  have d: "(of_char (char_of (48 + k) :: char) :: nat) = 48 + k" if "k < 10" for k :: nat
    using that by (simp add: of_char_of)
  show ?case
  proof (cases "n < 10")
    case True
    then show ?thesis by (simp add: decimal.simps [of n] digitsValue_def d)
  next
    case False
    then have ih: "digitsValue (decimal (n div 10)) = n div 10" by (rule 1)
    have "digitsValue (decimal n) = digitsValue (decimal (n div 10)) * 10 + n mod 10"
      using False by (simp add: decimal.simps [of n] digitsValue_def d)
    then show ?thesis unfolding ih by simp
  qed
qed

lemma parseUint_decimal: "parseUint limit (decimal n) = (if n \<le> limit then Some n else None)"
  using decimal_digits [of n] by (simp add: parseUint_def digitsValue_decimal)

lemma digit_not: "list_all isDigit ds \<Longrightarrow> \<not> isDigit c \<Longrightarrow> c \<notin> set ds"
  by (auto simp: list_all_iff)

lemma decimal_free: "\<not> isDigit c \<Longrightarrow> c \<notin> set (decimal n)"
  using decimal_digits [of n] digit_not by blast

lemma takeWhile_until: "c \<notin> set ys \<Longrightarrow> takeWhile (\<lambda>x. x \<noteq> c) (ys @ c # zs) = ys"
  by (induction ys) auto

lemma takeWhile_none: "c \<notin> set ys \<Longrightarrow> takeWhile (\<lambda>x. x \<noteq> c) ys = ys"
  by (induction ys) auto

lemma findFrom_append: "length xs = pos \<Longrightarrow> c \<notin> set ys \<Longrightarrow> findFrom c (xs @ ys @ c # zs) pos = Some (pos + length ys)"
  by (simp add: findFrom_def takeWhile_until)

lemma findFrom_None: "length xs = pos \<Longrightarrow> c \<notin> set ys \<Longrightarrow> findFrom c (xs @ ys) pos = None"
  by (simp add: findFrom_def takeWhile_none)

lemma substr_append: "length xs = pos \<Longrightarrow> length ys = n \<Longrightarrow> substr (xs @ ys @ zs) pos n = ys"
  by (simp add: substr_def)

lemma findFrom_less: "findFrom c s pos = Some i \<Longrightarrow> pos \<le> i \<and> i < length s"
  by (auto simp: findFrom_def Let_def split: if_splits)

end
