(* ===== verification/Membership.thy ===== *)
theory Membership
  imports CinderTypes Digits "HOL-Library.List_Lexorder" "HOL-Library.Char_ord"
begin

text \<open>
  The local view of the cluster (\<open>include/cinder/cluster/membership.hpp\<close>, \<open>src/cluster/membership.cpp\<close>).
  \<open>std::flat_map\<close> is a list sorted by key. An operation that may fire the change observers returns
  the new table with a flag that says whether it fires them; the observers themselves are composed in
  the theory of the node. \<open>steady_clock::now()\<close> is an argument.
\<close>

section \<open>Model\<close>

datatype NodeState = Alive | Suspect | Dead

record NodeInfo =
  ni_id :: NodeId
  ni_host :: string
  ni_port :: u16
  ni_state :: NodeState
  ni_incarnation :: u64
  ni_joined_at :: int

record MembershipTable =
  mt_self :: NodeId
  mt_nodes :: "(NodeId \<times> NodeInfo) list"

fun insertOrAssign :: "NodeId \<Rightarrow> 'v \<Rightarrow> (NodeId \<times> 'v) list \<Rightarrow> (NodeId \<times> 'v) list" where
  "insertOrAssign k v [] = [(k, v)]"
| "insertOrAssign k v ((k', v') # rest) =
     (if k < k' then (k, v) # (k', v') # rest
      else if k = k' then (k, v) # rest
      else (k', v') # insertOrAssign k v rest)"

abbreviation mtGet :: "NodeId \<Rightarrow> MembershipTable \<Rightarrow> NodeInfo option" where
  "mtGet nid t \<equiv> map_of (mt_nodes t) nid"

definition mtPut :: "NodeId \<Rightarrow> NodeInfo \<Rightarrow> MembershipTable \<Rightarrow> MembershipTable" where
  "mtPut nid info t = t\<lparr>mt_nodes := insertOrAssign nid info (mt_nodes t)\<rparr>"

definition newMembershipTable :: "NodeId \<Rightarrow> MembershipTable" where
  "newMembershipTable self = mtPut self
     \<lparr>ni_id = self, ni_host = [], ni_port = 0, ni_state = Alive, ni_incarnation = 0, ni_joined_at = 0\<rparr>
     \<lparr>mt_self = self, mt_nodes = []\<rparr>"

definition setSelfAddress :: "string \<Rightarrow> u16 \<Rightarrow> MembershipTable \<Rightarrow> MembershipTable" where
  "setSelfAddress host port t =
     (case mtGet (mt_self t) t of
        None \<Rightarrow> t
      | Some i \<Rightarrow> mtPut (mt_self t) (i\<lparr>ni_host := host, ni_port := port\<rparr>) t)"

fun seed :: "int \<Rightarrow> NodeConfig list \<Rightarrow> MembershipTable \<Rightarrow> MembershipTable" where
  "seed now [] t = t"
| "seed now (peer # peers) t =
     (if nc_id peer = mt_self t then seed now peers t
      else seed now peers (mtPut (nc_id peer)
        \<lparr>ni_id = nc_id peer, ni_host = nc_host peer, ni_port = nc_port peer, ni_state = Alive, ni_incarnation = 0,
         ni_joined_at = now\<rparr> t))"

definition refuteSelfRumor :: "NodeInfo \<Rightarrow> MembershipTable \<Rightarrow> MembershipTable \<times> bool" where
  "refuteSelfRumor rumor t =
     (case mtGet (mt_self t) t of
        None \<Rightarrow> (t, False)
      | Some self \<Rightarrow>
          let new_incarnation = max (ni_incarnation self) (ni_incarnation rumor) + 1;
              bump = ni_incarnation self \<le> ni_incarnation rumor;
              self' = (if bump then self\<lparr>ni_incarnation := new_incarnation\<rparr> else self);
              revive = ni_state self' \<noteq> Alive;
              self'' = (if revive then self'\<lparr>ni_state := Alive\<rparr> else self')
          in (mtPut (mt_self t) self'' t, bump \<or> revive))"

definition applyRumor :: "int \<Rightarrow> NodeInfo \<Rightarrow> MembershipTable \<Rightarrow> MembershipTable \<times> bool" where
  "applyRumor now rumor t =
     (case mtGet (ni_id rumor) t of
        None \<Rightarrow>
          if ni_state rumor \<noteq> Alive then (t, False)
          else (mtPut (ni_id rumor) (rumor\<lparr>ni_joined_at := now\<rparr>) t, True)
      | Some local \<Rightarrow>
          if ni_incarnation rumor < ni_incarnation local then (t, False)
          else if ni_incarnation rumor = ni_incarnation local \<and> ni_state rumor = ni_state local then (t, False)
          else if ni_id rumor = mt_self t \<and> ni_state rumor \<noteq> Alive then refuteSelfRumor rumor t
          else
            let state_changed = ni_state local \<noteq> ni_state rumor;
                incarnation_changed = ni_incarnation local \<noteq> ni_incarnation rumor;
                i = local\<lparr>ni_state := ni_state rumor, ni_incarnation := ni_incarnation rumor\<rparr>;
                i = (if ni_host i = [] \<and> ni_host rumor \<noteq> [] then i\<lparr>ni_host := ni_host rumor\<rparr> else i);
                i = (if ni_port i = 0 \<and> ni_port rumor \<noteq> 0 then i\<lparr>ni_port := ni_port rumor\<rparr> else i)
            in (mtPut (ni_id rumor) i t, state_changed \<or> incarnation_changed))"

definition markSuspect :: "NodeId \<Rightarrow> MembershipTable \<Rightarrow> MembershipTable \<times> bool" where
  "markSuspect nid t =
     (case mtGet nid t of
        None \<Rightarrow> (t, False)
      | Some i \<Rightarrow>
          if ni_state i = Dead then (t, False)
          else if ni_state i = Suspect then (t, False)
          else (mtPut nid (i\<lparr>ni_state := Suspect\<rparr>) t, True))"

definition markDead :: "NodeId \<Rightarrow> MembershipTable \<Rightarrow> MembershipTable \<times> bool" where
  "markDead nid t =
     (case mtGet nid t of
        None \<Rightarrow> (t, False)
      | Some i \<Rightarrow> if ni_state i = Dead then (t, False) else (mtPut nid (i\<lparr>ni_state := Dead\<rparr>) t, True))"

definition markAlive :: "int \<Rightarrow> NodeId \<Rightarrow> u64 \<Rightarrow> MembershipTable \<Rightarrow> MembershipTable \<times> bool" where
  "markAlive now nid incarnation t =
     (case mtGet nid t of
        None \<Rightarrow> (t, False)
      | Some i \<Rightarrow>
          if ni_state i = Alive \<and> incarnation \<le> ni_incarnation i then (t, False)
          else
            let i = (if ni_state i \<noteq> Alive then i\<lparr>ni_joined_at := now\<rparr> else i)
            in (mtPut nid (i\<lparr>ni_state := Alive, ni_incarnation := incarnation\<rparr>) t, True))"

definition mtSnapshot :: "MembershipTable \<Rightarrow> NodeInfo list" where
  "mtSnapshot t = map snd (mt_nodes t)"

definition aliveCount :: "MembershipTable \<Rightarrow> nat" where
  "aliveCount t = length (filter (\<lambda>i. ni_state i = Alive) (mtSnapshot t))"

definition visibleAliveCount :: "MembershipTable \<Rightarrow> nat" where
  "visibleAliveCount t = length (filter (\<lambda>i. ni_state i = Alive) (mtSnapshot t))"

definition expectedClusterSize :: "MembershipTable \<Rightarrow> nat" where
  "expectedClusterSize t = length (mt_nodes t)"

definition isDegraded :: "MembershipTable \<Rightarrow> bool" where
  "isDegraded t =
     (let total = length (mt_nodes t) in
      if total = 0 then True else visibleAliveCount t < total div 2 + 1)"

definition K_NS_PER_MS :: int where "K_NS_PER_MS = 1000000"

definition isQuarantined :: "NodeId \<Rightarrow> int \<Rightarrow> int \<Rightarrow> MembershipTable \<Rightarrow> bool" where
  "isQuarantined nid now quarantine_ms t =
     (if quarantine_ms \<le> 0 then False
      else case mtGet nid t of
        None \<Rightarrow> False
      | Some i \<Rightarrow> if ni_state i \<noteq> Alive then False else now - ni_joined_at i < quarantine_ms * K_NS_PER_MS)"

section \<open>Invariant\<close>

definition table_ok :: "MembershipTable \<Rightarrow> bool" where
  "table_ok t \<longleftrightarrow> sorted_wrt (<) (map fst (mt_nodes t)) \<and> (\<forall>(k, i) \<in> set (mt_nodes t). ni_id i = k) \<and> mt_self t \<in> fst ` set (mt_nodes t)"

lemma set_insertOrAssign: "set (map fst (insertOrAssign k v xs)) = insert k (set (map fst xs))"
  by (induction k v xs rule: insertOrAssign.induct) auto

lemma map_of_insertOrAssign: "sorted_wrt (<) (map fst xs) \<Longrightarrow> map_of (insertOrAssign k v xs) = (map_of xs)(k \<mapsto> v)"
  by (induction k v xs rule: insertOrAssign.induct) (auto simp: fun_eq_iff)

lemma sorted_insertOrAssign: "sorted_wrt (<) (map fst xs) \<Longrightarrow> sorted_wrt (<) (map fst (insertOrAssign k v xs))"
proof (induction k v xs rule: insertOrAssign.induct)
  case (2 k v k' v' rest)
  then show ?case using set_insertOrAssign [of k v rest] by (auto simp del: set_map)
qed simp

lemma sorted_wrt_distinct: "sorted_wrt (<) (xs :: 'a :: linorder list) \<Longrightarrow> distinct xs"
  by (simp add: strict_sorted_iff)

lemma table_okD:
  assumes "table_ok t"
  shows "sorted_wrt (<) (map fst (mt_nodes t))" "mtGet k t = Some i \<Longrightarrow> ni_id i = k" "\<exists>i. mtGet (mt_self t) t = Some i"
    "distinct (map fst (mt_nodes t))"
proof -
  show "sorted_wrt (<) (map fst (mt_nodes t))" using assms by (simp add: table_ok_def)
  then show "distinct (map fst (mt_nodes t))" by (rule sorted_wrt_distinct)
  show "mtGet k t = Some i \<Longrightarrow> ni_id i = k" using assms by (auto simp: table_ok_def dest: map_of_SomeD)
  show "\<exists>i. mtGet (mt_self t) t = Some i" using assms by (metis table_ok_def map_of_eq_None_iff option.exhaust)
qed

lemma mtPut_get [simp]: "table_ok t \<Longrightarrow> mtGet k (mtPut nid i t) = (if k = nid then Some i else mtGet k t)"
  by (simp add: mtPut_def map_of_insertOrAssign table_ok_def)

lemma mtPut_self [simp]: "mt_self (mtPut nid i t) = mt_self t"
  by (simp add: mtPut_def)

lemma mtPut_ok [simp]: "table_ok t \<Longrightarrow> ni_id i = nid \<Longrightarrow> table_ok (mtPut nid i t)"
proof -
  assume ok: "table_ok t" and i: "ni_id i = nid"
  have s: "sorted_wrt (<) (map fst (mt_nodes (mtPut nid i t)))" using ok by (simp add: mtPut_def table_ok_def sorted_insertOrAssign)
  have "ni_id j = k" if "(k, j) \<in> set (mt_nodes (mtPut nid i t))" for k j
  proof -
    have "mtGet k (mtPut nid i t) = Some j" using that sorted_wrt_distinct [OF s] by (simp add: map_of_is_SomeI)
    then show ?thesis using ok i by (auto split: if_splits dest: table_okD(2))
  qed
  moreover have "mt_self t \<in> fst ` set (mt_nodes (mtPut nid i t))"
    using ok set_insertOrAssign [of nid i "mt_nodes t"] by (simp add: table_ok_def mtPut_def)
  ultimately show ?thesis using s by (auto simp: table_ok_def)
qed

lemma newMembershipTable_ok: "table_ok (newMembershipTable self)" "mtGet self (newMembershipTable self) \<noteq> None"
  "mt_self (newMembershipTable self) = self"
  by (simp_all add: newMembershipTable_def mtPut_def table_ok_def)

end
