(* ===== verification/Gossip.thy ===== *)
theory Gossip
  imports Membership
begin

text \<open>
  Membership dissemination (\<open>include/cinder/cluster/gossip.hpp\<close>, \<open>src/cluster/gossip.cpp\<close>): the text codec of
  a view and what a round or a leave sends; the message handler is in the theory of the node. The peer a round targets is drawn by a random generator
  outside the model, so a round takes the drawn index as argument and returns what it sends.
\<close>

section \<open>Model\<close>

fun stateName :: "NodeState \<Rightarrow> string" where
  "stateName Alive = ''alive''"
| "stateName Suspect = ''suspect''"
| "stateName Dead = ''dead''"

definition encodeEntry :: "NodeInfo \<Rightarrow> string" where
  "encodeEntry info = ni_id info @ ''@'' @ ni_host info @ '':'' @ decimal (unat (ni_port info)) @ '':''
     @ stateName (ni_state info) @ '':'' @ decimal (unat (ni_incarnation info))"

definition encodeView :: "NodeInfo list \<Rightarrow> string" where
  "encodeView view = fold (\<lambda>info out. (if out \<noteq> [] then out @ '';'' else out) @ encodeEntry info) view []"

definition parseState :: "string \<Rightarrow> NodeState option" where
  "parseState s = (if s = ''alive'' then Some Alive else if s = ''suspect'' then Some Suspect
     else if s = ''dead'' then Some Dead else None)"

definition parseEntry :: "string \<Rightarrow> NodeInfo option" where
  "parseEntry entry =
     (case findFrom CHR ''@'' entry 0 of
        None \<Rightarrow> None
      | Some at \<Rightarrow>
      (case findFrom CHR '':'' entry at of
         None \<Rightarrow> None
       | Some colon1 \<Rightarrow>
       (case findFrom CHR '':'' entry (colon1 + 1) of
          None \<Rightarrow> None
        | Some colon2 \<Rightarrow>
        (case findFrom CHR '':'' entry (colon2 + 1) of
           None \<Rightarrow> None
         | Some colon3 \<Rightarrow>
         (case parseUint 65535 (substr entry (colon1 + 1) (colon2 - colon1 - 1)) of
            None \<Rightarrow> None
          | Some port \<Rightarrow>
          (case parseState (substr entry (colon2 + 1) (colon3 - colon2 - 1)) of
             None \<Rightarrow> None
           | Some state \<Rightarrow>
           (case parseUint 18446744073709551615 (drop (colon3 + 1) entry) of
              None \<Rightarrow> None
            | Some incarnation \<Rightarrow>
                Some \<lparr>ni_id = substr entry 0 at, ni_host = substr entry (at + 1) (colon1 - at - 1), ni_port = of_nat port,
                  ni_state = state, ni_incarnation = of_nat incarnation, ni_joined_at = 0\<rparr>)))))))"

function decodeFrom :: "string \<Rightarrow> nat \<Rightarrow> NodeInfo list" where
  "decodeFrom value start =
     (if start < length value then
        let end = findFrom CHR '';'' value start;
            entry = substr value start (case end of None \<Rightarrow> length value - start | Some e \<Rightarrow> e - start);
            found = (if entry = [] then [] else case parseEntry entry of None \<Rightarrow> [] | Some info \<Rightarrow> [info])
        in (case end of None \<Rightarrow> found | Some e \<Rightarrow> found @ decodeFrom value (e + 1))
      else [])"
  by pat_completeness auto
termination
  by (relation "measure (\<lambda>(value, start). length value - start)") (auto dest!: findFrom_less [OF sym])

declare decodeFrom.simps [simp del]

definition decodeView :: "string \<Rightarrow> NodeInfo list" where
  "decodeView value = decodeFrom value 0"

text \<open>The peers a manager gossips to, and what it sends.\<close>

definition rebuildPeers :: "NodeId \<Rightarrow> MembershipTable \<Rightarrow> NodeId list" where
  "rebuildPeers self t = sort (map ni_id (filter (\<lambda>i. ni_id i \<noteq> self) (mtSnapshot t)))"

definition gossipTick :: "nat \<Rightarrow> NodeId list \<Rightarrow> MembershipTable \<Rightarrow> (NodeId \<times> string) option" where
  "gossipTick draw peers t =
     (if peers = [] then None else Some (peers ! (draw mod length peers), encodeView (mtSnapshot t)))"

definition gossipLeave :: "NodeId \<Rightarrow> NodeId list \<Rightarrow> MembershipTable \<Rightarrow> (NodeId \<times> string) list \<times> MembershipTable" where
  "gossipLeave self peers t =
     (let t' = fst (markDead self t) in (map (\<lambda>p. (p, encodeView (mtSnapshot t'))) peers, t'))"

section \<open>The view codec\<close>

text \<open>What a node name and a host must avoid for the text format to be unambiguous.\<close>

definition plainInfo :: "NodeInfo \<Rightarrow> bool" where
  "plainInfo i \<longleftrightarrow> CHR ''@'' \<notin> set (ni_id i) \<and> CHR '';'' \<notin> set (ni_id i) \<and> CHR '':'' \<notin> set (ni_host i) \<and> CHR '';'' \<notin> set (ni_host i)"

lemma not_digits: "\<not> isDigit CHR '':''" "\<not> isDigit CHR '';''" "\<not> isDigit CHR ''@''"
  by (simp_all add: isDigit_def)

lemma stateName_plain: "CHR '':'' \<notin> set (stateName st)" "CHR '';'' \<notin> set (stateName st)" "parseState (stateName st) = Some st"
  by (cases st; simp add: parseState_def)+

lemma encodeEntry_nonempty: "encodeEntry i \<noteq> []"
  by (simp add: encodeEntry_def)

lemma encodeEntry_free: "plainInfo i \<Longrightarrow> CHR '';'' \<notin> set (encodeEntry i)"
  using stateName_plain(2) [of "ni_state i"] decimal_free [OF not_digits(2)] by (simp add: encodeEntry_def plainInfo_def)

lemma parse_encodeEntry:
  assumes "plainInfo i"
  shows "parseEntry (encodeEntry i) = Some (i\<lparr>ni_joined_at := 0\<rparr>)"
proof -
  let ?e = "encodeEntry i" and ?id = "ni_id i" and ?h = "ni_host i" and ?p = "decimal (unat (ni_port i))"
    and ?s = "stateName (ni_state i)" and ?n = "decimal (unat (ni_incarnation i))"
  define at where "at = length ?id"
  define c1 where "c1 = at + 1 + length ?h"
  define c2 where "c2 = c1 + 1 + length ?p"
  define c3 where "c3 = c2 + 1 + length ?s"
  note p = assms [unfolded plainInfo_def]
  have e: "?e = ?id @ CHR ''@'' # ?h @ CHR '':'' # ?p @ CHR '':'' # ?s @ CHR '':'' # ?n" by (simp add: encodeEntry_def)
  have f0: "findFrom CHR ''@'' ?e 0 = Some at"
    using findFrom_append [of "[]" 0 "CHR ''@''" ?id] p by (simp add: e at_def)
  have f1: "findFrom CHR '':'' ?e at = Some c1"
    using findFrom_append [of ?id at "CHR '':''" "CHR ''@'' # ?h"] p by (simp add: e at_def c1_def)
  have f2: "findFrom CHR '':'' ?e (c1 + 1) = Some c2"
    using findFrom_append [of "?id @ CHR ''@'' # ?h @ '':''" "c1 + 1" "CHR '':''" ?p] decimal_free [OF not_digits(1)]
    by (simp add: e at_def c1_def c2_def)
  have f3: "findFrom CHR '':'' ?e (c2 + 1) = Some c3"
    using findFrom_append [of "?id @ CHR ''@'' # ?h @ CHR '':'' # ?p @ '':''" "c2 + 1" "CHR '':''" ?s] stateName_plain(1)
    by (simp add: e at_def c1_def c2_def c3_def)
  have s0: "substr ?e 0 at = ?id" using substr_append [of "[]" 0 ?id at] by (simp add: e at_def)
  have s1: "substr ?e (at + 1) (c1 - at - 1) = ?h"
    using substr_append [of "?id @ ''@''" "at + 1" ?h "c1 - at - 1"] by (simp add: e at_def c1_def)
  have s2: "substr ?e (c1 + 1) (c2 - c1 - 1) = ?p"
    using substr_append [of "?id @ CHR ''@'' # ?h @ '':''" "c1 + 1" ?p "c2 - c1 - 1"] by (simp add: e at_def c1_def c2_def)
  have s3: "substr ?e (c2 + 1) (c3 - c2 - 1) = ?s"
    using substr_append [of "?id @ CHR ''@'' # ?h @ CHR '':'' # ?p @ '':''" "c2 + 1" ?s "c3 - c2 - 1"]
    by (simp add: e at_def c1_def c2_def c3_def)
  have "?e = (?id @ CHR ''@'' # ?h @ CHR '':'' # ?p @ CHR '':'' # ?s @ '':'') @ ?n" by (simp add: e)
  moreover have "length (?id @ CHR ''@'' # ?h @ CHR '':'' # ?p @ CHR '':'' # ?s @ '':'') = c3 + 1"
    by (simp add: at_def c1_def c2_def c3_def)
  ultimately have s4: "drop (c3 + 1) ?e = ?n" by (metis append_eq_conv_conj)
  have lim: "unat (ni_port i) \<le> 65535" "unat (ni_incarnation i) \<le> 18446744073709551615"
    using unat_lt_u16 [of "ni_port i"] unat_lt_u64 [of "ni_incarnation i"] by linarith+
  show ?thesis
    unfolding parseEntry_def f0 option.case f1 f2 f3 s0 s1 s2 s3 s4 parseUint_decimal stateName_plain(3)
    using lim by simp
qed

lemma decodeFrom_skip: "decodeFrom (xs @ ys) (length xs + k) = decodeFrom ys k"
proof (induction ys k rule: decodeFrom.induct)
  case (1 ys k)
  have f: "findFrom c (xs @ ys) (length xs + k) = map_option (\<lambda>e. length xs + e) (findFrom c ys k)" for c
    by (simp add: findFrom_def Let_def)
  have s: "substr (xs @ ys) (length xs + k) n = substr ys k n" for n by (simp add: substr_def)
  have ih: "decodeFrom (xs @ ys) (length xs + e + 1) = decodeFrom ys (e + 1)" if "k < length ys" "findFrom CHR '';'' ys k = Some e" for e
    using 1 [OF that(1) refl refl refl that(2)] by (simp add: add.assoc)
  show ?case
    unfolding decodeFrom.simps [of "xs @ ys" "length xs + k"] decodeFrom.simps [of ys k] f s
    using ih by (auto simp: Let_def split: option.split)
qed

lemma decode_entry:
  "plainInfo i \<Longrightarrow> decodeView (encodeEntry i) = [i\<lparr>ni_joined_at := 0\<rparr>]"
  "plainInfo i \<Longrightarrow> decodeView (encodeEntry i @ CHR '';'' # rest) = i\<lparr>ni_joined_at := 0\<rparr> # decodeView rest"
proof -
  assume p: "plainInfo i"
  note free = encodeEntry_free [OF p] and parse = parse_encodeEntry [OF p]
  have "findFrom CHR '';'' (encodeEntry i) 0 = None" using findFrom_None [of "[]" 0] free by simp
  then show "decodeView (encodeEntry i) = [i\<lparr>ni_joined_at := 0\<rparr>]"
    using parse encodeEntry_nonempty [of i] by (simp add: decodeView_def decodeFrom.simps [of "encodeEntry i" 0] substr_def)
  have "findFrom CHR '';'' (encodeEntry i @ CHR '';'' # rest) 0 = Some (length (encodeEntry i))"
    using findFrom_append [of "[]" 0] free by simp
  moreover have "decodeFrom (encodeEntry i @ CHR '';'' # rest) (length (encodeEntry i) + 1) = decodeFrom rest 0"
    using decodeFrom_skip [of "encodeEntry i @ '';''" rest 0] by simp
  ultimately show "decodeView (encodeEntry i @ CHR '';'' # rest) = i\<lparr>ni_joined_at := 0\<rparr> # decodeView rest"
    using parse encodeEntry_nonempty [of i] by (simp add: decodeView_def decodeFrom.simps [of "encodeEntry i @ CHR '';'' # rest" 0] substr_def)
qed

text \<open>The string an encoder has built so far stays a prefix.\<close>

lemma encode_fold:
  "out \<noteq> [] \<Longrightarrow> fold (\<lambda>info out. (if out \<noteq> [] then out @ '';'' else out) @ encodeEntry info) view out
    = out @ concat (map (\<lambda>i. CHR '';'' # encodeEntry i) view)"
  by (induction view arbitrary: out) (simp_all add: encodeEntry_nonempty)

lemma encodeView_Cons: "encodeView (i # view) = encodeEntry i @ (if view = [] then [] else CHR '';'' # encodeView view)"
  by (cases view) (simp_all add: encodeView_def encode_fold encodeEntry_nonempty)

text \<open>
  C38. A gossip view survives the text codec: decoding an encoded view gives back every entry (its join
  time apart, which is local), for any number of entries, when node names contain neither \<open>@\<close> nor \<open>;\<close> and
  hosts contain neither \<open>:\<close> nor \<open>;\<close>.
\<close>

theorem gossip_roundtrip:
  assumes "\<forall>i \<in> set view. plainInfo i"
  shows "decodeView (encodeView view) = map (\<lambda>i. i\<lparr>ni_joined_at := 0\<rparr>) view"
  using assms
proof (induction view)
  case Nil
  then show ?case by (simp add: encodeView_def decodeView_def decodeFrom.simps [of "[]" 0])
next
  case (Cons i view)
  then show ?case by (auto simp: encodeView_Cons decode_entry)
qed

theorem gossip_roundtrip_witness:
  "decodeView (encodeView [\<lparr>ni_id = ''n1'', ni_host = ''10.0.0.1'', ni_port = 7000, ni_state = Suspect, ni_incarnation = 3, ni_joined_at = 5\<rparr>])
    = [\<lparr>ni_id = ''n1'', ni_host = ''10.0.0.1'', ni_port = 7000, ni_state = Suspect, ni_incarnation = 3, ni_joined_at = 0\<rparr>]"
  using gossip_roundtrip [of "[\<lparr>ni_id = ''n1'', ni_host = ''10.0.0.1'', ni_port = 7000, ni_state = Suspect, ni_incarnation = 3, ni_joined_at = 5\<rparr>]"]
  by (simp add: plainInfo_def)

end
