(* ===== verification/FailureDetector.thy ===== *)
theory FailureDetector
  imports Membership
begin

unbundle bit_operations_syntax

text \<open>
  Liveness probing (\<open>include/cinder/cluster/failure_detector.hpp\<close>, \<open>src/cluster/failure_detector.cpp\<close>).
  The parts of \<open>tick\<close> and \<open>onProbeResult\<close> that run under \<open>state_mutex_\<close> are functions here; they return the
  membership changes and the ping that the code performs after releasing the lock. The per-peer map
  iterates in insertion order. One clock sample serves a whole call.
\<close>

section \<open>Model\<close>

definition K_SUSPECT_THRESHOLD :: int where "K_SUSPECT_THRESHOLD = 2"

record PeerState =
  ps_sent_at :: int
  ps_suspect_since :: int
  ps_flags :: u8
  ps_failures :: int

definition emptyPeerState :: PeerState where
  "emptyPeerState = \<lparr>ps_sent_at = 0, ps_suspect_since = 0, ps_flags = 0, ps_failures = 0\<rparr>"

definition probePending :: "PeerState \<Rightarrow> bool" where
  "probePending s \<longleftrightarrow> ps_flags s AND 0x01 \<noteq> 0"

definition setProbePending :: "bool \<Rightarrow> PeerState \<Rightarrow> PeerState" where
  "setProbePending pending s = s\<lparr>ps_flags := (ps_flags s AND NOT 0x01) OR (if pending then 0x01 else 0)\<rparr>"

definition isSuspected :: "PeerState \<Rightarrow> bool" where
  "isSuspected s \<longleftrightarrow> ps_flags s AND 0x02 \<noteq> 0"

definition setSuspected :: "bool \<Rightarrow> PeerState \<Rightarrow> PeerState" where
  "setSuspected suspected s = s\<lparr>ps_flags := (ps_flags s AND NOT 0x02) OR (if suspected then 0x02 else 0)\<rparr>"

record FailureDetector =
  fd_self :: NodeId
  fd_timeout_ms :: int
  fd_peers :: "NodeId list"
  fd_next_peer :: nat
  fd_state :: "(NodeId \<times> PeerState) list"

fun putState :: "NodeId \<Rightarrow> PeerState \<Rightarrow> (NodeId \<times> PeerState) list \<Rightarrow> (NodeId \<times> PeerState) list" where
  "putState p s [] = [(p, s)]"
| "putState p s ((q, s') # rest) = (if p = q then (p, s) # rest else (q, s') # putState p s rest)"

definition newFailureDetector :: "NodeId \<Rightarrow> int \<Rightarrow> FailureDetector" where
  "newFailureDetector self timeout_ms =
     \<lparr>fd_self = self, fd_timeout_ms = timeout_ms, fd_peers = [], fd_next_peer = 0, fd_state = []\<rparr>"

definition fdRebuildPeers :: "MembershipTable \<Rightarrow> FailureDetector \<Rightarrow> FailureDetector" where
  "fdRebuildPeers t fd =
     fd\<lparr>fd_peers := sort (map ni_id (filter (\<lambda>i. ni_id i \<noteq> fd_self fd) (mtSnapshot t)))\<rparr>"

definition probeExpired :: "int \<Rightarrow> FailureDetector \<Rightarrow> PeerState \<Rightarrow> bool" where
  "probeExpired now fd s \<longleftrightarrow> probePending s \<and> now - ps_sent_at s > fd_timeout_ms fd * K_NS_PER_MS"

definition sweepProbes :: "int \<Rightarrow> FailureDetector \<Rightarrow> FailureDetector \<times> NodeId list" where
  "sweepProbes now fd =
     (fd\<lparr>fd_state := map (\<lambda>(p, s). (p, if probeExpired now fd s then setProbePending False s else s)) (fd_state fd)\<rparr>,
      map fst (filter (\<lambda>(p, s). probeExpired now fd s) (fd_state fd)))"

definition shouldEscalate :: "int \<Rightarrow> MembershipTable \<Rightarrow> FailureDetector \<Rightarrow> NodeId \<times> PeerState \<Rightarrow> bool" where
  "shouldEscalate now t fd ps =
     (case ps of (p, s) \<Rightarrow>
        if \<not> isSuspected s then False
        else (case mtGet p t of
           None \<Rightarrow> False
         | Some i \<Rightarrow> if ni_state i \<noteq> Suspect then False else now - ps_suspect_since s > fd_timeout_ms fd * K_NS_PER_MS))"

definition escalateSuspects :: "int \<Rightarrow> MembershipTable \<Rightarrow> FailureDetector \<Rightarrow> FailureDetector \<times> NodeId list" where
  "escalateSuspects now t fd =
     (let to_dead = map fst (filter (shouldEscalate now t fd) (fd_state fd))
      in (fd\<lparr>fd_state := map (\<lambda>(p, s). (p, if p \<in> set to_dead then (setSuspected False s)\<lparr>ps_failures := 0\<rparr> else s)) (fd_state fd)\<rparr>,
          to_dead))"

text \<open>The round robin: at most one attempt per peer.\<close>

fun pickProbe :: "nat \<Rightarrow> int \<Rightarrow> MembershipTable \<Rightarrow> FailureDetector \<Rightarrow> FailureDetector \<times> NodeId option" where
  "pickProbe 0 now t fd = (fd, None)"
| "pickProbe (Suc attempts) now t fd =
     (let n = length (fd_peers fd);
          peer = fd_peers fd ! (fd_next_peer fd mod n);
          fd = fd\<lparr>fd_next_peer := (fd_next_peer fd + 1) mod n\<rparr>
      in if peer = fd_self fd then pickProbe attempts now t fd
         else if (case map_of (fd_state fd) peer of None \<Rightarrow> False | Some s \<Rightarrow> probePending s) then pickProbe attempts now t fd
         else if (case mtGet peer t of None \<Rightarrow> False | Some i \<Rightarrow> ni_state i = Dead) then pickProbe attempts now t fd
         else
           let s = (case map_of (fd_state fd) peer of None \<Rightarrow> emptyPeerState | Some s \<Rightarrow> s);
               s = (setProbePending True s)\<lparr>ps_sent_at := now\<rparr>
           in (fd\<lparr>fd_state := putState peer s (fd_state fd)\<rparr>, Some peer))"

definition fdTickLocked :: "int \<Rightarrow> MembershipTable \<Rightarrow> FailureDetector \<Rightarrow> FailureDetector \<times> NodeId list \<times> NodeId list \<times> NodeId option" where
  "fdTickLocked now t fd =
     (case sweepProbes now fd of (fd, timed_out) \<Rightarrow>
      case escalateSuspects now t fd of (fd, dead) \<Rightarrow>
      case (if fd_peers fd = [] then (fd, None) else pickProbe (length (fd_peers fd)) now t fd) of (fd, probe) \<Rightarrow>
        (fd, timed_out, dead, probe))"

text \<open>Nothing is returned for an unknown peer; otherwise the length of its failure streak.\<close>

definition onProbeResultLocked :: "int \<Rightarrow> NodeId \<Rightarrow> bool \<Rightarrow> FailureDetector \<Rightarrow> FailureDetector \<times> int option" where
  "onProbeResultLocked now peer acked fd =
     (case map_of (fd_state fd) peer of
        None \<Rightarrow> (fd, None)
      | Some s \<Rightarrow>
          let s = setProbePending False s in
          if acked then
            (fd\<lparr>fd_state := putState peer ((setSuspected False s)\<lparr>ps_failures := 0\<rparr>) (fd_state fd)\<rparr>, Some 0)
          else
            let failures = ps_failures s + 1;
                s = s\<lparr>ps_failures := failures\<rparr>;
                s = (if isSuspected s then s else (setSuspected True s)\<lparr>ps_suspect_since := now\<rparr>)
            in (fd\<lparr>fd_state := putState peer s (fd_state fd)\<rparr>, Some failures))"

section \<open>Flags\<close>

lemma flag_bits: "probePending s \<longleftrightarrow> bit (ps_flags s) 0" "isSuspected s \<longleftrightarrow> bit (ps_flags s) 1"
  using and_exp_eq_0_iff_not_bit [of "ps_flags s" 0] and_exp_eq_0_iff_not_bit [of "ps_flags s" 1]
  by (simp_all add: probePending_def isSuspected_def)

lemma bits_masks: "bit (0x01 :: u8) n \<longleftrightarrow> n = 0" "bit (0x02 :: u8) n \<longleftrightarrow> n = 1"
proof -
  show "bit (0x01 :: u8) n \<longleftrightarrow> n = 0" by (simp add: bit_1_iff)
  have "bit ((2 :: u8) ^ 1) n \<longleftrightarrow> n = 1" unfolding bit_exp_iff by auto
  then show "bit (0x02 :: u8) n \<longleftrightarrow> n = 1" by simp
qed

lemma flags_set [simp]:
  "probePending (setProbePending b s) \<longleftrightarrow> b" "isSuspected (setProbePending b s) \<longleftrightarrow> isSuspected s"
  "isSuspected (setSuspected b s) \<longleftrightarrow> b" "probePending (setSuspected b s) \<longleftrightarrow> probePending s"
  by (auto simp: flag_bits setProbePending_def setSuspected_def bit_or_iff bit_and_iff bit_not_iff bits_masks)

lemma flags_update [simp]:
  "probePending (s\<lparr>ps_sent_at := x\<rparr>) = probePending s" "probePending (s\<lparr>ps_suspect_since := x\<rparr>) = probePending s"
  "probePending (s\<lparr>ps_failures := y\<rparr>) = probePending s"
  "isSuspected (s\<lparr>ps_sent_at := x\<rparr>) = isSuspected s" "isSuspected (s\<lparr>ps_suspect_since := x\<rparr>) = isSuspected s"
  "isSuspected (s\<lparr>ps_failures := y\<rparr>) = isSuspected s"
  by (simp_all add: probePending_def isSuspected_def)

lemma fields_set [simp]:
  "ps_failures (setProbePending b s) = ps_failures s" "ps_failures (setSuspected b s) = ps_failures s"
  "ps_suspect_since (setProbePending b s) = ps_suspect_since s" "ps_suspect_since (setSuspected b s) = ps_suspect_since s"
  by (simp_all add: setProbePending_def setSuspected_def)

lemma map_of_putState [simp]: "map_of (putState p s xs) = (map_of xs)(p \<mapsto> s)"
  by (induction p s xs rule: putState.induct) (auto simp: fun_eq_iff)

lemma keys_putState: "set (map fst (putState p s xs)) = insert p (set (map fst xs))"
  by (induction p s xs rule: putState.induct) auto

lemma distinct_putState: "distinct (map fst xs) \<Longrightarrow> distinct (map fst (putState p s xs))"
proof (induction p s xs rule: putState.induct)
  case (2 p s q s' rest)
  then show ?case using keys_putState [of p s rest] by (auto simp del: set_map)
qed simp

section \<open>What the locked sections keep\<close>

definition sameConfig :: "FailureDetector \<Rightarrow> FailureDetector \<Rightarrow> bool" where
  "sameConfig fd fd' \<longleftrightarrow> fd_self fd' = fd_self fd \<and> fd_timeout_ms fd' = fd_timeout_ms fd \<and> fd_peers fd' = fd_peers fd"

lemma pickProbe_keeps:
  "fd_peers fd \<noteq> [] \<Longrightarrow> pickProbe n now t fd = (fd', probe) \<Longrightarrow> distinct (map fst (fd_state fd)) \<Longrightarrow>
   sameConfig fd fd' \<and> distinct (map fst (fd_state fd'))
   \<and> (case probe of
        None \<Rightarrow> fd_state fd' = fd_state fd
      | Some p \<Rightarrow> p \<in> set (fd_peers fd) \<and> p \<noteq> fd_self fd \<and> (\<exists>s. fd_state fd' = putState p s (fd_state fd) \<and> probePending s \<and> ps_sent_at s = now
            \<and> (\<forall>s0. map_of (fd_state fd) p = Some s0 \<longrightarrow> isSuspected s = isSuspected s0 \<and> ps_failures s = ps_failures s0))
          \<and> (\<forall>i. mtGet p t = Some i \<longrightarrow> ni_state i \<noteq> Dead))"
proof (induction n now t fd arbitrary: fd' probe rule: pickProbe.induct)
  case (1 now t fd)
  then show ?case by (auto simp: sameConfig_def)
next
  case (2 n now t fd)
  let ?len = "length (fd_peers fd)"
  define peer where "peer = fd_peers fd ! (fd_next_peer fd mod ?len)"
  define fd1 where "fd1 = fd\<lparr>fd_next_peer := (fd_next_peer fd + 1) mod ?len\<rparr>"
  define busy where "busy \<longleftrightarrow> (case map_of (fd_state fd1) peer of None \<Rightarrow> False | Some s \<Rightarrow> probePending s)"
  define dead where "dead \<longleftrightarrow> (case mtGet peer t of None \<Rightarrow> False | Some i \<Rightarrow> ni_state i = Dead)"
  have mem: "peer \<in> set (fd_peers fd)" using 2(4) by (simp add: peer_def)
  have f1: "fd_state fd1 = fd_state fd" "fd_peers fd1 = fd_peers fd" "fd_self fd1 = fd_self fd" "fd_timeout_ms fd1 = fd_timeout_ms fd"
    by (simp_all add: fd1_def)
  have step: "pickProbe (Suc n) now t fd = (if peer = fd_self fd1 \<or> busy \<or> dead then pickProbe n now t fd1
      else (fd1\<lparr>fd_state := putState peer ((setProbePending True (case map_of (fd_state fd1) peer of None \<Rightarrow> emptyPeerState | Some s \<Rightarrow> s))
         \<lparr>ps_sent_at := now\<rparr>) (fd_state fd1)\<rparr>, Some peer))"
    by (simp add: Let_def peer_def fd1_def busy_def dead_def)
  show ?case
  proof (cases "peer = fd_self fd1 \<or> busy \<or> dead")
    case True
    then have run: "pickProbe n now t fd1 = (fd', probe)" using step 2(5) by simp
    have ih: "sameConfig fd1 fd' \<and> distinct (map fst (fd_state fd'))
      \<and> (case probe of
        None \<Rightarrow> fd_state fd' = fd_state fd1
      | Some p \<Rightarrow> p \<in> set (fd_peers fd1) \<and> p \<noteq> fd_self fd1 \<and> (\<exists>s. fd_state fd' = putState p s (fd_state fd1) \<and> probePending s \<and> ps_sent_at s = now
            \<and> (\<forall>s0. map_of (fd_state fd1) p = Some s0 \<longrightarrow> isSuspected s = isSuspected s0 \<and> ps_failures s = ps_failures s0))
          \<and> (\<forall>i. mtGet p t = Some i \<longrightarrow> ni_state i \<noteq> Dead))"
    proof -
      consider (self) "peer = fd_self fd1" | (busy) "peer \<noteq> fd_self fd1" busy | (dead) "peer \<noteq> fd_self fd1" "\<not> busy" dead
        using True by blast
      then show ?thesis
      proof cases
        case self
        show ?thesis by (rule 2(1) [OF refl peer_def fd1_def self _ run]) (use 2(4,6) f1 in auto)
      next
        case busy
        show ?thesis by (rule 2(2) [OF refl peer_def fd1_def busy(1) busy(2) [unfolded busy_def] _ run]) (use 2(4,6) f1 in auto)
      next
        case dead
        show ?thesis by (rule 2(3) [OF refl peer_def fd1_def dead(1) dead(2) [unfolded busy_def] dead(3) [unfolded dead_def] _ run])
          (use 2(4,6) f1 in auto)
      qed
    qed
    then show ?thesis unfolding sameConfig_def f1 .
  next
    case False
    define s where "s = (setProbePending True (case map_of (fd_state fd1) peer of None \<Rightarrow> emptyPeerState | Some s \<Rightarrow> s))\<lparr>ps_sent_at := now\<rparr>"
    have r: "fd' = fd1\<lparr>fd_state := putState peer s (fd_state fd1)\<rparr>" "probe = Some peer"
      using step 2(5) False by (simp_all add: s_def)
    have "\<forall>i. mtGet peer t = Some i \<longrightarrow> ni_state i \<noteq> Dead" using False by (auto simp: dead_def)
    moreover have "probePending s \<and> ps_sent_at s = now
        \<and> (\<forall>s0. map_of (fd_state fd) peer = Some s0 \<longrightarrow> isSuspected s = isSuspected s0 \<and> ps_failures s = ps_failures s0)"
      by (simp add: s_def f1)
    ultimately show ?thesis using mem False f1 2(6) by (auto simp: r sameConfig_def distinct_putState)
  qed
qed

lemma sweepProbes_keeps:
  assumes "sweepProbes now fd = (fd', timed_out)"
  shows "sameConfig fd fd'" "map fst (fd_state fd') = map fst (fd_state fd)" "set timed_out \<subseteq> set (map fst (fd_state fd))"
    "map_of (fd_state fd') p = map_option (\<lambda>s. if probeExpired now fd s then setProbePending False s else s) (map_of (fd_state fd) p)"
proof -
  have m: "map_of (map (\<lambda>(p, s). (p, g s)) xs) p = map_option g (map_of xs p)" for g :: "PeerState \<Rightarrow> PeerState" and xs
    by (induction xs) auto
  show "map_of (fd_state fd') p = map_option (\<lambda>s. if probeExpired now fd s then setProbePending False s else s) (map_of (fd_state fd) p)"
    using assms m [of "\<lambda>s. if probeExpired now fd s then setProbePending False s else s"] by (auto simp: sweepProbes_def)
  show "sameConfig fd fd'" "map fst (fd_state fd') = map fst (fd_state fd)" "set timed_out \<subseteq> set (map fst (fd_state fd))"
    using assms by (auto simp: sweepProbes_def sameConfig_def split_def)
qed

lemma escalateSuspects_keeps:
  assumes "escalateSuspects now t fd = (fd', dead)"
  shows "sameConfig fd fd'" "map fst (fd_state fd') = map fst (fd_state fd)" "set dead \<subseteq> set (map fst (fd_state fd))"
    "p \<in> set dead \<longleftrightarrow> (\<exists>s. (p, s) \<in> set (fd_state fd) \<and> shouldEscalate now t fd (p, s))"
proof -
  show "sameConfig fd fd'" "map fst (fd_state fd') = map fst (fd_state fd)" "set dead \<subseteq> set (map fst (fd_state fd))"
    using assms by (auto simp: escalateSuspects_def Let_def sameConfig_def split_def)
  show "p \<in> set dead \<longleftrightarrow> (\<exists>s. (p, s) \<in> set (fd_state fd) \<and> shouldEscalate now t fd (p, s))"
    using assms by (force simp: escalateSuspects_def Let_def)
qed

end
