(* ===== verification/HashRing.thy ===== *)
theory HashRing
  imports Digits "HOL-Library.Multiset"
begin

text \<open>
  The consistent-hash ring (\<open>include/cinder/hashing/consistent_hash_ring.hpp\<close>,
  \<open>src/hashing/consistent_hash_ring.cpp\<close>). \<open>XXH3_64bits\<close> is the parameter \<open>xxh\<close>. \<open>std::ranges::sort\<close> is
  not stable, so it is the parameter \<open>srt\<close>: any function that returns a sorted permutation. A mutator
  is the function from the snapshot it loads to the snapshot it publishes; the compare-and-swap
  loop makes exactly that atomic. Load cells are shared between snapshots, so a cell is a position
  in the list of all counters ever allocated. The floating-point bound of \<open>getNodeBounded\<close> is the
  parameter \<open>bound\<close>: nothing when \<open>bounded_load_factor_\<close> is zero, otherwise the function from the total
  load and the number of nodes to \<open>ceil(avg * factor)\<close>. The \<open>assert\<close> in \<open>decrementLoad\<close> is compiled out
  of release builds; the counter wraps.
\<close>

section \<open>Model\<close>

datatype RingError = LengthError | InvalidArgument | LogicError

record RingSnapshot =
  hashes :: "u64 list"
  node_index :: "nat list"
  physical_nodes :: "NodeId list"
  load_cells :: "nat list"

record Ring =
  snapshot :: RingSnapshot
  cells :: "u64 list"
  vnodes_per_node :: nat

type_synonym vnode = "u64 \<times> nat"

definition K_MAX_PHYSICAL_NODES :: nat where "K_MAX_PHYSICAL_NODES = 65536"
definition VNODE_MAX_SIZE :: nat where "VNODE_MAX_SIZE = 2 ^ 59 - 1"
definition K_MAX_REPLICAS :: nat where "K_MAX_REPLICAS = 32"

text \<open>
  \<open>VNODE_MAX_SIZE\<close> is \<open>max_size\<close> of a vector of 16-byte entries.
\<close>

definition hashVnode :: "(bytes \<Rightarrow> u64) \<Rightarrow> NodeId \<Rightarrow> nat \<Rightarrow> u64" where
  "hashVnode xxh node_id i = xxh (node_id @ ''-'' @ decimal i)"

definition hashKey :: "(bytes \<Rightarrow> u64) \<Rightarrow> bytes \<Rightarrow> u64" where
  "hashKey xxh key = xxh key"

definition emptySnapshot :: RingSnapshot where
  "emptySnapshot = \<lparr>hashes = [], node_index = [], physical_nodes = [], load_cells = []\<rparr>"

text \<open>\<open>factor_valid\<close>: the load factor is finite and not negative.\<close>

definition newRing :: "32 word \<Rightarrow> bool \<Rightarrow> RingError + Ring" where
  "newRing vnodes factor_valid =
     (if sint vnodes \<le> 0 then Inl InvalidArgument
      else if \<not> factor_valid then Inl InvalidArgument
      else Inr \<lparr>snapshot = emptySnapshot, cells = [], vnodes_per_node = nat (sint vnodes)\<rparr>)"

definition toU16 :: "nat \<Rightarrow> nat" where "toU16 n = n mod 65536"

definition addNode :: "(bytes \<Rightarrow> u64) \<Rightarrow> (vnode list \<Rightarrow> vnode list) \<Rightarrow> NodeId \<Rightarrow> Ring \<Rightarrow> RingError + Ring" where
  "addNode xxh srt node_id r =
     (let old = snapshot r in
      if node_id \<in> set (physical_nodes old) then Inr r
      else if length (physical_nodes old) \<ge> K_MAX_PHYSICAL_NODES then Inl LengthError
      else
        let phys = physical_nodes old @ [node_id];
            phys_idx = toU16 (length phys - 1);
            added = map (\<lambda>i. (hashVnode xxh node_id i, phys_idx)) [0..<vnodes_per_node r];
            sorted = srt (zip (hashes old) (node_index old) @ added)
        in Inr (r\<lparr>snapshot := \<lparr>hashes = map fst sorted, node_index = map snd sorted, physical_nodes = phys,
                   load_cells = load_cells old @ [length (cells r)]\<rparr>,
                 cells := cells r @ [0]\<rparr>))"

fun findIndex :: "NodeId \<Rightarrow> NodeId list \<Rightarrow> nat option" where
  "findIndex node [] = None"
| "findIndex node (x # xs) = (if x = node then Some 0 else map_option Suc (findIndex node xs))"

definition eraseAt :: "nat \<Rightarrow> 'a list \<Rightarrow> 'a list" where
  "eraseAt i xs = take i xs @ drop (Suc i) xs"

definition removeNode :: "NodeId \<Rightarrow> Ring \<Rightarrow> Ring" where
  "removeNode node_id r =
     (let old = snapshot r in
      case findIndex node_id (physical_nodes old) of
        None \<Rightarrow> r
      | Some p \<Rightarrow>
          let kept = filter (\<lambda>v. snd v \<noteq> p) (zip (hashes old) (node_index old));
              kept = map (\<lambda>(h, i). (h, if i > p then i - 1 else i)) kept
          in if length kept = length (hashes old) then r
             else r\<lparr>snapshot := \<lparr>hashes = map fst kept, node_index = map snd kept,
                    physical_nodes = eraseAt p (physical_nodes old), load_cells = eraseAt p (load_cells old)\<rparr>\<rparr>)"

text \<open>
  \<open>setNodes\<close>: the pass over the old members (new position of each survivor, and the survivors with
  their cells), the pass over the supplied ids, and the merge of the two sorted runs that skips the
  vnodes of removed members.
\<close>

fun retainNodes :: "NodeId list \<Rightarrow> nat \<Rightarrow> (NodeId \<times> nat) list \<Rightarrow> nat option list \<times> (NodeId \<times> nat) list" where
  "retainNodes desired next [] = ([], [])"
| "retainNodes desired next ((nid, c) # rest) =
     (if nid \<in> set desired then
        (case retainNodes desired (next + 1) rest of (remap, kept) \<Rightarrow> (Some next # remap, (nid, c) # kept))
      else (case retainNodes desired next rest of (remap, kept) \<Rightarrow> (None # remap, kept)))"

fun freshIds :: "NodeId list \<Rightarrow> NodeId list \<Rightarrow> NodeId list" where
  "freshIds seen [] = []"
| "freshIds seen (nid # ids) = (if nid \<in> set seen then freshIds seen ids else nid # freshIds (nid # seen) ids)"

fun mergeRuns :: "nat option list \<Rightarrow> vnode list \<Rightarrow> vnode list \<Rightarrow> vnode list" where
  "mergeRuns remap [] added = added"
| "mergeRuns remap ((h, i) # old) [] =
     (case remap ! i of None \<Rightarrow> mergeRuns remap old [] | Some j \<Rightarrow> (h, j) # mergeRuns remap old [])"
| "mergeRuns remap ((h, i) # old) ((g, b) # added) =
     (case remap ! i of
        None \<Rightarrow> mergeRuns remap old ((g, b) # added)
      | Some j \<Rightarrow> if h \<le> g then (h, j) # mergeRuns remap old ((g, b) # added)
                  else (g, b) # mergeRuns remap ((h, i) # old) added)"

definition freshVnodes :: "(bytes \<Rightarrow> u64) \<Rightarrow> nat \<Rightarrow> nat \<Rightarrow> NodeId list \<Rightarrow> vnode list" where
  "freshVnodes xxh v first fresh =
     concat (map (\<lambda>(j, nid). map (\<lambda>i. (hashVnode xxh nid i, toU16 (first + j))) [0..<v]) (enumerate 0 fresh))"

definition setNodes :: "(bytes \<Rightarrow> u64) \<Rightarrow> (vnode list \<Rightarrow> vnode list) \<Rightarrow> NodeId list \<Rightarrow> Ring \<Rightarrow> RingError + Ring" where
  "setNodes xxh srt node_ids r =
     (let old = snapshot r; desired = remdups node_ids in
      if length desired > K_MAX_PHYSICAL_NODES then Inl LengthError
      else if length (physical_nodes old) = length desired \<and> list_all (\<lambda>nid. nid \<in> set desired) (physical_nodes old) then Inr r
      else if length desired > VNODE_MAX_SIZE div vnodes_per_node r then Inl LengthError
      else
        case retainNodes desired 0 (zip (physical_nodes old) (load_cells old)) of
          (remap, kept) \<Rightarrow>
            let fresh = freshIds (map fst kept) node_ids;
                first = length kept;
                added = freshVnodes xxh (vnodes_per_node r) first fresh;
                phys = map fst kept @ fresh
            in if length phys \<noteq> length desired then Inl LogicError
               else
                 let merged = mergeRuns remap (zip (hashes old) (node_index old)) (srt added)
                 in Inr (r\<lparr>snapshot := \<lparr>hashes = map fst merged, node_index = map snd merged, physical_nodes = phys,
                           load_cells = map snd kept @ map (\<lambda>j. length (cells r) + j) [0..<length fresh]\<rparr>,
                         cells := cells r @ replicate (length fresh) 0\<rparr>))"

text \<open>\<open>std::ranges::lower_bound\<close> on a sorted vector.\<close>

definition lowerBound :: "u64 list \<Rightarrow> u64 \<Rightarrow> nat" where
  "lowerBound hs h = length (takeWhile (\<lambda>x. x < h) hs)"

definition startIndex :: "(bytes \<Rightarrow> u64) \<Rightarrow> bytes \<Rightarrow> RingSnapshot \<Rightarrow> nat" where
  "startIndex xxh key snap =
     (let idx = lowerBound (hashes snap) (hashKey xxh key) in if idx = length (hashes snap) then 0 else idx)"

definition getNode :: "(bytes \<Rightarrow> u64) \<Rightarrow> bytes \<Rightarrow> RingSnapshot \<Rightarrow> NodeId" where
  "getNode xxh key snap =
     (if hashes snap = [] then [] else physical_nodes snap ! (node_index snap ! startIndex xxh key snap))"

fun collectNodes :: "nat \<Rightarrow> RingSnapshot \<Rightarrow> nat \<Rightarrow> nat \<Rightarrow> nat \<Rightarrow> nat list \<Rightarrow> NodeId list \<Rightarrow> NodeId list" where
  "collectNodes 0 snap replica_count start cur seen result = result"
| "collectNodes (Suc fuel) snap replica_count start cur seen result =
     (if length result < replica_count then
        let i = node_index snap ! cur;
            node = physical_nodes snap ! i;
            dup = i \<in> set seen;
            seen = (if dup then seen else seen @ [i]);
            result = (if dup then result else result @ [node]);
            cur = cur + 1;
            cur = (if cur = length (hashes snap) then 0 else cur)
        in if cur = start then result
           else collectNodes fuel snap replica_count start cur seen result
      else result)"

definition getNodes :: "(bytes \<Rightarrow> u64) \<Rightarrow> bytes \<Rightarrow> int \<Rightarrow> RingSnapshot \<Rightarrow> RingError + NodeId list" where
  "getNodes xxh key replica_count snap =
     (if replica_count \<le> 0 \<or> nat replica_count > K_MAX_REPLICAS then Inl InvalidArgument
      else if hashes snap = [] then Inr []
      else let start = startIndex xxh key snap
           in Inr (collectNodes (length (hashes snap)) snap (nat replica_count) start start [] []))"

fun boundedWalk :: "nat \<Rightarrow> Ring \<Rightarrow> u64 \<Rightarrow> nat \<Rightarrow> nat \<Rightarrow> NodeId" where
  "boundedWalk 0 r max_load start idx = physical_nodes (snapshot r) ! (node_index (snapshot r) ! start)"
| "boundedWalk (Suc fuel) r max_load start idx =
     (let snap = snapshot r;
          phys = node_index snap ! idx;
          node_load = cells r ! (load_cells snap ! phys)
      in if node_load < max_load then physical_nodes snap ! phys
         else let idx = idx + 1; idx = (if idx = length (hashes snap) then 0 else idx)
              in if idx \<noteq> start then boundedWalk fuel r max_load start idx
                 else physical_nodes snap ! (node_index snap ! start))"

definition incrementLoad :: "NodeId \<Rightarrow> Ring \<Rightarrow> Ring" where
  "incrementLoad node r =
     (case findIndex node (physical_nodes (snapshot r)) of
        None \<Rightarrow> r
      | Some i \<Rightarrow> let c = load_cells (snapshot r) ! i in r\<lparr>cells := (cells r)[c := cells r ! c + 1]\<rparr>)"

definition decrementLoad :: "NodeId \<Rightarrow> Ring \<Rightarrow> Ring" where
  "decrementLoad node r =
     (case findIndex node (physical_nodes (snapshot r)) of
        None \<Rightarrow> r
      | Some i \<Rightarrow> let c = load_cells (snapshot r) ! i in r\<lparr>cells := (cells r)[c := cells r ! c - 1]\<rparr>)"

definition currentLoad :: "NodeId \<Rightarrow> Ring \<Rightarrow> u64" where
  "currentLoad node r =
     (case findIndex node (physical_nodes (snapshot r)) of
        None \<Rightarrow> 0
      | Some i \<Rightarrow> cells r ! (load_cells (snapshot r) ! i))"

definition totalLoad :: "Ring \<Rightarrow> u64" where
  "totalLoad r = fold (\<lambda>c total. total + cells r ! c) (load_cells (snapshot r)) 0"

definition getNodeBounded :: "(bytes \<Rightarrow> u64) \<Rightarrow> (u64 \<Rightarrow> nat \<Rightarrow> u64) option \<Rightarrow> bytes \<Rightarrow> Ring \<Rightarrow> NodeId" where
  "getNodeBounded xxh bound key r =
     (case bound of
        None \<Rightarrow> getNode xxh key (snapshot r)
      | Some max_load \<Rightarrow>
          let snap = snapshot r in
          if hashes snap = [] then []
          else let idx = startIndex xxh key snap; num_nodes = length (physical_nodes snap) in
            if num_nodes = 0 then []
            else if num_nodes = 1 then physical_nodes snap ! (node_index snap ! idx)
            else boundedWalk (length (hashes snap)) r (max_load (totalLoad r) num_nodes) idx idx)"

section \<open>The ring invariant\<close>

text \<open>The vnodes with the node that owns them; what they must be for a set of members.\<close>

definition owners :: "RingSnapshot \<Rightarrow> (u64 \<times> NodeId) list" where
  "owners snap = map (\<lambda>(h, i). (h, physical_nodes snap ! i)) (zip (hashes snap) (node_index snap))"

definition vnodesOf :: "(bytes \<Rightarrow> u64) \<Rightarrow> nat \<Rightarrow> NodeId \<Rightarrow> (u64 \<times> NodeId) list" where
  "vnodesOf xxh v nid = map (\<lambda>i. (hashVnode xxh nid i, nid)) [0..<v]"

definition is_sorter :: "(vnode list \<Rightarrow> vnode list) \<Rightarrow> bool" where
  "is_sorter srt \<longleftrightarrow> (\<forall>xs. mset (srt xs) = mset xs \<and> sorted (map fst (srt xs)))"

definition ring_ok :: "(bytes \<Rightarrow> u64) \<Rightarrow> Ring \<Rightarrow> bool" where
  "ring_ok xxh r \<longleftrightarrow>
     (let s = snapshot r in
      0 < vnodes_per_node r \<and> vnodes_per_node r < 2 ^ 31 \<and> length (node_index s) = length (hashes s) \<and> sorted (hashes s)
      \<and> (\<forall>i \<in> set (node_index s). i < length (physical_nodes s))
      \<and> distinct (physical_nodes s) \<and> length (physical_nodes s) \<le> K_MAX_PHYSICAL_NODES
      \<and> mset (owners s) = mset (concat (map (vnodesOf xxh (vnodes_per_node r)) (physical_nodes s)))
      \<and> length (load_cells s) = length (physical_nodes s) \<and> distinct (load_cells s)
      \<and> (\<forall>c \<in> set (load_cells s). c < length (cells r)))"

lemma ring_okD:
  assumes "ring_ok xxh r"
  shows "0 < vnodes_per_node r" "length (node_index (snapshot r)) = length (hashes (snapshot r))" "sorted (hashes (snapshot r))"
    "i \<in> set (node_index (snapshot r)) \<Longrightarrow> i < length (physical_nodes (snapshot r))"
    "distinct (physical_nodes (snapshot r))" "length (physical_nodes (snapshot r)) \<le> K_MAX_PHYSICAL_NODES"
    "mset (owners (snapshot r)) = mset (concat (map (vnodesOf xxh (vnodes_per_node r)) (physical_nodes (snapshot r))))"
    "length (load_cells (snapshot r)) = length (physical_nodes (snapshot r))" "distinct (load_cells (snapshot r))"
    "c \<in> set (load_cells (snapshot r)) \<Longrightarrow> c < length (cells r)"
  using assms by (simp_all add: ring_ok_def Let_def)

lemma ring_ok_vnodes: "ring_ok xxh r \<Longrightarrow> vnodes_per_node r < 2 ^ 31"
  by (simp add: ring_ok_def Let_def)

lemma newRing_ok: "newRing v f = Inr r \<Longrightarrow> ring_ok xxh r"
  using sint_lt [of v] by (auto simp: newRing_def ring_ok_def emptySnapshot_def owners_def split: if_splits)

text \<open>The check against \<open>max_size\<close> never fires.\<close>

lemma vnodes_fit:
  assumes "ring_ok xxh r" "n \<le> K_MAX_PHYSICAL_NODES"
  shows "n \<le> VNODE_MAX_SIZE div vnodes_per_node r"
proof -
  have "n * vnodes_per_node r \<le> 65536 * 2 ^ 31"
    using assms(2) ring_ok_vnodes [OF assms(1)] by (intro mult_le_mono) (simp_all add: K_MAX_PHYSICAL_NODES_def)
  also have "\<dots> \<le> VNODE_MAX_SIZE" by (simp add: VNODE_MAX_SIZE_def)
  finally show ?thesis using ring_okD(1) [OF assms(1)] by (simp add: less_eq_div_iff_mult_less_eq)
qed

lemma owners_make:
  "owners \<lparr>hashes = map fst vs, node_index = map snd vs, physical_nodes = ps, load_cells = cs\<rparr> = map (\<lambda>(h, i). (h, ps ! i)) vs"
  by (simp add: owners_def zip_map_fst_snd)

lemma addNode_ok:
  assumes ok: "ring_ok xxh r" and srt: "is_sorter srt" and run: "addNode xxh srt nid r = Inr r'"
  shows "ring_ok xxh r'"
proof (cases "nid \<in> set (physical_nodes (snapshot r))")
  case True
  then show ?thesis using ok run by (simp add: addNode_def Let_def)
next
  case False
  let ?s = "snapshot r" and ?ps = "physical_nodes (snapshot r)"
  let ?vs = "zip (hashes ?s) (node_index ?s)"
  let ?n = "length ?ps"
  define added where "added = map (\<lambda>i. (hashVnode xxh nid i, ?n)) [0..<vnodes_per_node r]"
  note d = ring_okD [OF ok]
  have lt: "?n < K_MAX_PHYSICAL_NODES" using False run by (auto simp: addNode_def Let_def not_le split: if_splits)
  then have u: "toU16 ?n = ?n" by (simp add: toU16_def K_MAX_PHYSICAL_NODES_def)
  define vs where "vs = srt (?vs @ added)"
  have vs: "mset vs = mset (?vs @ added)" "sorted (map fst vs)" using srt by (simp_all add: is_sorter_def vs_def)
  have r': "r' = r\<lparr>snapshot := \<lparr>hashes = map fst vs, node_index = map snd vs, physical_nodes = ?ps @ [nid],
      load_cells = load_cells ?s @ [length (cells r)]\<rparr>, cells := cells r @ [0]\<rparr>"
    using run False lt by (simp add: addNode_def Let_def u vs_def added_def)
  have idx: "i < ?n" if "(h, i) \<in> set ?vs" for h i using that d(4) by (auto dest: set_zip_rightD)
  have set_vs: "set vs = set ?vs \<union> set added" using vs(1) by (metis mset_eq_setD set_append)
  have "map (\<lambda>(h, i). (h, (?ps @ [nid]) ! i)) ?vs = owners ?s"
    unfolding owners_def using idx by (intro map_cong) (auto simp: nth_append)
  moreover have "map (\<lambda>(h, i). (h, (?ps @ [nid]) ! i)) added = vnodesOf xxh (vnodes_per_node r) nid"
    by (simp add: added_def vnodesOf_def)
  moreover have "mset (map (\<lambda>(h, i). (h, (?ps @ [nid]) ! i)) vs) = mset (map (\<lambda>(h, i). (h, (?ps @ [nid]) ! i)) (?vs @ added))"
    by (simp only: mset_map vs(1))
  ultimately have "mset (map (\<lambda>(h, i). (h, (?ps @ [nid]) ! i)) vs) = mset (owners ?s) + mset (vnodesOf xxh (vnodes_per_node r) nid)"
    by (simp only: map_append mset_append)
  then have "mset (owners (snapshot r')) = mset (concat (map (vnodesOf xxh (vnodes_per_node r')) (physical_nodes (snapshot r'))))"
    by (simp add: r' owners_make d(7))
  moreover have "\<forall>i \<in> set (node_index (snapshot r')). i < length (physical_nodes (snapshot r'))"
    using set_vs idx by (auto simp: r' added_def less_Suc_eq)
  moreover have "distinct (load_cells (snapshot r'))" "\<forall>c \<in> set (load_cells (snapshot r')). c < length (cells r')"
    using d(9) d(10) by (auto simp: r' less_Suc_eq)
  moreover have "length (load_cells (snapshot r')) = length (physical_nodes (snapshot r'))" "distinct (physical_nodes (snapshot r'))"
    "length (physical_nodes (snapshot r')) \<le> K_MAX_PHYSICAL_NODES" "sorted (hashes (snapshot r'))" "0 < vnodes_per_node r'"
    "length (node_index (snapshot r')) = length (hashes (snapshot r'))" "vnodes_per_node r' < 2 ^ 31"
    using d(1,5,8) ring_ok_vnodes [OF ok] False lt vs(2) by (simp_all add: r')
  ultimately show ?thesis unfolding ring_ok_def Let_def by blast
qed

lemma findIndex_Some: "findIndex x xs = Some i \<Longrightarrow> i < length xs \<and> xs ! i = x"
  by (induction xs arbitrary: i) (auto split: if_splits)

lemma findIndex_None: "findIndex x xs = None \<longleftrightarrow> x \<notin> set xs"
  by (induction xs) auto

lemma findIndex_nth: "distinct xs \<Longrightarrow> i < length xs \<Longrightarrow> findIndex (xs ! i) xs = Some i"
  by (metis findIndex_None findIndex_Some nth_eq_iff_index_eq nth_mem option.exhaust)

lemma nth_eraseAt: "i < length xs \<Longrightarrow> i \<noteq> p \<Longrightarrow> p < length xs \<Longrightarrow> eraseAt p xs ! (if i > p then i - 1 else i) = xs ! i"
  by (auto simp: eraseAt_def nth_append min_def)

lemma eraseAt_filter: "distinct xs \<Longrightarrow> p < length xs \<Longrightarrow> eraseAt p xs = filter (\<lambda>x. x \<noteq> xs ! p) xs"
proof -
  assume d: "distinct xs" and p: "p < length xs"
  have e: "xs = take p xs @ xs ! p # drop (Suc p) xs" by (rule id_take_nth_drop [OF p])
  have "xs ! p \<notin> set (take p xs)" "xs ! p \<notin> set (drop (Suc p) xs)"
    using d e by (metis distinct_append distinct.simps(2) disjoint_iff list.set_intros(1) not_distinct_conv_prefix)+
  then have "filter (\<lambda>x. x \<noteq> xs ! p) (take p xs) = take p xs" "filter (\<lambda>x. x \<noteq> xs ! p) (drop (Suc p) xs) = drop (Suc p) xs"
    by (auto simp: filter_id_conv)
  then show ?thesis by (subst (3) e) (simp add: eraseAt_def)
qed

lemma owners_Cons_conv: "set (owners s) = {(h, physical_nodes s ! i) |h i. (h, i) \<in> set (zip (hashes s) (node_index s))}"
  by (force simp: owners_def)

lemma filter_vnodes: "filter (\<lambda>x. P (snd x)) (concat (map (vnodesOf xxh v) ps)) = concat (map (vnodesOf xxh v) (filter P ps))"
  by (induction ps) (auto simp: vnodesOf_def filter_empty_conv filter_id_conv)

lemma owned: "ring_ok xxh r \<Longrightarrow> n \<in> set (physical_nodes (snapshot r)) \<longleftrightarrow> n \<in> snd ` set (owners (snapshot r))"
proof -
  assume ok: "ring_ok xxh r"
  note d = ring_okD [OF ok]
  have "set (owners (snapshot r)) = set (concat (map (vnodesOf xxh (vnodes_per_node r)) (physical_nodes (snapshot r))))"
    using d(7) by (metis set_mset_mset)
  then show ?thesis using d(1) by (force simp: vnodesOf_def)
qed

text \<open>What \<open>removeNode\<close> does to a member: its vnodes disappear and nothing else moves.\<close>

lemma removeNode_eq:
  assumes ok: "ring_ok xxh r" and mem: "nid \<in> set (physical_nodes (snapshot r))"
  shows "owners (snapshot (removeNode nid r)) = filter (\<lambda>x. snd x \<noteq> nid) (owners (snapshot r))"
    "physical_nodes (snapshot (removeNode nid r)) = filter (\<lambda>x. x \<noteq> nid) (physical_nodes (snapshot r))"
    "ring_ok xxh (removeNode nid r)" "cells (removeNode nid r) = cells r"
proof -
  let ?s = "snapshot r" and ?r = "removeNode nid r"
  let ?ps = "physical_nodes (snapshot r)" and ?vs = "zip (hashes (snapshot r)) (node_index (snapshot r))"
  note d = ring_okD [OF ok]
  obtain p where p: "findIndex nid ?ps = Some p" using mem findIndex_None by fastforce
  then have pl: "p < length ?ps" "?ps ! p = nid" by (auto dest: findIndex_Some)
  define kept where "kept = map (\<lambda>(h, i). (h, if i > p then i - 1 else i)) (filter (\<lambda>v. snd v \<noteq> p) ?vs)"
  have idx: "i < length ?ps" if "(h, i) \<in> set ?vs" for h i using that d(4) by (auto dest: set_zip_rightD)
  have own: "map (\<lambda>(h, i). (h, eraseAt p ?ps ! i)) kept = filter (\<lambda>x. snd x \<noteq> nid) (owners ?s)"
  proof -
    have "map (\<lambda>(h, i). (h, eraseAt p ?ps ! i)) kept = map (\<lambda>(h, i). (h, ?ps ! i)) (filter (\<lambda>v. snd v \<noteq> p) ?vs)"
      unfolding kept_def map_map using idx pl(1) by (intro map_cong) (auto simp: nth_eraseAt)
    also have "filter (\<lambda>v. snd v \<noteq> p) ?vs = filter (\<lambda>v. ?ps ! snd v \<noteq> nid) ?vs"
      using idx pl d(5) by (intro filter_cong) (auto simp: nth_eq_iff_index_eq)
    finally show ?thesis by (simp add: owners_def filter_map comp_def split_def)
  qed
  have "length kept \<noteq> length (hashes ?s)"
  proof
    assume "length kept = length (hashes ?s)"
    moreover have "length (owners ?s) = length (hashes ?s)" using d(2) by (simp add: owners_def)
    moreover have "length (filter (\<lambda>x. snd x \<noteq> nid) (owners ?s)) = length kept" using arg_cong [OF own, of length] by simp
    ultimately have "filter (\<lambda>x. snd x \<noteq> nid) (owners ?s) = owners ?s"
      by (metis filter_id_conv length_filter_less less_irrefl)
    then have "\<forall>x \<in> set (owners ?s). snd x \<noteq> nid" by (simp add: filter_id_conv)
    then show False using owned [OF ok] mem by fastforce
  qed
  then have r: "?r = r\<lparr>snapshot := \<lparr>hashes = map fst kept, node_index = map snd kept,
      physical_nodes = eraseAt p ?ps, load_cells = eraseAt p (load_cells ?s)\<rparr>\<rparr>"
    unfolding removeNode_def Let_def p option.case kept_def [symmetric] by simp
  have ps: "eraseAt p ?ps = filter (\<lambda>x. x \<noteq> nid) ?ps" using eraseAt_filter [OF d(5) pl(1)] pl(2) by simp
  show ow: "owners (snapshot ?r) = filter (\<lambda>x. snd x \<noteq> nid) (owners ?s)" by (simp add: r owners_make own)
  show "physical_nodes (snapshot ?r) = filter (\<lambda>x. x \<noteq> nid) ?ps" "cells ?r = cells r" by (simp_all add: r ps)
  have "mset (owners (snapshot ?r)) = mset (concat (map (vnodesOf xxh (vnodes_per_node ?r)) (physical_nodes (snapshot ?r))))"
    unfolding ow mset_filter d(7) by (simp add: r ps mset_filter [symmetric] filter_vnodes [of "\<lambda>x. x \<noteq> nid"])
  moreover have "sorted (hashes (snapshot ?r))"
  proof -
    have "map fst kept = map fst (filter (\<lambda>v. snd v \<noteq> p) ?vs)" by (auto simp: kept_def)
    moreover have "sorted (map fst ?vs)" using d(2,3) by simp
    ultimately show ?thesis by (simp add: r sorted_filter)
  qed
  moreover have "\<forall>i \<in> set (node_index (snapshot ?r)). i < length (physical_nodes (snapshot ?r))"
  proof -
    have "length (eraseAt p ?ps) = length ?ps - 1" using pl(1) by (simp add: eraseAt_def)
    then show ?thesis using idx pl(1) by (fastforce simp: r kept_def)
  qed
  moreover have "eraseAt p (load_cells ?s) = filter (\<lambda>c. c \<noteq> load_cells ?s ! p) (load_cells ?s)"
    using eraseAt_filter [OF d(9)] pl(1) d(8) by simp
  then have "distinct (load_cells (snapshot ?r))" "\<forall>c \<in> set (load_cells (snapshot ?r)). c < length (cells ?r)"
    using d(9) d(10) by (simp_all add: r)
  moreover have "length (load_cells (snapshot ?r)) = length (physical_nodes (snapshot ?r))"
    using d(8) by (simp add: r eraseAt_def)
  moreover have "distinct (physical_nodes (snapshot ?r))" "length (physical_nodes (snapshot ?r)) \<le> K_MAX_PHYSICAL_NODES"
    "0 < vnodes_per_node ?r" "length (node_index (snapshot ?r)) = length (hashes (snapshot ?r))" "vnodes_per_node ?r < 2 ^ 31"
    using d(1,5,6) ring_ok_vnodes [OF ok] by (simp_all add: r ps le_trans [OF length_filter_le])
  ultimately show "ring_ok xxh ?r" unfolding ring_ok_def Let_def by blast
qed

lemma removeNode_absent: "nid \<notin> set (physical_nodes (snapshot r)) \<Longrightarrow> removeNode nid r = r"
  by (simp add: removeNode_def findIndex_None [THEN iffD2])

section \<open>Lookups as functions of the owner list\<close>

fun pickDistinct :: "nat \<Rightarrow> 'a list \<Rightarrow> 'a list \<Rightarrow> 'a list" where
  "pickDistinct rc [] seen = seen"
| "pickDistinct rc (x # xs) seen =
     (if length seen < rc then pickDistinct rc xs (if x \<in> set seen then seen else seen @ [x]) else seen)"

definition ownerStart :: "(u64 \<times> NodeId) list \<Rightarrow> u64 \<Rightarrow> nat" where
  "ownerStart os h = (let i = length (takeWhile (\<lambda>x. fst x < h) os) in if i = length os then 0 else i)"

definition ownerWalk :: "(u64 \<times> NodeId) list \<Rightarrow> u64 \<Rightarrow> NodeId list" where
  "ownerWalk os h = map snd (rotate (ownerStart os h) os)"

lemma pickDistinct_map: "inj_on f (set xs \<union> set seen) \<Longrightarrow> pickDistinct rc (map f xs) (map f seen) = map f (pickDistinct rc xs seen)"
proof (induction rc xs seen rule: pickDistinct.induct)
  case (2 rc x xs seen)
  have "f x \<in> f ` set seen \<longleftrightarrow> x \<in> set seen" using 2(2) by (auto simp: inj_on_def)
  moreover have "inj_on f (set xs \<union> set (if x \<in> set seen then seen else seen @ [x]))"
    using 2(2) by (rule inj_on_subset) auto
  ultimately show ?case using 2(1) by (cases "x \<in> set seen") auto
qed simp

text \<open>The distinct elements of a list in the order of their first occurrence.\<close>

fun firsts :: "'a list \<Rightarrow> 'a list" where
  "firsts [] = []"
| "firsts (x # xs) = x # filter (\<lambda>y. y \<noteq> x) (firsts xs)"

lemma set_firsts [simp]: "set (firsts xs) = set xs"
  by (induction xs) auto

lemma distinct_firsts [simp]: "distinct (firsts xs)"
  by (induction xs) auto

lemma firsts_filter: "firsts (filter P xs) = filter P (firsts xs)"
  by (induction xs) (auto simp: conj_commute intro!: filter_cong)

lemma firsts_eq_Nil [simp]: "firsts xs = [] \<longleftrightarrow> xs = []"
  by (cases xs) auto

lemma hd_firsts: "xs \<noteq> [] \<Longrightarrow> hd (firsts xs) = hd xs"
  by (cases xs) auto

lemma pickDistinct_firsts:
  "length seen \<le> rc \<Longrightarrow> pickDistinct rc xs seen = take rc (seen @ filter (\<lambda>x. x \<notin> set seen) (firsts xs))"
proof (induction xs arbitrary: seen)
  case (Cons x xs)
  have e: "filter (\<lambda>y. y \<notin> set seen) (filter (\<lambda>y. y \<noteq> x) (firsts xs)) = filter (\<lambda>y. y \<notin> set (seen @ [x])) (firsts xs)"
    by (simp add: conj_commute)
  show ?case
  proof (cases "x \<in> set seen")
    case True
    then have "filter (\<lambda>y. y \<notin> set (seen @ [x])) (firsts xs) = filter (\<lambda>y. y \<notin> set seen) (firsts xs)"
      by (intro filter_cong) auto
    then show ?thesis using Cons True e by (auto simp del: filter_filter)
  next
    case False
    then show ?thesis using Cons.IH [of "seen @ [x]"] Cons.prems e by (auto simp del: filter_filter)
  qed
qed simp

lemma take_filter_one:
  "distinct xs \<Longrightarrow> \<exists>rest. take k (filter (\<lambda>x. x \<noteq> n) xs) = filter (\<lambda>x. x \<noteq> n) (take k xs) @ rest
     \<and> length rest \<le> (if n \<in> set (take k xs) then 1 else 0)"
proof (induction xs arbitrary: k)
  case (Cons x xs)
  show ?case
  proof (cases k)
    case (Suc j)
    show ?thesis
    proof (cases "x = n")
      case True
      then have "filter (\<lambda>x. x \<noteq> n) xs = xs" "filter (\<lambda>x. x \<noteq> n) (take j xs) = take j xs"
        using Cons.prems by (auto simp: filter_id_conv dest: in_set_takeD)
      moreover have "take (Suc j) xs = take j xs @ take 1 (drop j xs)" by (metis Suc_eq_plus1 take_add)
      ultimately show ?thesis using True Suc by auto
    qed (use Cons Suc in auto)
  qed simp
qed simp

lemma map_fst_owners: "length (node_index s) = length (hashes s) \<Longrightarrow> map fst (owners s) = hashes s"
  by (simp add: owners_def split_def comp_def)

lemma map_snd_owners: "length (node_index s) = length (hashes s) \<Longrightarrow> map snd (owners s) = map (\<lambda>i. physical_nodes s ! i) (node_index s)"
  by (rule nth_equalityI) (auto simp: owners_def split_def)

lemma startIndex_owner:
  assumes "length (node_index s) = length (hashes s)"
  shows "startIndex xxh key s = ownerStart (owners s) (hashKey xxh key)"
proof -
  have "length (takeWhile (\<lambda>x. x < h) (map fst xs)) = length (takeWhile (\<lambda>x. fst x < h) xs)" for h :: u64 and xs :: "(u64 \<times> NodeId) list"
    by (simp add: takeWhile_map comp_def)
  from this [of _ "owners s"] show ?thesis
    using assms by (simp add: startIndex_def ownerStart_def lowerBound_def map_fst_owners Let_def) (simp add: owners_def)
qed

lemma ownerStart_less: "os \<noteq> [] \<Longrightarrow> ownerStart os h < length os"
  using length_takeWhile_le [of "\<lambda>x. fst x < h" os] by (auto simp: ownerStart_def Let_def)

lemma walk_home:
  fixes n :: nat
  assumes "cur < n" "(cur + d) mod n = start" "d < n"
  shows "cur = start \<longleftrightarrow> d = 0"
proof
  assume c: "cur = start"
  show "d = 0"
  proof (rule ccontr)
    assume "d \<noteq> 0"
    then show False using assms c by (cases "cur + d < n") (simp_all add: not_less le_mod_geq)
  qed
qed (use assms in simp)

lemma collect_pick:
  "length (node_index s) = length (hashes s) \<Longrightarrow> n = length (hashes s) \<Longrightarrow> cur < n \<Longrightarrow> 0 < d \<Longrightarrow> d \<le> n \<Longrightarrow> (cur + d) mod n = start \<Longrightarrow>
   collectNodes d s rc start cur seen (map (\<lambda>i. physical_nodes s ! i) seen)
     = map (\<lambda>i. physical_nodes s ! i) (pickDistinct rc (map (\<lambda>j. node_index s ! ((cur + j) mod n)) [0..<d]) seen)"
proof (induction d arbitrary: cur seen)
  case (Suc d)
  define cur' where "cur' = (if cur + 1 = n then 0 else cur + 1)"
  have cm: "cur' = (cur + 1) mod n" "cur' < n" using Suc.prems by (auto simp: cur'_def)
  have l: "map (\<lambda>j. node_index s ! ((cur + j) mod n)) [0..<Suc d]
      = node_index s ! cur # map (\<lambda>j. node_index s ! ((cur' + j) mod n)) [0..<d]"
    using Suc.prems(3) by (simp add: upt_conv_Cons map_Suc_upt [symmetric] cm(1) mod_add_left_eq del: upt_Suc)
  have adv: "(cur' + d) mod n = start" unfolding cm(1) using Suc.prems(6) by (simp add: mod_simps)
  have home: "cur' = start \<longleftrightarrow> d = 0" using walk_home [OF cm(2) adv] Suc.prems(5) by simp
  let ?s = "if node_index s ! cur \<in> set seen then seen else seen @ [node_index s ! cur]"
  show ?case
  proof (cases "length seen < rc")
    case True
    have step: "collectNodes (Suc d) s rc start cur seen (map ((!) (physical_nodes s)) seen)
      = (if cur' = start then map ((!) (physical_nodes s)) ?s else collectNodes d s rc start cur' ?s (map ((!) (physical_nodes s)) ?s))"
      using True Suc.prems(2) by (simp add: Let_def cur'_def)
    show ?thesis
    proof (cases "d = 0")
      case True
      then show ?thesis using step home l \<open>length seen < rc\<close> by simp
    next
      case False
      have "collectNodes d s rc start cur' ?s (map ((!) (physical_nodes s)) ?s)
        = map ((!) (physical_nodes s)) (pickDistinct rc (map (\<lambda>j. node_index s ! ((cur' + j) mod n)) [0..<d]) ?s)"
        using Suc.IH [of cur' ?s] Suc.prems cm(2) adv False by simp
      then show ?thesis using step home False l \<open>length seen < rc\<close> by simp
    qed
  next
    case False
    then show ?thesis unfolding l by simp
  qed
qed simp

lemma hashes_owners: "ring_ok xxh r \<Longrightarrow> hashes (snapshot r) = [] \<longleftrightarrow> owners (snapshot r) = []"
  using ring_okD(2) [of xxh r] by (auto simp: owners_def)

lemma ring_empty: "ring_ok xxh r \<Longrightarrow> owners (snapshot r) = [] \<longleftrightarrow> physical_nodes (snapshot r) = []"
  using owned [of xxh r] by (metis empty_iff image_is_empty set_empty subsetI subset_empty)

lemma getNodes_owners:
  assumes ok: "ring_ok xxh r" and rc: "1 \<le> rc" "rc \<le> int K_MAX_REPLICAS"
  shows "getNodes xxh key rc (snapshot r) = Inr (pickDistinct (nat rc) (ownerWalk (owners (snapshot r)) (hashKey xxh key)) [])"
proof (cases "hashes (snapshot r) = []")
  case True
  then show ?thesis using rc hashes_owners [OF ok] by (simp add: getNodes_def ownerWalk_def)
next
  case False
  let ?s = "snapshot r" and ?n = "length (hashes (snapshot r))" and ?start = "startIndex xxh key (snapshot r)"
  note d = ring_okD [OF ok]
  have lo: "length (owners ?s) = ?n" using d(2) by (simp add: owners_def)
  have st: "?start = ownerStart (owners ?s) (hashKey xxh key)" by (rule startIndex_owner [OF d(2)])
  have lt: "?start < ?n" using ownerStart_less [of "owners ?s"] False hashes_owners [OF ok] lo by (simp add: st)
  have "collectNodes ?n ?s (nat rc) ?start ?start [] []
      = map ((!) (physical_nodes ?s)) (pickDistinct (nat rc) (map (\<lambda>j. node_index ?s ! ((?start + j) mod ?n)) [0..<?n]) [])"
    using collect_pick [OF d(2) refl lt _ _ _, of ?n ?start "nat rc" "[]"] False lt by simp
  also have "map (\<lambda>j. node_index ?s ! ((?start + j) mod ?n)) [0..<?n] = rotate ?start (node_index ?s)"
    using d(2) by (intro nth_equalityI) (simp_all add: nth_rotate)
  also have "map ((!) (physical_nodes ?s)) (pickDistinct (nat rc) (rotate ?start (node_index ?s)) [])
      = pickDistinct (nat rc) (map ((!) (physical_nodes ?s)) (rotate ?start (node_index ?s))) []"
    using pickDistinct_map [of "(!) (physical_nodes ?s)" "rotate ?start (node_index ?s)" "[]" "nat rc"] d(4,5)
    by (simp add: inj_on_def nth_eq_iff_index_eq)
  also have "map ((!) (physical_nodes ?s)) (rotate ?start (node_index ?s)) = ownerWalk (owners ?s) (hashKey xxh key)"
    using map_snd_owners [OF d(2)] by (simp add: ownerWalk_def rotate_map [symmetric] st)
  finally show ?thesis using rc False by (simp add: getNodes_def Let_def)
qed

lemma getNode_owners:
  assumes ok: "ring_ok xxh r"
  shows "getNode xxh key (snapshot r) = (if owners (snapshot r) = [] then [] else hd (ownerWalk (owners (snapshot r)) (hashKey xxh key)))"
proof (cases "hashes (snapshot r) = []")
  case True
  then show ?thesis using hashes_owners [OF ok] by (simp add: getNode_def)
next
  case False
  let ?s = "snapshot r" and ?h = "hashKey xxh key"
  note d = ring_okD [OF ok]
  have ne: "owners ?s \<noteq> []" using False hashes_owners [OF ok] by simp
  have lt: "ownerStart (owners ?s) ?h < length (owners ?s)" by (rule ownerStart_less [OF ne])
  have "getNode xxh key ?s = map snd (owners ?s) ! ownerStart (owners ?s) ?h"
    using False lt d(2) by (simp add: getNode_def startIndex_owner map_snd_owners) (simp add: owners_def split_def)
  also have "\<dots> = hd (ownerWalk (owners ?s) ?h)"
    using ne lt by (simp add: ownerWalk_def hd_map hd_rotate_conv_nth)
  finally show ?thesis using ne by simp
qed

lemma sorted_dropWhile_filter: "sorted (map fst os) \<Longrightarrow> dropWhile (\<lambda>x. fst x < h) os = filter (\<lambda>x. h \<le> fst x) os" for h :: u64
proof (induction os)
  case (Cons x os)
  then have "\<forall>y \<in> set os. h \<le> fst y" if "h \<le> fst x" using that by auto
  with Cons show ?case by (auto simp: not_less filter_id_conv)
qed simp

lemma ownerWalk_sorted:
  assumes "sorted (map fst os)"
  shows "ownerWalk os h = map snd (filter (\<lambda>x. h \<le> fst x) os @ filter (\<lambda>x. fst x < h) os)"
proof -
  let ?t = "takeWhile (\<lambda>x. fst x < h) os"
  have d: "drop (length ?t) os = filter (\<lambda>x. h \<le> fst x) os" using sorted_dropWhile_filter [OF assms] by (simp add: dropWhile_eq_drop)
  have "takeWhile (\<lambda>x. fst x < h) os = filter (\<lambda>x. fst x < h) os"
    by (rule takeWhile_eq_filter) (auto simp: sorted_dropWhile_filter [OF assms])
  moreover have "take (length ?t) os = ?t" by (metis takeWhile_eq_take)
  ultimately have t: "take (length ?t) os = filter (\<lambda>x. fst x < h) os" by simp
  have le: "length ?t \<le> length os" by (rule length_takeWhile_le)
  show ?thesis
  proof (cases "length ?t = length os")
    case True
    then show ?thesis using d t by (simp add: ownerWalk_def ownerStart_def)
  next
    case False
    then have "rotate (length ?t) os = drop (length ?t) os @ take (length ?t) os" using le by (simp add: rotate_drop_take)
    then show ?thesis using False d t by (simp add: ownerWalk_def ownerStart_def)
  qed
qed

text \<open>The preference list of a key: every member once, in the order the ring meets them.\<close>

definition preference :: "(bytes \<Rightarrow> u64) \<Rightarrow> bytes \<Rightarrow> Ring \<Rightarrow> NodeId list" where
  "preference xxh key r = firsts (ownerWalk (owners (snapshot r)) (hashKey xxh key))"

lemma sorted_owners: "ring_ok xxh r \<Longrightarrow> sorted (map fst (owners (snapshot r)))"
  using ring_okD(2,3) [of xxh r] by (simp add: map_fst_owners)

lemma preference_set:
  assumes "ring_ok xxh r"
  shows "set (preference xxh key r) = set (physical_nodes (snapshot r))" "distinct (preference xxh key r)"
    "length (preference xxh key r) = length (physical_nodes (snapshot r))"
proof -
  have "set (ownerWalk (owners (snapshot r)) (hashKey xxh key)) = snd ` set (owners (snapshot r))" by (simp add: ownerWalk_def)
  then show s: "set (preference xxh key r) = set (physical_nodes (snapshot r))" using owned [OF assms] by (auto simp: preference_def)
  show dp: "distinct (preference xxh key r)" by (simp add: preference_def)
  show "length (preference xxh key r) = length (physical_nodes (snapshot r))"
    using s dp ring_okD(5) [OF assms] by (metis distinct_card)
qed

lemma getNodes_preference:
  assumes "ring_ok xxh r"
  shows "getNodes xxh key rc (snapshot r)
    = (if 1 \<le> rc \<and> rc \<le> int K_MAX_REPLICAS then Inr (take (nat rc) (preference xxh key r)) else Inl InvalidArgument)"
proof (cases "1 \<le> rc \<and> rc \<le> int K_MAX_REPLICAS")
  case True
  then show ?thesis using getNodes_owners [OF assms, of rc key] by (simp add: pickDistinct_firsts preference_def)
next
  case False
  then have "rc \<le> 0 \<or> nat rc > K_MAX_REPLICAS" by linarith
  then show ?thesis using False by (simp add: getNodes_def)
qed

lemma getNode_preference:
  assumes "ring_ok xxh r"
  shows "getNode xxh key (snapshot r) = (case preference xxh key r of [] \<Rightarrow> [] | n # _ \<Rightarrow> n)"
proof (cases "owners (snapshot r) = []")
  case True
  then show ?thesis using getNode_owners [OF assms, of key] by (simp add: preference_def ownerWalk_def)
next
  case False
  then have ne: "ownerWalk (owners (snapshot r)) (hashKey xxh key) \<noteq> []" by (simp add: ownerWalk_def)
  then have "preference xxh key r \<noteq> []" by (simp add: preference_def)
  then show ?thesis using getNode_owners [OF assms, of key] False hd_firsts [OF ne]
    by (auto simp: preference_def split: list.split)
qed

lemma preference_filter:
  assumes "ring_ok xxh r" "ring_ok xxh r'" "owners (snapshot r') = filter (\<lambda>x. P (snd x)) (owners (snapshot r))"
  shows "preference xxh key r' = filter P (preference xxh key r)"
  unfolding preference_def ownerWalk_sorted [OF sorted_owners [OF assms(1)]] ownerWalk_sorted [OF sorted_owners [OF assms(2)]]
  by (simp add: assms(3) firsts_filter [symmetric] filter_map comp_def conj_commute)

lemma sorted_owners_unique:
  fixes xs ys :: "(u64 \<times> NodeId) list"
  assumes "sorted (map fst xs)" "sorted (map fst ys)" "mset xs = mset ys" "distinct (map fst xs)"
  shows "xs = ys"
proof -
  have "mset (map fst xs) = mset (map fst ys)" by (simp only: mset_map assms(3))
  then have k: "map fst xs = map fst ys"
    using assms(1,2) by (metis properties_for_sort)
  have "set xs = set ys" using assms(3) by (metis set_mset_mset)
  then have m: "map_of xs = map_of ys" using assms(4) k map_of_inject_set [of xs ys] by simp
  have can: "zs = map (\<lambda>h. (h, the (map_of zs h))) (map fst zs)" if "distinct (map fst zs)" for zs :: "(u64 \<times> NodeId) list"
  proof -
    have "map_of zs (fst z) = Some (snd z)" if "z \<in> set zs" for z
      using map_of_is_SomeI [OF \<open>distinct (map fst zs)\<close>] that by (metis prod.collapse)
    then show ?thesis by (intro nth_equalityI) (auto simp: prod_eq_iff)
  qed
  have "xs = map (\<lambda>h. (h, the (map_of xs h))) (map fst xs)" by (rule can [OF assms(4)])
  also have "\<dots> = map (\<lambda>h. (h, the (map_of ys h))) (map fst ys)" by (simp only: m k)
  also have "\<dots> = ys" using can [of ys] assms(4) k by simp
  finally show ?thesis .
qed

section \<open>Membership replacement\<close>

lemma retainNodes_spec:
  "retainNodes desired nx zs = (remap, kept) \<Longrightarrow> length remap = length zs \<and> kept = filter (\<lambda>z. fst z \<in> set desired) zs
   \<and> (\<forall>i < length zs. case remap ! i of
        None \<Rightarrow> fst (zs ! i) \<notin> set desired
      | Some j \<Rightarrow> fst (zs ! i) \<in> set desired \<and> nx \<le> j \<and> j - nx < length kept \<and> kept ! (j - nx) = zs ! i)"
proof (induction zs arbitrary: nx remap kept)
  case (Cons z zs)
  obtain n c where z: "z = (n, c)" by (cases z)
  show ?case
  proof (cases "n \<in> set desired")
    case True
    obtain rm kp where r: "retainNodes desired (nx + 1) zs = (rm, kp)" by fastforce
    have e: "remap = Some nx # rm" "kept = (n, c) # kp" using Cons.prems z True r by simp_all
    note ih = Cons.IH [OF r]
    show ?thesis
    proof (intro conjI allI impI)
      show "length remap = length (z # zs)" "kept = filter (\<lambda>z. fst z \<in> set desired) (z # zs)" using ih e z True by simp_all
      fix i assume i: "i < length (z # zs)"
      show "case remap ! i of None \<Rightarrow> fst ((z # zs) ! i) \<notin> set desired
        | Some j \<Rightarrow> fst ((z # zs) ! i) \<in> set desired \<and> nx \<le> j \<and> j - nx < length kept \<and> kept ! (j - nx) = (z # zs) ! i"
      proof (cases i)
        case (Suc k)
        have "case rm ! k of None \<Rightarrow> fst (zs ! k) \<notin> set desired
          | Some j \<Rightarrow> fst (zs ! k) \<in> set desired \<and> nx + 1 \<le> j \<and> j - (nx + 1) < length kp \<and> kp ! (j - (nx + 1)) = zs ! k"
          using ih i Suc by auto
        then show ?thesis using Suc e by (auto split: option.splits simp: nth_Cons' Suc_diff_le)
      qed (use e z True in simp)
    qed
  next
    case False
    obtain rm kp where r: "retainNodes desired nx zs = (rm, kp)" by fastforce
    have e: "remap = None # rm" "kept = kp" using Cons.prems z False r by simp_all
    show ?thesis using Cons.IH [OF r] e z False by (auto simp: less_Suc_eq_0_disj split: option.splits)
  qed
qed simp

lemma freshIds_spec: "set (freshIds seen ids) = set ids - set seen \<and> distinct (freshIds seen ids)"
  by (induction seen ids rule: freshIds.induct) auto

lemma mergeRuns_mset:
  "mset (mergeRuns remap old added) = mset (map (\<lambda>(h, i). (h, the (remap ! i))) (filter (\<lambda>v. remap ! snd v \<noteq> None) old)) + mset added"
  by (induction remap old added rule: mergeRuns.induct) (auto split: option.splits)

lemma mergeRuns_mem: "x \<in> set (mergeRuns remap old added) \<Longrightarrow> x \<in> set added \<or> (\<exists>i. (fst x, i) \<in> set old)"
  by (induction remap old added rule: mergeRuns.induct) (auto split: option.splits if_splits)

lemma mergeRuns_sorted:
  "sorted (map fst old) \<Longrightarrow> sorted (map fst added) \<Longrightarrow> sorted (map fst (mergeRuns remap old added))"
proof (induction remap old added rule: mergeRuns.induct)
  case (2 remap h i old)
  then show ?case by (fastforce split: option.splits dest: mergeRuns_mem)
next
  case (3 remap h i old g b added)
  show ?case
  proof (cases "remap ! i")
    case None
    then show ?thesis using 3 by simp
  next
    case (Some j)
    have ge: "\<forall>x \<in> set old. h \<le> fst x" "\<forall>x \<in> set added. g \<le> fst x" using 3(4,5) by simp_all
    show ?thesis
    proof (cases "h \<le> g")
      case True
      have "h \<le> fst x" if "x \<in> set (mergeRuns remap old ((g, b) # added))" for x
        using mergeRuns_mem [OF that] ge True by (auto intro: order_trans)
      then show ?thesis using 3 Some True by simp
    next
      case False
      have "g \<le> fst x" if "x \<in> set (mergeRuns remap ((h, i) # old) added)" for x
        using mergeRuns_mem [OF that] ge False by (auto intro: order_trans less_imp_le)
      then show ?thesis using 3 Some False by simp
    qed
  qed
qed auto

lemma freshVnodes_owners:
  assumes "length ps = first" "first + length fresh \<le> K_MAX_PHYSICAL_NODES"
  shows "map (\<lambda>(h, i). (h, (ps @ fresh) ! i)) (freshVnodes xxh v first fresh) = concat (map (vnodesOf xxh v) fresh)"
    "\<forall>x \<in> set (freshVnodes xxh v first fresh). snd x < first + length fresh"
proof -
  have u: "toU16 (first + j) = first + j" if "j < length fresh" for j
    using assms(2) that by (simp add: toU16_def K_MAX_PHYSICAL_NODES_def)
  have "map (\<lambda>(h, i). (h, (ps @ fresh) ! i)) (freshVnodes xxh v first fresh)
      = concat (map (\<lambda>p. vnodesOf xxh v (snd p)) (enumerate 0 fresh))"
    unfolding freshVnodes_def map_concat map_map
    by (intro arg_cong [of _ _ concat] map_cong refl)
      (auto simp: in_set_enumerate_eq u vnodesOf_def nth_append assms(1))
  also have "\<dots> = concat (map (vnodesOf xxh v) (map snd (enumerate 0 fresh)))" unfolding map_map comp_def ..
  finally show "map (\<lambda>(h, i). (h, (ps @ fresh) ! i)) (freshVnodes xxh v first fresh) = concat (map (vnodesOf xxh v) fresh)"
    by simp
  show "\<forall>x \<in> set (freshVnodes xxh v first fresh). snd x < first + length fresh"
    by (auto simp: freshVnodes_def in_set_enumerate_eq u)
qed

text \<open>The survivors and their vnodes, seen through the owner list.\<close>

lemma retained:
  assumes ok: "ring_ok xxh r" and run: "retainNodes desired 0 (zip (physical_nodes (snapshot r)) (load_cells (snapshot r))) = (remap, kept)"
  shows "kept = filter (\<lambda>z. fst z \<in> set desired) (zip (physical_nodes (snapshot r)) (load_cells (snapshot r)))"
    "map fst kept = filter (\<lambda>n. n \<in> set desired) (physical_nodes (snapshot r))"
    "map (\<lambda>(h, i). (h, (map fst kept @ fresh) ! the (remap ! i)))
       (filter (\<lambda>v. remap ! snd v \<noteq> None) (zip (hashes (snapshot r)) (node_index (snapshot r))))
     = filter (\<lambda>x. snd x \<in> set desired) (owners (snapshot r))"
    "\<forall>v \<in> set (zip (hashes (snapshot r)) (node_index (snapshot r))). remap ! snd v \<noteq> None \<longrightarrow> the (remap ! snd v) < length kept"
proof -
  let ?ps = "physical_nodes (snapshot r)" and ?cs = "load_cells (snapshot r)"
  let ?vs = "zip (hashes (snapshot r)) (node_index (snapshot r))"
  note d = ring_okD [OF ok] and sp = retainNodes_spec [OF run]
  show k: "kept = filter (\<lambda>z. fst z \<in> set desired) (zip ?ps ?cs)" using sp by simp
  have "map fst kept = filter (\<lambda>n. n \<in> set desired) (map fst (zip ?ps ?cs))" unfolding k filter_map comp_def ..
  then show "map fst kept = filter (\<lambda>n. n \<in> set desired) ?ps" using d(8) by simp
  have idx: "snd v < length ?ps" if "v \<in> set ?vs" for v
    using that set_zip_rightD [of "fst v" "snd v"] d(4) by simp
  have at: "case remap ! i of None \<Rightarrow> ?ps ! i \<notin> set desired
      | Some j \<Rightarrow> ?ps ! i \<in> set desired \<and> j < length kept \<and> map fst kept ! j = ?ps ! i" if i: "i < length ?ps" for i
  proof -
    have "case remap ! i of None \<Rightarrow> fst (zip ?ps ?cs ! i) \<notin> set desired
      | Some j \<Rightarrow> fst (zip ?ps ?cs ! i) \<in> set desired \<and> 0 \<le> j \<and> j - 0 < length kept \<and> kept ! (j - 0) = zip ?ps ?cs ! i"
      using sp i d(8) by simp
    then show ?thesis using i d(8) by (cases "remap ! i") simp_all
  qed
  have keep: "remap ! snd v \<noteq> None \<longleftrightarrow> ?ps ! snd v \<in> set desired" if "v \<in> set ?vs" for v
    using at [OF idx [OF that]] by (cases "remap ! snd v") simp_all
  have pos: "the (remap ! snd v) < length kept" if "v \<in> set ?vs" "remap ! snd v \<noteq> None" for v
    using at [OF idx [OF that(1)]] that(2) by (cases "remap ! snd v") simp_all
  then show "\<forall>v \<in> set ?vs. remap ! snd v \<noteq> None \<longrightarrow> the (remap ! snd v) < length kept" by blast
  have "filter (\<lambda>v. remap ! snd v \<noteq> None) ?vs = filter (\<lambda>v. ?ps ! snd v \<in> set desired) ?vs"
    by (intro filter_cong refl keep)
  moreover have "map (\<lambda>(h, i). (h, (map fst kept @ fresh) ! the (remap ! i))) (filter (\<lambda>v. remap ! snd v \<noteq> None) ?vs)
      = map (\<lambda>(h, i). (h, ?ps ! i)) (filter (\<lambda>v. remap ! snd v \<noteq> None) ?vs)"
  proof (intro map_cong refl)
    fix v assume "v \<in> set (filter (\<lambda>v. remap ! snd v \<noteq> None) ?vs)"
    then have v: "v \<in> set ?vs" "remap ! snd v \<noteq> None" by simp_all
    then obtain j where j: "remap ! snd v = Some j" by blast
    then show "(case v of (h, i) \<Rightarrow> (h, (map fst kept @ fresh) ! the (remap ! i))) = (case v of (h, i) \<Rightarrow> (h, ?ps ! i))"
      using at [OF idx [OF v(1)]] by (cases v) (simp add: nth_append)
  qed
  ultimately show "map (\<lambda>(h, i). (h, (map fst kept @ fresh) ! the (remap ! i))) (filter (\<lambda>v. remap ! snd v \<noteq> None) ?vs)
     = filter (\<lambda>x. snd x \<in> set desired) (owners (snapshot r))"
    by (simp add: owners_def filter_map comp_def split_def)
qed

lemma merged_owners:
  assumes ok: "ring_ok xxh r" and srt: "is_sorter srt"
    and run: "retainNodes desired 0 (zip (physical_nodes (snapshot r)) (load_cells (snapshot r))) = (remap, kept)"
    and small: "length kept + length fresh \<le> K_MAX_PHYSICAL_NODES"
  defines "merged \<equiv> mergeRuns remap (zip (hashes (snapshot r)) (node_index (snapshot r)))
    (srt (freshVnodes xxh (vnodes_per_node r) (length kept) fresh))"
  shows "sorted (map fst merged)" "\<forall>v \<in> set merged. snd v < length kept + length fresh"
    "mset (map (\<lambda>(h, i). (h, (map fst kept @ fresh) ! i)) merged)
     = mset (concat (map (vnodesOf xxh (vnodes_per_node r)) (map fst kept @ fresh)))"
proof -
  let ?vs = "zip (hashes (snapshot r)) (node_index (snapshot r))" and ?f = "freshVnodes xxh (vnodes_per_node r) (length kept) fresh"
  let ?g = "\<lambda>(h, i). (h, (map fst kept @ fresh) ! i)" and ?v = "vnodes_per_node r"
  note d = ring_okD [OF ok] and rt = retained [OF ok run]
  note fv = freshVnodes_owners [of "map fst kept" "length kept" fresh, simplified, OF small]
  have s: "mset (srt ?f) = mset ?f" "sorted (map fst (srt ?f))" using srt by (simp_all add: is_sorter_def)
  show "sorted (map fst merged)" unfolding merged_def using d(2,3) s(2) by (intro mergeRuns_sorted) simp_all
  have ms: "mset merged = mset (map (\<lambda>(h, i). (h, the (remap ! i))) (filter (\<lambda>v. remap ! snd v \<noteq> None) ?vs) @ ?f)"
    unfolding merged_def mergeRuns_mset mset_append s(1) ..
  then have "set merged = set (map (\<lambda>(h, i). (h, the (remap ! i))) (filter (\<lambda>v. remap ! snd v \<noteq> None) ?vs) @ ?f)"
    by (rule mset_eq_setD)
  then show "\<forall>v \<in> set merged. snd v < length kept + length fresh" using rt(4) fv(2) by fastforce
  have "mset (map ?g merged) = mset (map ?g (map (\<lambda>(h, i). (h, the (remap ! i))) (filter (\<lambda>v. remap ! snd v \<noteq> None) ?vs) @ ?f))"
    by (simp only: mset_map ms)
  also have "map ?g (map (\<lambda>(h, i). (h, the (remap ! i))) (filter (\<lambda>v. remap ! snd v \<noteq> None) ?vs) @ ?f)
      = filter (\<lambda>x. snd x \<in> set desired) (owners (snapshot r)) @ concat (map (vnodesOf xxh ?v) fresh)"
    unfolding map_append fv(1) rt(3) [of fresh, symmetric] by (simp add: split_def)
  also have "mset \<dots> = mset (filter (\<lambda>x. snd x \<in> set desired) (concat (map (vnodesOf xxh ?v) (physical_nodes (snapshot r))))
      @ concat (map (vnodesOf xxh ?v) fresh))"
    unfolding mset_append mset_filter d(7) ..
  also have "\<dots> = mset (concat (map (vnodesOf xxh ?v) (map fst kept @ fresh)))"
    unfolding filter_vnodes [of "\<lambda>n. n \<in> set desired"] rt(2) by simp
  finally show "mset (map ?g merged) = mset (concat (map (vnodesOf xxh ?v) (map fst kept @ fresh)))" .
qed

lemma setNodes_ok:
  assumes ok: "ring_ok xxh r" and srt: "is_sorter srt" and small: "length (remdups ids) \<le> K_MAX_PHYSICAL_NODES"
  obtains r' fresh where "setNodes xxh srt ids r = Inr r'" "ring_ok xxh r'" "set (physical_nodes (snapshot r')) = set ids"
    "vnodes_per_node r' = vnodes_per_node r"
    "physical_nodes (snapshot r') = filter (\<lambda>n. n \<in> set ids) (physical_nodes (snapshot r)) @ fresh"
    "zip (physical_nodes (snapshot r')) (load_cells (snapshot r'))
      = filter (\<lambda>z. fst z \<in> set ids) (zip (physical_nodes (snapshot r)) (load_cells (snapshot r)))
        @ zip fresh [length (cells r)..<length (cells r')]"
    "cells r' = cells r @ replicate (length fresh) 0"
proof (cases "length (physical_nodes (snapshot r)) = length (remdups ids) \<and> set (physical_nodes (snapshot r)) \<subseteq> set ids")
  case True
  let ?ps = "physical_nodes (snapshot r)"
  have "card (set ?ps) = card (set ids)" using True ring_okD(5) [OF ok] by (simp add: distinct_card length_remdups_card_conv)
  then have eq: "set ?ps = set ids" using True by (intro card_subset_eq) auto
  have "setNodes xxh srt ids r = Inr r" using True small by (auto simp: setNodes_def Let_def list_all_iff)
  moreover have "filter (\<lambda>n. n \<in> set ids) ?ps = ?ps" using eq by (simp add: filter_id_conv)
  moreover have "filter (\<lambda>z. fst z \<in> set ids) (zip ?ps (load_cells (snapshot r))) = zip ?ps (load_cells (snapshot r))"
    unfolding filter_id_conv eq [symmetric] by (auto dest: set_zip_leftD)
  ultimately show ?thesis using that [of r "[]"] ok eq by simp
next
  case False
  let ?s = "snapshot r" and ?ps = "physical_nodes (snapshot r)" and ?cs = "load_cells (snapshot r)"
  note d = ring_okD [OF ok]
  obtain remap kept where run: "retainNodes (remdups ids) 0 (zip ?ps ?cs) = (remap, kept)" by fastforce
  note rt = retained [OF ok run, unfolded set_remdups]
  define fresh where "fresh = freshIds (map fst kept) ids"
  define merged where "merged = mergeRuns remap (zip (hashes ?s) (node_index ?s)) (srt (freshVnodes xxh (vnodes_per_node r) (length kept) fresh))"
  define r' where "r' = r\<lparr>snapshot := \<lparr>hashes = map fst merged, node_index = map snd merged, physical_nodes = map fst kept @ fresh,
      load_cells = map snd kept @ map (\<lambda>j. length (cells r) + j) [0..<length fresh]\<rparr>, cells := cells r @ replicate (length fresh) 0\<rparr>"
  have f: "set fresh = set ids - set (map fst kept)" "distinct fresh" using freshIds_spec [of "map fst kept" ids] by (simp_all add: fresh_def)
  have ps: "distinct (map fst kept @ fresh)" "set (map fst kept @ fresh) = set ids"
    using f d(5) by (auto simp: rt(2) distinct_filter)
  then have len: "length (map fst kept @ fresh) = length (remdups ids)" by (metis distinct_card length_remdups_card_conv)
  then have le: "length kept + length fresh \<le> K_MAX_PHYSICAL_NODES" using small by simp
  note mo = merged_owners [OF ok srt run le, folded merged_def]
  have res: "setNodes xxh srt ids r = Inr r'"
    using False small vnodes_fit [OF ok small] run len by (auto simp: setNodes_def Let_def list_all_iff r'_def merged_def fresh_def)
  have sh: "map (\<lambda>j. length (cells r) + j) [0..<length fresh] = [length (cells r)..<length (cells r) + length fresh]"
    using map_add_upt [of "length (cells r)" "length fresh"] by (simp add: add.commute)
  have zc: "zip (physical_nodes (snapshot r')) (load_cells (snapshot r'))
      = filter (\<lambda>z. fst z \<in> set ids) (zip ?ps ?cs) @ zip fresh [length (cells r)..<length (cells r')]"
    by (simp add: r'_def zip_map_fst_snd rt(1) sh del: map_append)
  have cs: "set (map snd kept) \<subseteq> set ?cs" unfolding rt(1) by (auto dest: set_zip_rightD)
  have "distinct (map snd (zip ?ps ?cs))" using d(8,9) by simp
  then have "distinct (map snd kept)" unfolding rt(1) by (rule distinct_map_filter)
  moreover have lt: "\<forall>c \<in> set (map snd kept). c < length (cells r)" using cs d(10) by blast
  ultimately have "distinct (load_cells (snapshot r'))" by (auto simp: r'_def sh simp del: set_map)
  moreover have "\<forall>c \<in> set (load_cells (snapshot r')). c < length (cells r')"
    using lt by (auto simp: r'_def sh simp del: set_map)
  moreover have "mset (owners (snapshot r')) = mset (concat (map (vnodesOf xxh (vnodes_per_node r')) (physical_nodes (snapshot r'))))"
    using mo(3) by (simp add: r'_def owners_make)
  moreover have "sorted (hashes (snapshot r'))" "\<forall>i \<in> set (node_index (snapshot r')). i < length (physical_nodes (snapshot r'))"
    "length (node_index (snapshot r')) = length (hashes (snapshot r'))" "distinct (physical_nodes (snapshot r'))"
    "length (physical_nodes (snapshot r')) \<le> K_MAX_PHYSICAL_NODES"
    "length (load_cells (snapshot r')) = length (physical_nodes (snapshot r'))" "0 < vnodes_per_node r'" "vnodes_per_node r' < 2 ^ 31"
    using mo(1,2) ps(1) le d(1) ring_ok_vnodes [OF ok] by (simp_all add: r'_def)
  ultimately have "ring_ok xxh r'" unfolding ring_ok_def Let_def by blast
  then show ?thesis using that [of r' fresh] res zc ps(2) rt(2) by (simp add: r'_def)
qed

section \<open>Loads\<close>

lemma find_cell:
  assumes ok: "ring_ok xxh r" and mem: "n \<in> set (physical_nodes (snapshot r))"
  obtains i where "findIndex n (physical_nodes (snapshot r)) = Some i" "i < length (physical_nodes (snapshot r))"
    "physical_nodes (snapshot r) ! i = n" "load_cells (snapshot r) ! i < length (cells r)"
proof -
  obtain i where i: "findIndex n (physical_nodes (snapshot r)) = Some i" using mem findIndex_None by fastforce
  moreover note findIndex_Some [OF i]
  moreover have "load_cells (snapshot r) ! i < length (cells r)" using ring_okD(8,10) [OF ok] findIndex_Some [OF i] by simp
  ultimately show ?thesis using that by blast
qed

lemma currentLoad_zip:
  assumes "ring_ok xxh r" "(n, c) \<in> set (zip (physical_nodes (snapshot r)) (load_cells (snapshot r)))"
  shows "currentLoad n r = cells r ! c"
proof -
  obtain i where "i < length (physical_nodes (snapshot r))" "n = physical_nodes (snapshot r) ! i" "c = load_cells (snapshot r) ! i"
    using assms(2) by (auto simp: set_zip)
  then show ?thesis using findIndex_nth ring_okD(5) [OF assms(1)] by (simp add: currentLoad_def)
qed

lemma bump_load:
  assumes ok: "ring_ok xxh r" and mem: "n \<in> set (physical_nodes (snapshot r))"
    and r': "r' = r\<lparr>cells := (cells r)[load_cells (snapshot r) ! the (findIndex n (physical_nodes (snapshot r))) :=
       cells r ! (load_cells (snapshot r) ! the (findIndex n (physical_nodes (snapshot r)))) + d]\<rparr>"
  shows "ring_ok xxh r'" "currentLoad m r' = currentLoad m r + (if m = n then d else 0)" "totalLoad r' = totalLoad r + d"
proof -
  obtain i where i: "findIndex n (physical_nodes (snapshot r)) = Some i" "i < length (physical_nodes (snapshot r))"
    "physical_nodes (snapshot r) ! i = n" "load_cells (snapshot r) ! i < length (cells r)" by (rule find_cell [OF ok mem])
  let ?c = "load_cells (snapshot r) ! i"
  note dd = ring_okD [OF ok]
  have r'': "r' = r\<lparr>cells := (cells r)[?c := cells r ! ?c + d]\<rparr>" using r' i(1) by simp
  show "ring_ok xxh r'" using ok by (simp add: r'' ring_ok_def Let_def)
  show "currentLoad m r' = currentLoad m r + (if m = n then d else 0)"
  proof (cases "findIndex m (physical_nodes (snapshot r))")
    case None
    then have "m \<noteq> n" using i(1) by auto
    then show ?thesis using None by (simp add: currentLoad_def r'')
  next
    case (Some j)
    note j = findIndex_Some [OF Some]
    have "load_cells (snapshot r) ! j = ?c \<longleftrightarrow> j = i" using j i dd(8,9) by (simp add: nth_eq_iff_index_eq)
    moreover have "j = i \<longleftrightarrow> m = n" using j i dd(5) by (auto simp: nth_eq_iff_index_eq)
    ultimately show ?thesis using Some i(1,4) by (auto simp: currentLoad_def r'')
  qed
  have fl: "fold (\<lambda>c t. t + f c) cs (t0 :: u64) = t0 + sum_list (map f cs)" for f cs t0
    by (induction cs arbitrary: t0) (simp_all add: add_ac)
  have "sum_list (map (\<lambda>c. (cells r)[?c := cells r ! ?c + d] ! c) cs) = sum_list (map ((!) (cells r)) cs) + (if ?c \<in> set cs then d else 0)"
    if "distinct cs" for cs using that i(4) by (induction cs) (auto simp: nth_list_update)
  from this [OF dd(9)] have "sum_list (map (\<lambda>c. (cells r)[?c := cells r ! ?c + d] ! c) (load_cells (snapshot r)))
      = sum_list (map ((!) (cells r)) (load_cells (snapshot r))) + d"
    using i(2) dd(8) by simp
  then show "totalLoad r' = totalLoad r + d" by (simp add: totalLoad_def fl r'')
qed

lemma load_ops:
  assumes ok: "ring_ok xxh r" and mem: "n \<in> set (physical_nodes (snapshot r))"
  shows "ring_ok xxh (incrementLoad n r)" "currentLoad m (incrementLoad n r) = currentLoad m r + (if m = n then 1 else 0)"
    "totalLoad (incrementLoad n r) = totalLoad r + 1"
    "ring_ok xxh (decrementLoad n r)" "currentLoad m (decrementLoad n r) = currentLoad m r - (if m = n then 1 else 0)"
    "totalLoad (decrementLoad n r) = totalLoad r - 1"
proof -
  obtain i where i: "findIndex n (physical_nodes (snapshot r)) = Some i" by (rule find_cell [OF ok mem])
  note up = bump_load [OF ok mem, of "incrementLoad n r" 1] and dn = bump_load [OF ok mem, of "decrementLoad n r" "-1"]
  show "ring_ok xxh (incrementLoad n r)" "currentLoad m (incrementLoad n r) = currentLoad m r + (if m = n then 1 else 0)"
    "totalLoad (incrementLoad n r) = totalLoad r + 1"
    using up(1) up(2) [of m] up(3) i by (simp_all add: incrementLoad_def Let_def)
  show "ring_ok xxh (decrementLoad n r)" "currentLoad m (decrementLoad n r) = currentLoad m r - (if m = n then 1 else 0)"
    "totalLoad (decrementLoad n r) = totalLoad r - 1"
    using dn(1) dn(2) [of m] dn(3) i by (simp_all add: decrementLoad_def Let_def)
qed

lemma load_absent: "n \<notin> set (physical_nodes (snapshot r)) \<Longrightarrow> incrementLoad n r = r \<and> decrementLoad n r = r"
  by (simp add: incrementLoad_def decrementLoad_def findIndex_None [THEN iffD2])

lemma boundedWalk_find:
  "n = length (hashes (snapshot r)) \<Longrightarrow> cur < n \<Longrightarrow> 0 < d \<Longrightarrow> d \<le> n \<Longrightarrow> (cur + d) mod n = start \<Longrightarrow>
   boundedWalk d r m start cur
     = (case filter (\<lambda>j. cells r ! (load_cells (snapshot r) ! (node_index (snapshot r) ! ((cur + j) mod n))) < m) [0..<d] of
          [] \<Rightarrow> physical_nodes (snapshot r) ! (node_index (snapshot r) ! start)
        | j # _ \<Rightarrow> physical_nodes (snapshot r) ! (node_index (snapshot r) ! ((cur + j) mod n)))"
proof (induction d arbitrary: cur)
  case (Suc d)
  define low where "low = (\<lambda>k. cells r ! (load_cells (snapshot r) ! (node_index (snapshot r) ! (k mod n))) < m)"
  define cur' where "cur' = (if cur + 1 = n then 0 else cur + 1)"
  have cm: "cur' = (cur + 1) mod n" "cur' < n" using Suc.prems by (auto simp: cur'_def)
  have adv: "(cur' + d) mod n = start" unfolding cm(1) using Suc.prems(5) by (simp add: mod_simps)
  have home: "cur' = start \<longleftrightarrow> d = 0" using walk_home [OF cm(2) adv] Suc.prems(4) by simp
  have l: "filter (\<lambda>j. low (cur + j)) [0..<Suc d] = (if low cur then [0] else []) @ map Suc (filter (\<lambda>j. low (cur' + j)) [0..<d])"
    by (simp add: upt_conv_Cons map_Suc_upt [symmetric] filter_map comp_def low_def cm(1) mod_add_left_eq del: upt_Suc)
  have m: "(cur + Suc j) mod n = (cur' + j) mod n" for j unfolding cm(1) by (simp add: mod_simps)
  have step: "boundedWalk (Suc d) r m start cur = (if low cur then physical_nodes (snapshot r) ! (node_index (snapshot r) ! cur)
      else if cur' \<noteq> start then boundedWalk d r m start cur' else physical_nodes (snapshot r) ! (node_index (snapshot r) ! start))"
    using Suc.prems(1,2) by (simp add: Let_def low_def cur'_def)
  have ih: "boundedWalk d r m start cur' = (case filter (\<lambda>j. low (cur' + j)) [0..<d] of
          [] \<Rightarrow> physical_nodes (snapshot r) ! (node_index (snapshot r) ! start)
        | j # _ \<Rightarrow> physical_nodes (snapshot r) ! (node_index (snapshot r) ! ((cur' + j) mod n)))" if "d \<noteq> 0"
    using Suc.IH [of cur'] Suc.prems cm(2) adv that by (simp add: low_def)
  have "boundedWalk (Suc d) r m start cur = (case filter (\<lambda>j. low (cur + j)) [0..<Suc d] of
          [] \<Rightarrow> physical_nodes (snapshot r) ! (node_index (snapshot r) ! start)
        | j # _ \<Rightarrow> physical_nodes (snapshot r) ! (node_index (snapshot r) ! ((cur + j) mod n)))"
  proof (cases "low cur \<or> d = 0")
    case True
    then show ?thesis unfolding step l using home Suc.prems(2) by auto
  next
    case False
    then show ?thesis unfolding step l using home ih m by (simp split: list.split)
  qed
  then show ?case by (simp add: low_def)
qed simp

end
