(* ===== verification/RingProps.thy ===== *)
theory RingProps
  imports HashRing
begin

text \<open>
  The rings a sequence of calls can produce, and what the lookups promise on them: the structural
  invariant, replica sets, how little a membership change moves, independence of history, membership
  replacement and load accounting.
\<close>

inductive ring_reach :: "(bytes \<Rightarrow> u64) \<Rightarrow> (vnode list \<Rightarrow> vnode list) \<Rightarrow> Ring \<Rightarrow> bool" for xxh srt where
  init: "newRing v f = Inr r \<Longrightarrow> ring_reach xxh srt r"
| add: "ring_reach xxh srt r \<Longrightarrow> addNode xxh srt n r = Inr r' \<Longrightarrow> ring_reach xxh srt r'"
| remove: "ring_reach xxh srt r \<Longrightarrow> ring_reach xxh srt (removeNode n r)"
| replace: "ring_reach xxh srt r \<Longrightarrow> setNodes xxh srt ids r = Inr r' \<Longrightarrow> ring_reach xxh srt r'"
| inc: "ring_reach xxh srt r \<Longrightarrow> ring_reach xxh srt (incrementLoad n r)"
| dec: "ring_reach xxh srt r \<Longrightarrow> ring_reach xxh srt (decrementLoad n r)"

lemma removeNode_ok: "ring_ok xxh r \<Longrightarrow> ring_ok xxh (removeNode n r)"
  using removeNode_eq(3) removeNode_absent by (cases "n \<in> set (physical_nodes (snapshot r))") force+

lemma setNodes_Inr:
  assumes "setNodes xxh srt ids r = Inr r'"
  shows "length (remdups ids) \<le> K_MAX_PHYSICAL_NODES"
  using assms by (auto simp: setNodes_def Let_def not_less split: if_splits)

lemma reach_ok:
  assumes srt: "is_sorter srt" and "ring_reach xxh srt r"
  shows "ring_ok xxh r"
  using assms(2)
proof (induction rule: ring_reach.induct)
  case (replace r ids r')
  then show ?case using setNodes_ok [OF replace.IH srt setNodes_Inr [OF replace.hyps(2)]] by (metis sum.inject(2))
next
  case (inc r n)
  then show ?case using load_ops(1) load_absent by (cases "n \<in> set (physical_nodes (snapshot r))") force+
next
  case (dec r n)
  then show ?case using load_ops(4) load_absent by (cases "n \<in> set (physical_nodes (snapshot r))") force+
qed (auto intro: newRing_ok addNode_ok [OF _ srt] removeNode_ok)

lemma addNode_new:
  assumes "addNode xxh srt n r = Inr r'" "n \<notin> set (physical_nodes (snapshot r))"
  shows "physical_nodes (snapshot r') = physical_nodes (snapshot r) @ [n]" "vnodes_per_node r' = vnodes_per_node r"
  using assms by (auto simp: addNode_def Let_def split: if_splits)

lemma sorter_sort_key: "is_sorter (sort_key fst)"
  by (simp add: is_sorter_def)

text \<open>The hashes of all vnodes of a set of members; the lookups need them to be different.\<close>

definition vnodeHashes :: "(bytes \<Rightarrow> u64) \<Rightarrow> nat \<Rightarrow> NodeId list \<Rightarrow> u64 list" where
  "vnodeHashes xxh v ps = map fst (concat (map (vnodesOf xxh v) ps))"

lemma owners_by_members:
  assumes "ring_ok xxh r" "ring_ok xxh r'" "mset (owners (snapshot r)) = mset (owners (snapshot r'))"
    "distinct (vnodeHashes xxh (vnodes_per_node r) (physical_nodes (snapshot r)))"
  shows "owners (snapshot r) = owners (snapshot r')"
proof (rule sorted_owners_unique)
  have "mset (map fst (owners (snapshot r))) = mset (vnodeHashes xxh (vnodes_per_node r) (physical_nodes (snapshot r)))"
    unfolding vnodeHashes_def mset_map ring_okD(7) [OF assms(1)] ..
  then show "distinct (map fst (owners (snapshot r)))" using assms(4) by (metis mset_eq_imp_distinct_iff)
qed (use assms sorted_owners in auto)

lemma same_members:
  assumes ok: "ring_ok xxh r" "ring_ok xxh r'" and v: "vnodes_per_node r = vnodes_per_node r'"
    and mem: "set (physical_nodes (snapshot r)) = set (physical_nodes (snapshot r'))"
    and dist: "distinct (vnodeHashes xxh (vnodes_per_node r) (physical_nodes (snapshot r)))"
  shows "preference xxh key r = preference xxh key r'"
proof -
  have ps: "mset (physical_nodes (snapshot r)) = mset (physical_nodes (snapshot r'))"
    using mem ring_okD(5) [OF ok(1)] ring_okD(5) [OF ok(2)] by (metis set_eq_iff_mset_eq_distinct)
  have cm: "mset (concat (map f xs)) = sum_mset (image_mset (\<lambda>x. mset (f x)) (mset xs))" for f :: "NodeId \<Rightarrow> (u64 \<times> NodeId) list" and xs
    by (induction xs) auto
  have "mset (owners (snapshot r)) = mset (owners (snapshot r'))"
    unfolding ring_okD(7) [OF ok(1)] ring_okD(7) [OF ok(2)] cm ps v ..
  then have "owners (snapshot r) = owners (snapshot r')" by (rule owners_by_members [OF ok _ dist])
  then show ?thesis by (simp add: preference_def)
qed

lemma remove_preference:
  assumes "ring_ok xxh r"
  shows "preference xxh key (removeNode n r) = filter (\<lambda>x. x \<noteq> n) (preference xxh key r)"
proof (cases "n \<in> set (physical_nodes (snapshot r))")
  case True
  then show ?thesis using preference_filter [OF assms removeNode_ok [OF assms], where P = "\<lambda>x. x \<noteq> n"] removeNode_eq(1) [OF assms] by blast
next
  case False
  then have "filter (\<lambda>x. x \<noteq> n) (preference xxh key r) = preference xxh key r"
    using preference_set(1) [OF assms, of key] by (auto simp: filter_id_conv)
  then show ?thesis using False by (simp add: removeNode_absent)
qed

lemma add_preference:
  assumes ok: "ring_ok xxh r" and srt: "is_sorter srt" and run: "addNode xxh srt n r = Inr r'" and new: "n \<notin> set (physical_nodes (snapshot r))"
    and dist: "distinct (vnodeHashes xxh (vnodes_per_node r) (physical_nodes (snapshot r)))"
  shows "preference xxh key r = filter (\<lambda>x. x \<noteq> n) (preference xxh key r')"
proof -
  note ok' = addNode_ok [OF ok srt run] and nw = addNode_new [OF run new]
  have mem: "n \<in> set (physical_nodes (snapshot r'))" using nw by simp
  note rm = removeNode_eq [OF ok' mem]
  have ps: "physical_nodes (snapshot (removeNode n r')) = physical_nodes (snapshot r)"
    using rm(2) nw new by (auto simp: filter_id_conv)
  have v: "vnodes_per_node r = vnodes_per_node (removeNode n r')"
    using nw(2) by (auto simp: removeNode_def Let_def split: option.split)
  have "preference xxh key r = preference xxh key (removeNode n r')"
    using ps by (intro same_members [OF ok rm(3) v _ dist]) simp
  then show ?thesis by (simp add: remove_preference [OF ok'])
qed

text \<open>A two-member ring with a toy hash (of the first byte), for the examples.\<close>

definition demoHash :: "bytes \<Rightarrow> u64" where
  "demoHash k = (case k of [] \<Rightarrow> 0 | c # _ \<Rightarrow> if c = CHR ''a'' then 10 else if c = CHR ''b'' then 20 else 15)"

definition ringAB :: Ring where
  "ringAB = \<lparr>snapshot = \<lparr>hashes = [10, 20], node_index = [0, 1], physical_nodes = [''a'', ''b''], load_cells = [0, 1]\<rparr>,
     cells = [0, 0], vnodes_per_node = 1\<rparr>"

lemma reachAB: "ring_reach demoHash (sort_key fst) ringAB"
proof -
  let ?r = "\<lparr>snapshot = emptySnapshot, cells = [], vnodes_per_node = 1\<rparr>"
  let ?ra = "\<lparr>snapshot = \<lparr>hashes = [10], node_index = [0], physical_nodes = [''a''], load_cells = [0]\<rparr>, cells = [0], vnodes_per_node = 1\<rparr>"
  have "newRing 1 True = Inr ?r" by (simp add: newRing_def)
  then have 0: "ring_reach demoHash (sort_key fst) ?r" by (rule init)
  have "addNode demoHash (sort_key fst) ''a'' ?r = Inr ?ra"
    by (simp add: addNode_def Let_def emptySnapshot_def K_MAX_PHYSICAL_NODES_def toU16_def hashVnode_def demoHash_def)
  from add [OF 0 this] have 1: "ring_reach demoHash (sort_key fst) ?ra" .
  have "addNode demoHash (sort_key fst) ''b'' ?ra = Inr ringAB"
    by (simp add: addNode_def Let_def ringAB_def K_MAX_PHYSICAL_NODES_def toU16_def hashVnode_def demoHash_def)
  from add [OF 1 this] show ?thesis .
qed

text \<open>
  C10. Every ring built by any sequence of \<open>addNode\<close>, \<open>removeNode\<close>, \<open>setNodes\<close>, \<open>incrementLoad\<close> and
  \<open>decrementLoad\<close> calls is well formed: parallel arrays of equal length, sorted hashes, indices in
  range (the 16-bit index never wraps), no duplicate member, exactly the vnodes of the members, and one
  private load cell per member.
\<close>

theorem ring_invariant: "is_sorter srt \<Longrightarrow> ring_reach xxh srt r \<Longrightarrow> ring_ok xxh r"
  by (rule reach_ok)

theorem ring_invariant_witness: "ring_ok demoHash ringAB"
  by (rule ring_invariant [OF sorter_sort_key reachAB])

text \<open>
  C11. \<open>getNodes\<close> rejects a replica count outside 1..32; otherwise it returns distinct members, as many as
  asked for or all of them when there are fewer, headed by the node \<open>getNode\<close> returns, and a smaller
  count gives a prefix of the same list.
\<close>

theorem ring_replicas:
  assumes "is_sorter srt" "ring_reach xxh srt r"
  shows "case getNodes xxh key rc (snapshot r) of
      Inl e \<Rightarrow> e = InvalidArgument \<and> \<not> (1 \<le> rc \<and> rc \<le> 32)
    | Inr ns \<Rightarrow> 1 \<le> rc \<and> rc \<le> 32 \<and> distinct ns \<and> set ns \<subseteq> set (physical_nodes (snapshot r))
        \<and> length ns = min (nat rc) (length (physical_nodes (snapshot r)))
        \<and> getNode xxh key (snapshot r) = (case ns of [] \<Rightarrow> [] | n # _ \<Rightarrow> n)
        \<and> (\<forall>k. 1 \<le> k \<and> k \<le> rc \<longrightarrow> getNodes xxh key k (snapshot r) = Inr (take (nat k) ns))"
proof -
  note ok = reach_ok [OF assms]
  note p = preference_set [OF ok, of key] and g = getNodes_preference [OF ok, of key]
  show ?thesis
  proof (cases "1 \<le> rc \<and> rc \<le> 32")
    case True
    let ?ns = "take (nat rc) (preference xxh key r)"
    have "getNodes xxh key rc (snapshot r) = Inr ?ns" using True g [of rc] by (simp add: K_MAX_REPLICAS_def)
    moreover have "distinct ?ns" "set ?ns \<subseteq> set (physical_nodes (snapshot r))" "length ?ns = min (nat rc) (length (physical_nodes (snapshot r)))"
      using p by (auto dest: in_set_takeD)
    moreover have "getNode xxh key (snapshot r) = (case ?ns of [] \<Rightarrow> [] | n # _ \<Rightarrow> n)"
      using True getNode_preference [OF ok, of key] by (cases "preference xxh key r"; cases "nat rc") auto
    moreover have "getNodes xxh key k (snapshot r) = Inr (take (nat k) ?ns)" if "1 \<le> k" "k \<le> rc" for k
      using that True g [of k] by (simp add: K_MAX_REPLICAS_def min_def nat_mono)
    ultimately show ?thesis using True by (simp del: take_take)
  next
    case False
    then show ?thesis using g [of rc] by (auto simp: K_MAX_REPLICAS_def)
  qed
qed

theorem ring_replicas_witness:
  "is_sorter (sort_key fst :: vnode list \<Rightarrow> vnode list) \<and> ring_reach demoHash (sort_key fst) ringAB
    \<and> distinct (case getNodes demoHash ''k'' 2 (snapshot ringAB) of Inr ns \<Rightarrow> ns | _ \<Rightarrow> [])"
  using ring_replicas [OF sorter_sort_key reachAB, where key = "''k''" and rc = 2] sorter_sort_key reachAB by (auto split: sum.splits)

text \<open>
  C12. Membership changes move as little as possible. When a node leaves, a replica list loses that node
  and gains at most one node at its end, and lists without that node do not change; when a new node
  joins (and vnode hashes do not collide), the old list is the new list without the newcomer, with at
  most one node more.
\<close>

theorem ring_minimal_disruption:
  assumes "is_sorter srt" "ring_reach xxh srt r" "getNodes xxh key rc (snapshot r) = Inr before"
  shows "(\<exists>rest. getNodes xxh key rc (snapshot (removeNode n r)) = Inr (filter (\<lambda>x. x \<noteq> n) before @ rest)
      \<and> length rest \<le> (if n \<in> set before then 1 else 0))
    \<and> (\<forall>r'. addNode xxh srt n r = Inr r' \<and> n \<notin> set (physical_nodes (snapshot r))
        \<and> distinct (vnodeHashes xxh (vnodes_per_node r) (physical_nodes (snapshot r))) \<longrightarrow>
      (\<exists>after rest. getNodes xxh key rc (snapshot r') = Inr after \<and> before = filter (\<lambda>x. x \<noteq> n) after @ rest
        \<and> length rest \<le> (if n \<in> set after then 1 else 0)))"
proof (intro conjI allI impI)
  note ok = reach_ok [OF assms(1,2)]
  have rc: "1 \<le> rc \<and> rc \<le> int K_MAX_REPLICAS" and bf: "before = take (nat rc) (preference xxh key r)"
    using assms(3) getNodes_preference [OF ok, of key rc] by (auto split: if_splits)
  show "\<exists>rest. getNodes xxh key rc (snapshot (removeNode n r)) = Inr (filter (\<lambda>x. x \<noteq> n) before @ rest)
      \<and> length rest \<le> (if n \<in> set before then 1 else 0)"
    using take_filter_one [OF preference_set(2) [OF ok, of key], of "nat rc" n]
    by (simp add: getNodes_preference [OF removeNode_ok [OF ok]] rc remove_preference [OF ok] bf)
  fix r'
  assume a: "addNode xxh srt n r = Inr r' \<and> n \<notin> set (physical_nodes (snapshot r))
      \<and> distinct (vnodeHashes xxh (vnodes_per_node r) (physical_nodes (snapshot r)))"
  then have run: "addNode xxh srt n r = Inr r'" and new: "n \<notin> set (physical_nodes (snapshot r))"
    and dist: "distinct (vnodeHashes xxh (vnodes_per_node r) (physical_nodes (snapshot r)))" by simp_all
  note ok' = addNode_ok [OF ok assms(1) run]
  show "\<exists>after rest. getNodes xxh key rc (snapshot r') = Inr after \<and> before = filter (\<lambda>x. x \<noteq> n) after @ rest
      \<and> length rest \<le> (if n \<in> set after then 1 else 0)"
    using take_filter_one [OF preference_set(2) [OF ok', of key], of "nat rc" n]
    by (simp add: getNodes_preference [OF ok'] rc bf add_preference [OF ok assms(1) run new dist])
qed

theorem ring_minimal_disruption_witness:
  "\<exists>rest. getNodes demoHash ''k'' 1 (snapshot (removeNode ''a'' ringAB)) = Inr (filter (\<lambda>x. x \<noteq> ''a'') [''b''] @ rest)
      \<and> length rest \<le> 0"
proof -
  have "getNodes demoHash ''k'' 1 (snapshot ringAB) = Inr [''b'']"
    by (simp add: getNodes_def K_MAX_REPLICAS_def ringAB_def startIndex_def lowerBound_def hashKey_def demoHash_def)
  from ring_minimal_disruption [OF sorter_sort_key reachAB this, where n = "''a''"] show ?thesis by simp
qed

text \<open>
  C16. Routing depends only on the members: two rings with the same members and the same number of vnodes
  per node, built by any two histories of calls and by sorts that break ties differently, send every key
  to the same node and the same replicas, when vnode hashes do not collide.
\<close>

theorem ring_history_independent:
  assumes "is_sorter srt" "is_sorter srt'" "ring_reach xxh srt r" "ring_reach xxh srt' r'"
    "vnodes_per_node r = vnodes_per_node r'" "set (physical_nodes (snapshot r)) = set (physical_nodes (snapshot r'))"
    "distinct (vnodeHashes xxh (vnodes_per_node r) (physical_nodes (snapshot r)))"
  shows "getNode xxh key (snapshot r) = getNode xxh key (snapshot r') \<and> getNodes xxh key rc (snapshot r) = getNodes xxh key rc (snapshot r')"
proof -
  note ok = reach_ok [OF assms(1,3)] and ok' = reach_ok [OF assms(2,4)]
  have "preference xxh key r = preference xxh key r'" by (rule same_members [OF ok ok' assms(5-7)])
  then show ?thesis by (simp add: getNode_preference [OF ok] getNode_preference [OF ok'] getNodes_preference [OF ok] getNodes_preference [OF ok'])
qed

theorem ring_history_independent_witness:
  "getNode demoHash ''k'' (snapshot ringAB) = getNode demoHash ''k'' (snapshot (incrementLoad ''a'' ringAB))"
  using ring_history_independent [OF sorter_sort_key sorter_sort_key reachAB ring_reach.inc [OF reachAB, of "''a''"], where key = "''k''" and rc = 1]
  by (simp add: incrementLoad_def ringAB_def vnodeHashes_def vnodesOf_def hashVnode_def demoHash_def decimal.simps)

text \<open>
  \<open>setNodes\<close> replaces the membership in one step: it fails only with a length error and only for more
  than 65536 distinct ids (its internal consistency check never fires), otherwise the members are exactly
  the given ids with the survivors first and in their old order, survivors keep their load counters, and
  newcomers start at zero.
\<close>

theorem set_nodes_spec:
  assumes "is_sorter srt" "ring_reach xxh srt r"
  shows "case setNodes xxh srt ids r of
      Inl e \<Rightarrow> e = LengthError \<and> card (set ids) > 65536
    | Inr r' \<Rightarrow> card (set ids) \<le> 65536 \<and> set (physical_nodes (snapshot r')) = set ids
        \<and> filter (\<lambda>n. n \<in> set (physical_nodes (snapshot r))) (physical_nodes (snapshot r'))
          = filter (\<lambda>n. n \<in> set ids) (physical_nodes (snapshot r))
        \<and> (\<forall>n \<in> set ids. currentLoad n r' = (if n \<in> set (physical_nodes (snapshot r)) then currentLoad n r else 0))"
proof (cases "card (set ids) \<le> 65536")
  case True
  let ?ps = "physical_nodes (snapshot r)"
  note ok = reach_ok [OF assms]
  have small: "length (remdups ids) \<le> K_MAX_PHYSICAL_NODES" using True by (simp add: length_remdups_card_conv K_MAX_PHYSICAL_NODES_def)
  obtain r' fresh where run: "setNodes xxh srt ids r = Inr r'" and ok': "ring_ok xxh r'" and mem: "set (physical_nodes (snapshot r')) = set ids"
    and ps: "physical_nodes (snapshot r') = filter (\<lambda>n. n \<in> set ids) ?ps @ fresh"
    and zc: "zip (physical_nodes (snapshot r')) (load_cells (snapshot r'))
      = filter (\<lambda>z. fst z \<in> set ids) (zip ?ps (load_cells (snapshot r))) @ zip fresh [length (cells r)..<length (cells r')]"
    and cs: "cells r' = cells r @ replicate (length fresh) 0"
    by (rule setNodes_ok [OF ok assms(1) small])
  have fr: "set fresh \<inter> set ?ps = {}" using ring_okD(5) [OF ok'] mem unfolding ps by auto
  have "currentLoad n r' = (if n \<in> set ?ps then currentLoad n r else 0)" if n: "n \<in> set ids" for n
  proof (cases "n \<in> set ?ps")
    case True
    then obtain c where c: "(n, c) \<in> set (zip ?ps (load_cells (snapshot r)))"
      using ring_okD(8) [OF ok] by (metis in_set_impl_in_set_zip1)
    then have "(n, c) \<in> set (zip (physical_nodes (snapshot r')) (load_cells (snapshot r')))" using n zc by auto
    moreover have "c < length (cells r)" using c ring_okD(10) [OF ok] by (auto dest: set_zip_rightD)
    ultimately show ?thesis using True currentLoad_zip [OF ok c] currentLoad_zip [OF ok'] cs by (simp add: nth_append)
  next
    case False
    then have "n \<in> set fresh" using n mem ps by auto
    then obtain j where j: "j < length fresh" "fresh ! j = n" by (auto simp: in_set_conv_nth)
    then have "(n, length (cells r) + j) \<in> set (zip fresh [length (cells r)..<length (cells r')])"
      using cs by (auto simp: set_zip intro!: exI [of _ j])
    then have "(n, length (cells r) + j) \<in> set (zip (physical_nodes (snapshot r')) (load_cells (snapshot r')))" using zc by auto
    then show ?thesis using False j(1) currentLoad_zip [OF ok'] cs by (simp add: nth_append)
  qed
  moreover have "filter (\<lambda>n. n \<in> set ?ps) (physical_nodes (snapshot r')) = filter (\<lambda>n. n \<in> set ids) ?ps"
  proof -
    have "filter (\<lambda>n. n \<in> set ?ps) fresh = []" using fr by (auto simp: filter_empty_conv)
    moreover have "filter (\<lambda>n. n \<in> set ?ps) (filter (\<lambda>n. n \<in> set ids) ?ps) = filter (\<lambda>n. n \<in> set ids) ?ps"
      by (simp add: filter_id_conv del: filter_filter)
    ultimately show ?thesis unfolding ps filter_append by simp
  qed
  ultimately show ?thesis using run True mem by simp
next
  case False
  then show ?thesis by (simp add: setNodes_def Let_def length_remdups_card_conv K_MAX_PHYSICAL_NODES_def)
qed

theorem set_nodes_spec_witness:
  "is_sorter (sort_key fst :: vnode list \<Rightarrow> vnode list) \<and> ring_reach demoHash (sort_key fst) ringAB
    \<and> (\<exists>r'. setNodes demoHash (sort_key fst) [''b'', ''c''] ringAB = Inr r' \<and> set (physical_nodes (snapshot r')) = {''b'', ''c''})"
  using set_nodes_spec [OF sorter_sort_key reachAB, where ids = "[''b'', ''c'']"] sorter_sort_key reachAB
  by (auto split: sum.splits simp: card_insert_if)

text \<open>
  Bounded-load routing: with at least two members and a load factor, \<open>getNodeBounded\<close> returns a member
  whose load is below the bound whenever one exists, and falls back to the plain owner of the key when
  none does.
\<close>

theorem ring_bounded_load:
  assumes "is_sorter srt" "ring_reach xxh srt r" "2 \<le> length (physical_nodes (snapshot r))"
  shows "let n = getNodeBounded xxh (Some bound) key r; m = bound (totalLoad r) (length (physical_nodes (snapshot r))) in n \<in> set (physical_nodes (snapshot r))
    \<and> (currentLoad n r < m \<or> n = getNode xxh key (snapshot r) \<and> (\<forall>k \<in> set (physical_nodes (snapshot r)). m \<le> currentLoad k r))"
proof -
  let ?s = "snapshot r" and ?ps = "physical_nodes (snapshot r)" and ?n = "length (hashes (snapshot r))"
  define m where "m = bound (totalLoad r) (length ?ps)"
  note ok = reach_ok [OF assms(1,2)]
  note d = ring_okD [OF ok]
  have ne: "hashes ?s \<noteq> []" using assms(3) hashes_owners [OF ok] ring_empty [OF ok] by auto
  define st where "st = startIndex xxh key ?s"
  have "length (owners ?s) = ?n" using d(2) by (simp add: owners_def)
  moreover have "owners ?s \<noteq> []" using ne hashes_owners [OF ok] by simp
  ultimately have st: "st < ?n" unfolding st_def startIndex_owner [OF d(2)] by (metis ownerStart_less)
  let ?low = "\<lambda>j. cells r ! (load_cells ?s ! (node_index ?s ! ((st + j) mod ?n))) < m"
  have at: "node_index ?s ! ((st + j) mod ?n) < length ?ps" for j
    using ne d(2) by (intro d(4)) simp
  have ld: "currentLoad (?ps ! i) r = cells r ! (load_cells ?s ! i)" if "i < length ?ps" for i
    using findIndex_nth [OF d(5) that] by (simp add: currentLoad_def)
  have b: "getNodeBounded xxh (Some bound) key r = (case filter ?low [0..<?n] of [] \<Rightarrow> ?ps ! (node_index ?s ! st)
        | j # _ \<Rightarrow> ?ps ! (node_index ?s ! ((st + j) mod ?n)))"
  proof -
    have "?ps \<noteq> []" "length ?ps \<noteq> 1" using assms(3) by auto
    then have "getNodeBounded xxh (Some bound) key r = boundedWalk ?n r m st st" using ne by (simp add: getNodeBounded_def Let_def st_def m_def)
    also have "\<dots> = (case filter ?low [0..<?n] of [] \<Rightarrow> ?ps ! (node_index ?s ! st)
        | j # _ \<Rightarrow> ?ps ! (node_index ?s ! ((st + j) mod ?n)))"
      using st ne by (intro boundedWalk_find) simp_all
    finally show ?thesis .
  qed
  show ?thesis
  proof (cases "filter ?low [0..<?n]")
    case (Cons j js)
    then have "j \<in> set (filter ?low [0..<?n])" by simp
    then have "?low j" unfolding set_filter by blast
    then show ?thesis using Cons b at [of j] ld [OF at [of j]] by (simp add: Let_def m_def [symmetric])
  next
    case Nil
    have all: "m \<le> currentLoad k r" if k: "k \<in> set ?ps" for k
    proof -
      obtain x where "x \<in> set (owners ?s)" "snd x = k" using owned [OF ok] k by auto
      then obtain p where p: "p < ?n" "?ps ! (node_index ?s ! p) = k" using d(2) by (auto simp: owners_def set_zip)
      define j where "j = (p + ?n - st) mod ?n"
      have "0 < ?n" using ne by simp
      then have j: "j < ?n" "(st + j) mod ?n = p" using p(1) st by (simp_all add: j_def mod_add_right_eq)
      have "\<not> ?low j" using Nil j(1) by (simp add: filter_empty_conv)
      then show ?thesis using ld [OF at [of j]] j(2) p(2) by (simp add: not_less)
    qed
    have "getNodeBounded xxh (Some bound) key r = getNode xxh key ?s" using b Nil ne by (simp add: getNode_def st_def)
    moreover have "getNode xxh key ?s \<in> set ?ps" using at [of 0] st ne by (simp add: getNode_def st_def [symmetric])
    ultimately show ?thesis using all by (simp add: Let_def m_def [symmetric])
  qed
qed

theorem ring_bounded_load_witness:
  "2 \<le> length (physical_nodes (snapshot ringAB)) \<and> getNodeBounded demoHash (Some (\<lambda>_ _. 1)) ''k'' ringAB \<in> {''a'', ''b''}"
  using ring_bounded_load [OF sorter_sort_key reachAB, where bound = "\<lambda>_ _. 1" and key = "''k''"] by (auto simp: Let_def ringAB_def)

text \<open>
  Load accounting: \<open>incrementLoad\<close> and \<open>decrementLoad\<close> of a member change its counter by one, no other
  counter, and the total by one, all modulo 2^64; on a node that is not a member they do nothing.
\<close>

theorem ring_load_accounting:
  assumes "is_sorter srt" "ring_reach xxh srt r"
  shows "if n \<in> set (physical_nodes (snapshot r)) then
       currentLoad k (incrementLoad n r) = currentLoad k r + (if k = n then 1 else 0) \<and> totalLoad (incrementLoad n r) = totalLoad r + 1
       \<and> currentLoad k (decrementLoad n r) = currentLoad k r - (if k = n then 1 else 0) \<and> totalLoad (decrementLoad n r) = totalLoad r - 1
     else incrementLoad n r = r \<and> decrementLoad n r = r \<and> currentLoad n r = 0"
  using load_ops [OF reach_ok [OF assms], of n] load_absent [of n r] by (simp add: currentLoad_def findIndex_None [THEN iffD2])

theorem ring_load_accounting_witness: "currentLoad ''b'' (incrementLoad ''a'' ringAB) = 0 \<and> totalLoad (incrementLoad ''a'' ringAB) = 1"
  using ring_load_accounting [OF sorter_sort_key reachAB, where n = "''a''" and k = "''b''"]
  by (simp add: ringAB_def currentLoad_def totalLoad_def)

end
