(* ===== verification/ClusterNode.thy ===== *)
theory ClusterNode
  imports Gossip FailureDetector RingProps
begin

text \<open>
  The membership side of a node: the table, the gossip manager and the failure detector, with the change
  observers that both of them register on the table (\<open>GossipManager::start\<close>, \<open>FailureDetector::start\<close>), and
  the ring that follows the table (\<open>CacheNodeServer::seedCluster\<close>, \<open>CacheNodeServer::rebuildRing\<close>).
\<close>

section \<open>Model\<close>

record ClusterNode =
  cn_table :: MembershipTable
  cn_gossip_peers :: "NodeId list"
  cn_fd :: FailureDetector

definition notify :: "bool \<Rightarrow> ClusterNode \<Rightarrow> ClusterNode" where
  "notify changed n =
     (if changed then n\<lparr>cn_gossip_peers := rebuildPeers (mt_self (cn_table n)) (cn_table n),
        cn_fd := fdRebuildPeers (cn_table n) (cn_fd n)\<rparr>
      else n)"

definition onTable :: "(MembershipTable \<Rightarrow> MembershipTable \<times> bool) \<Rightarrow> ClusterNode \<Rightarrow> ClusterNode" where
  "onTable f n = (case f (cn_table n) of (t, changed) \<Rightarrow> notify changed (n\<lparr>cn_table := t\<rparr>))"

definition startNode :: "NodeId \<Rightarrow> int \<Rightarrow> int \<Rightarrow> NodeConfig list \<Rightarrow> u16 \<Rightarrow> ClusterNode" where
  "startNode self timeout_ms now peers port =
     (let t = setSelfAddress ''127.0.0.1'' port (seed now peers (newMembershipTable self))
      in \<lparr>cn_table = t, cn_gossip_peers = rebuildPeers self t,
          cn_fd = fdRebuildPeers t (newFailureDetector self timeout_ms)\<rparr>)"

definition nodeHandleGossip :: "int \<Rightarrow> string \<Rightarrow> ClusterNode \<Rightarrow> ClusterNode" where
  "nodeHandleGossip now value n = fold (\<lambda>rumor. onTable (applyRumor now rumor)) (decodeView value) n"

definition nodeTick :: "int \<Rightarrow> ClusterNode \<Rightarrow> ClusterNode \<times> NodeId option" where
  "nodeTick now n =
     (case fdTickLocked now (cn_table n) (cn_fd n) of
        (fd, timed_out, dead, probe) \<Rightarrow>
          let n = n\<lparr>cn_fd := fd\<rparr>;
              n = fold (\<lambda>p. onTable (markSuspect p)) timed_out n;
              n = fold (\<lambda>p. onTable (markDead p)) dead n
          in (n, probe))"

definition nodeProbeResult :: "int \<Rightarrow> NodeId \<Rightarrow> bool \<Rightarrow> ClusterNode \<Rightarrow> ClusterNode" where
  "nodeProbeResult now peer acked n =
     (case onProbeResultLocked now peer acked (cn_fd n) of
        (fd, None) \<Rightarrow> n
      | (fd, Some failures) \<Rightarrow>
          let n = n\<lparr>cn_fd := fd\<rparr> in
          if acked then
            onTable (markAlive now peer (case mtGet peer (cn_table n) of None \<Rightarrow> 0 | Some i \<Rightarrow> ni_incarnation i)) n
          else if failures < K_SUSPECT_THRESHOLD then n
          else onTable (markSuspect peer) n)"

definition ringMembers :: "NodeId \<Rightarrow> MembershipTable \<Rightarrow> NodeId list" where
  "ringMembers self t = self # map ni_id (filter (\<lambda>i. ni_id i \<noteq> self \<and> ni_state i = Alive) (mtSnapshot t))"

definition rebuildRing :: "(bytes \<Rightarrow> u64) \<Rightarrow> (vnode list \<Rightarrow> vnode list) \<Rightarrow> NodeId \<Rightarrow> MembershipTable \<Rightarrow> Ring \<Rightarrow> RingError + Ring" where
  "rebuildRing xxh srt self t r = setNodes xxh srt (ringMembers self t) r"

section \<open>What the table operations change\<close>

text \<open>
  Every operation that the node runs on its table changes at most one entry, keeps the table well
  formed, reports a change exactly when it makes one, and never takes the node itself out of the live
  state.
\<close>

definition selfAlive :: "MembershipTable \<Rightarrow> bool" where
  "selfAlive t \<longleftrightarrow> (\<exists>i. mtGet (mt_self t) t = Some i \<and> ni_state i = Alive)"

definition safe_op :: "NodeId \<Rightarrow> (MembershipTable \<Rightarrow> MembershipTable \<times> bool) \<Rightarrow> bool" where
  "safe_op self f \<longleftrightarrow> (\<forall>t. table_ok t \<and> mt_self t = self \<longrightarrow>
     table_ok (fst (f t)) \<and> mt_self (fst (f t)) = self \<and> (selfAlive t \<longrightarrow> selfAlive (fst (f t)))
     \<and> (\<not> snd (f t) \<longrightarrow> fst (f t) = t))"

lemma refuteSelfRumor_eq:
  assumes "mtGet (mt_self t) t = Some self" "ni_incarnation self \<le> ni_incarnation rumor"
  shows "refuteSelfRumor rumor t = (mtPut (mt_self t) (self\<lparr>ni_incarnation := ni_incarnation rumor + 1, ni_state := Alive\<rparr>) t, True)"
proof -
  have e: "self\<lparr>ni_incarnation := x, ni_state := Alive\<rparr> = self\<lparr>ni_incarnation := x\<rparr>" if "ni_state self = Alive" for x
    using that by (cases self) simp
  show ?thesis
    using assms by (cases "ni_state self = Alive") (simp_all add: refuteSelfRumor_def Let_def max_absorb2 e)
qed

text \<open>The branches of \<open>applyRumor\<close> for a known node.\<close>

lemma applyRumor_known:
  assumes "mtGet (ni_id rumor) t = Some local"
  shows "ni_incarnation rumor < ni_incarnation local \<or> (ni_incarnation rumor = ni_incarnation local \<and> ni_state rumor = ni_state local) \<Longrightarrow>
      applyRumor now rumor t = (t, False)"
    and "\<not> (ni_incarnation rumor < ni_incarnation local \<or> (ni_incarnation rumor = ni_incarnation local \<and> ni_state rumor = ni_state local)) \<Longrightarrow>
      ni_id rumor = mt_self t \<and> ni_state rumor \<noteq> Alive \<Longrightarrow>
      applyRumor now rumor t = (mtPut (mt_self t) (local\<lparr>ni_incarnation := ni_incarnation rumor + 1, ni_state := Alive\<rparr>) t, True)"
    and "\<not> (ni_incarnation rumor < ni_incarnation local \<or> (ni_incarnation rumor = ni_incarnation local \<and> ni_state rumor = ni_state local)) \<Longrightarrow>
      \<not> (ni_id rumor = mt_self t \<and> ni_state rumor \<noteq> Alive) \<Longrightarrow>
      \<exists>i. applyRumor now rumor t = (mtPut (ni_id rumor) i t, True) \<and> ni_id i = ni_id local \<and> ni_state i = ni_state rumor
        \<and> ni_incarnation i = ni_incarnation rumor \<and> ni_host i \<in> {ni_host local, ni_host rumor}"
proof -
  show "ni_incarnation rumor < ni_incarnation local \<or> (ni_incarnation rumor = ni_incarnation local \<and> ni_state rumor = ni_state local) \<Longrightarrow>
      applyRumor now rumor t = (t, False)"
    using assms by (auto simp: applyRumor_def)
  assume n: "\<not> (ni_incarnation rumor < ni_incarnation local \<or> (ni_incarnation rumor = ni_incarnation local \<and> ni_state rumor = ni_state local))"
  then have br: "\<not> ni_incarnation rumor < ni_incarnation local" "\<not> (ni_incarnation rumor = ni_incarnation local \<and> ni_state rumor = ni_state local)" by blast+
  show "ni_id rumor = mt_self t \<and> ni_state rumor \<noteq> Alive \<Longrightarrow>
      applyRumor now rumor t = (mtPut (mt_self t) (local\<lparr>ni_incarnation := ni_incarnation rumor + 1, ni_state := Alive\<rparr>) t, True)"
  proof -
    assume s: "ni_id rumor = mt_self t \<and> ni_state rumor \<noteq> Alive"
    have "applyRumor now rumor t = refuteSelfRumor rumor t" using assms br s by (auto simp: applyRumor_def)
    also have "\<dots> = (mtPut (mt_self t) (local\<lparr>ni_incarnation := ni_incarnation rumor + 1, ni_state := Alive\<rparr>) t, True)"
      using refuteSelfRumor_eq [of t local rumor] assms s br(1) by (simp add: not_less)
    finally show ?thesis .
  qed
  assume ad: "\<not> (ni_id rumor = mt_self t \<and> ni_state rumor \<noteq> Alive)"
  define i0 where "i0 = local\<lparr>ni_state := ni_state rumor, ni_incarnation := ni_incarnation rumor\<rparr>"
  define i1 where "i1 = (if ni_host i0 = [] \<and> ni_host rumor \<noteq> [] then i0\<lparr>ni_host := ni_host rumor\<rparr> else i0)"
  define i2 where "i2 = (if ni_port i1 = 0 \<and> ni_port rumor \<noteq> 0 then i1\<lparr>ni_port := ni_port rumor\<rparr> else i1)"
  have "applyRumor now rumor t = (mtPut (ni_id rumor) i2 t, ni_state local \<noteq> ni_state rumor \<or> ni_incarnation local \<noteq> ni_incarnation rumor)"
    unfolding applyRumor_def assms option.case if_not_P [OF br(1)] if_not_P [OF br(2)] if_not_P [OF ad] Let_def i0_def i1_def i2_def ..
  moreover have "ni_state local \<noteq> ni_state rumor \<or> ni_incarnation local \<noteq> ni_incarnation rumor" using br(2) by auto
  moreover have "ni_id i2 = ni_id local \<and> ni_state i2 = ni_state rumor \<and> ni_incarnation i2 = ni_incarnation rumor
      \<and> ni_host i2 \<in> {ni_host local, ni_host rumor}"
    by (simp add: i2_def i1_def i0_def)
  ultimately show "\<exists>i. applyRumor now rumor t = (mtPut (ni_id rumor) i t, True) \<and> ni_id i = ni_id local \<and> ni_state i = ni_state rumor
        \<and> ni_incarnation i = ni_incarnation rumor \<and> ni_host i \<in> {ni_host local, ni_host rumor}"
    by (intro exI [of _ i2]) simp
qed

lemma applyRumor_cases:
  assumes ok: "table_ok t" and run: "applyRumor now rumor t = (t', changed)"
  obtains (same) "t' = t" "\<not> changed"
  | (put) i where "t' = mtPut (ni_id rumor) i t" "ni_id i = ni_id rumor" "changed"
      "ni_id rumor = mt_self t \<longrightarrow> ni_state i = Alive"
      "ni_host i = ni_host rumor \<or> (\<exists>l. mtGet (ni_id rumor) t = Some l \<and> ni_host i = ni_host l)"
proof (cases "mtGet (ni_id rumor) t")
  case None
  then have "ni_id rumor \<noteq> mt_self t" using table_okD(3) [OF ok] by auto
  then show ?thesis using that None run by (auto simp: applyRumor_def split: if_splits)
next
  case (Some local)
  note br = applyRumor_known [OF Some, of now]
  have idl: "ni_id local = ni_id rumor" by (rule table_okD(2) [OF ok Some])
  show ?thesis
  proof (cases "ni_incarnation rumor < ni_incarnation local \<or> (ni_incarnation rumor = ni_incarnation local \<and> ni_state rumor = ni_state local)")
    case True
    then show ?thesis using that(1) br(1) run by simp
  next
    case nonstale: False
    show ?thesis
    proof (cases "ni_id rumor = mt_self t \<and> ni_state rumor \<noteq> Alive")
      case True
      then show ?thesis using that(2) br(2) [OF nonstale] run idl Some by simp
    next
      case False
      then show ?thesis using that(2) br(3) [OF nonstale] run idl Some by fastforce
    qed
  qed
qed

lemma put_selfAlive: "table_ok t \<Longrightarrow> selfAlive t \<Longrightarrow> (k = mt_self t \<Longrightarrow> ni_state i = Alive) \<Longrightarrow> selfAlive (mtPut k i t)"
  by (auto simp: selfAlive_def)

lemma safe_applyRumor: "safe_op self (applyRumor now rumor)"
  unfolding safe_op_def
proof (intro allI impI)
  fix t assume t: "table_ok t \<and> mt_self t = self"
  obtain t' c where run: "applyRumor now rumor t = (t', c)" by fastforce
  show "table_ok (fst (applyRumor now rumor t)) \<and> mt_self (fst (applyRumor now rumor t)) = self
      \<and> (selfAlive t \<longrightarrow> selfAlive (fst (applyRumor now rumor t)))
      \<and> (\<not> snd (applyRumor now rumor t) \<longrightarrow> fst (applyRumor now rumor t) = t)"
    using applyRumor_cases [OF conjunct1 [OF t] run]
    by cases (use t run put_selfAlive in auto)
qed

lemma applyRumor_ok:
  assumes "table_ok t"
  shows "table_ok (fst (applyRumor now rumor t))" "mt_self (fst (applyRumor now rumor t)) = mt_self t"
  using safe_applyRumor [of "mt_self t" now rumor] assms unfolding safe_op_def by blast+

lemma mtPut_update: "table_ok t \<Longrightarrow> mtGet p t = Some x \<Longrightarrow> ni_id i = ni_id x \<Longrightarrow> table_ok (mtPut p i t)"
  using table_okD(2) by simp

lemma safe_mark:
  "p \<noteq> self \<Longrightarrow> safe_op self (markSuspect p)" "p \<noteq> self \<Longrightarrow> safe_op self (markDead p)" "safe_op self (markAlive now p inc)"
  by (auto simp: safe_op_def markSuspect_def markDead_def markAlive_def Let_def put_selfAlive intro!: mtPut_update split: option.splits)

lemma setSelfAddress_ok:
  assumes "table_ok t"
  shows "table_ok (setSelfAddress host port t)" "mt_self (setSelfAddress host port t) = mt_self t"
    "selfAlive t \<Longrightarrow> selfAlive (setSelfAddress host port t)"
  using assms by (auto simp: setSelfAddress_def selfAlive_def intro!: mtPut_update split: option.splits)

lemma seed_ok:
  "table_ok t \<Longrightarrow> table_ok (seed now peers t) \<and> mt_self (seed now peers t) = mt_self t \<and> (selfAlive t \<longrightarrow> selfAlive (seed now peers t))"
  by (induction now peers t rule: seed.induct) (auto simp: put_selfAlive)

lemma new_selfAlive: "selfAlive (newMembershipTable self)"
  by (simp add: selfAlive_def newMembershipTable_def mtPut_def)

section \<open>The node invariant\<close>

definition cn_ok :: "NodeId \<Rightarrow> ClusterNode \<Rightarrow> bool" where
  "cn_ok self n \<longleftrightarrow> table_ok (cn_table n) \<and> mt_self (cn_table n) = self \<and> selfAlive (cn_table n)
     \<and> fd_self (cn_fd n) = self \<and> cn_gossip_peers n = rebuildPeers self (cn_table n)
     \<and> fd_peers (cn_fd n) = cn_gossip_peers n \<and> self \<notin> fst ` set (fd_state (cn_fd n))
     \<and> distinct (map fst (fd_state (cn_fd n)))"

lemma rebuildPeers_set:
  assumes "table_ok t"
  shows "set (rebuildPeers self t) = {p. p \<noteq> self \<and> mtGet p t \<noteq> None}" "distinct (rebuildPeers self t)"
proof -
  have k: "map ni_id (mtSnapshot t) = map fst (mt_nodes t)"
    using assms by (auto simp: mtSnapshot_def table_ok_def split_def)
  have "rebuildPeers self t = sort (filter (\<lambda>p. p \<noteq> self) (map ni_id (mtSnapshot t)))"
    by (simp add: rebuildPeers_def filter_map comp_def)
  then have r: "rebuildPeers self t = sort (filter (\<lambda>p. p \<noteq> self) (map fst (mt_nodes t)))" unfolding k .
  show "set (rebuildPeers self t) = {p. p \<noteq> self \<and> mtGet p t \<noteq> None}"
    unfolding r by (auto simp: map_of_eq_None_iff)
  show "distinct (rebuildPeers self t)" unfolding r using table_okD(4) [OF assms] by simp
qed

lemma fdRebuildPeers_eq: "fd_peers (fdRebuildPeers t fd) = rebuildPeers (fd_self fd) t" "fd_self (fdRebuildPeers t fd) = fd_self fd"
  "fd_state (fdRebuildPeers t fd) = fd_state fd" "fd_timeout_ms (fdRebuildPeers t fd) = fd_timeout_ms fd"
  "fd_next_peer (fdRebuildPeers t fd) = fd_next_peer fd"
  by (simp_all add: fdRebuildPeers_def rebuildPeers_def)

lemma onTable_ok:
  assumes ok: "cn_ok self n" and f: "safe_op self f"
  shows "cn_ok self (onTable f n)" "fd_state (cn_fd (onTable f n)) = fd_state (cn_fd n)"
    "cn_table (onTable f n) = fst (f (cn_table n))" "fd_timeout_ms (cn_fd (onTable f n)) = fd_timeout_ms (cn_fd n)"
proof -
  obtain t c where run: "f (cn_table n) = (t, c)" by fastforce
  have t: "table_ok t" "mt_self t = self" "selfAlive t" "\<not> c \<Longrightarrow> t = cn_table n"
    using f ok run unfolding safe_op_def cn_ok_def by (metis fst_conv snd_conv)+
  show "fd_state (cn_fd (onTable f n)) = fd_state (cn_fd n)" "cn_table (onTable f n) = fst (f (cn_table n))"
    "fd_timeout_ms (cn_fd (onTable f n)) = fd_timeout_ms (cn_fd n)"
    by (simp_all add: onTable_def run notify_def fdRebuildPeers_eq)
  show "cn_ok self (onTable f n)"
    using ok t by (cases c) (simp_all add: onTable_def run notify_def cn_ok_def fdRebuildPeers_eq)
qed

lemma fold_onTable_ok:
  assumes "\<And>x. x \<in> set xs \<Longrightarrow> safe_op self (f x)"
  shows "cn_ok self n \<Longrightarrow> cn_ok self (fold (\<lambda>x. onTable (f x)) xs n) \<and> fd_state (cn_fd (fold (\<lambda>x. onTable (f x)) xs n)) = fd_state (cn_fd n)
    \<and> cn_table (fold (\<lambda>x. onTable (f x)) xs n) = fold (\<lambda>x t. fst (f x t)) xs (cn_table n)"
  using assms by (induction xs arbitrary: n) (simp_all add: onTable_ok)

lemma fdTickLocked_keeps:
  assumes run: "fdTickLocked now t fd = (fd', timed_out, dead, probe)" and dist: "distinct (map fst (fd_state fd))"
  shows "sameConfig fd fd'" "distinct (map fst (fd_state fd'))" "set timed_out \<union> set dead \<subseteq> fst ` set (fd_state fd)"
    "fst ` set (fd_state fd') \<subseteq> fst ` set (fd_state fd) \<union> {p \<in> set (fd_peers fd). p \<noteq> fd_self fd}"
    "probe = Some p \<Longrightarrow> p \<in> set (fd_peers fd) \<and> p \<noteq> fd_self fd \<and> (\<forall>i. mtGet p t = Some i \<longrightarrow> ni_state i \<noteq> Dead)"
proof -
  obtain fd1 where s: "sweepProbes now fd = (fd1, timed_out)"
    and r1: "fdTickLocked now t fd = (case escalateSuspects now t fd1 of (fd, dead) \<Rightarrow>
      case (if fd_peers fd = [] then (fd, None) else pickProbe (length (fd_peers fd)) now t fd) of (fd, probe) \<Rightarrow> (fd, timed_out, dead, probe))"
    using run by (auto simp: fdTickLocked_def split: prod.splits)
  obtain fd2 where e: "escalateSuspects now t fd1 = (fd2, dead)"
    and k: "(if fd_peers fd2 = [] then (fd2, None) else pickProbe (length (fd_peers fd2)) now t fd2) = (fd', probe)"
    using run r1 by (auto split: prod.splits)
  note sk = sweepProbes_keeps [OF s] and ek = escalateSuspects_keeps [OF e]
  have d2: "distinct (map fst (fd_state fd2))" using dist sk(2) ek(2) by simp
  have keys: "fst ` set (fd_state fd2) = fst ` set (fd_state fd)" using sk(2) ek(2) by (metis set_map)
  have c2: "sameConfig fd fd2" using sk(1) ek(1) by (simp add: sameConfig_def)
  show "set timed_out \<union> set dead \<subseteq> fst ` set (fd_state fd)" using sk(2,3) ek(3) by (metis Un_subset_iff set_map)
  have "sameConfig fd2 fd' \<and> distinct (map fst (fd_state fd')) \<and> (case probe of None \<Rightarrow> fd_state fd' = fd_state fd2
      | Some p \<Rightarrow> p \<in> set (fd_peers fd2) \<and> p \<noteq> fd_self fd2 \<and> (\<exists>s. fd_state fd' = putState p s (fd_state fd2))
          \<and> (\<forall>i. mtGet p t = Some i \<longrightarrow> ni_state i \<noteq> Dead))"
  proof (cases "fd_peers fd2 = []")
    case True
    then show ?thesis using k d2 by (simp add: sameConfig_def)
  next
    case False
    then show ?thesis using pickProbe_keeps [OF False _ d2] k by (fastforce split: option.splits)
  qed
  note p = this
  show "sameConfig fd fd'" using p c2 by (simp add: sameConfig_def)
  show "distinct (map fst (fd_state fd'))" using p by blast
  show "fst ` set (fd_state fd') \<subseteq> fst ` set (fd_state fd) \<union> {p \<in> set (fd_peers fd). p \<noteq> fd_self fd}"
  proof (cases probe)
    case None
    then show ?thesis using p keys by simp
  next
    case (Some q)
    then obtain s where "fd_state fd' = putState q s (fd_state fd2)" "q \<in> set (fd_peers fd)" "q \<noteq> fd_self fd"
      using p c2 by (auto simp: sameConfig_def)
    then show ?thesis using keys_putState [of q s "fd_state fd2"] keys by auto
  qed
  show "probe = Some p \<Longrightarrow> p \<in> set (fd_peers fd) \<and> p \<noteq> fd_self fd \<and> (\<forall>i. mtGet p t = Some i \<longrightarrow> ni_state i \<noteq> Dead)"
    using p c2 by (simp add: sameConfig_def)
qed

lemma nodeTick_split:
  assumes "fdTickLocked now (cn_table n) (cn_fd n) = (fd, timed_out, dead, probe)"
  shows "nodeTick now n = (fold (\<lambda>p. onTable (markDead p)) dead (fold (\<lambda>p. onTable (markSuspect p)) timed_out (n\<lparr>cn_fd := fd\<rparr>)), probe)"
  by (simp add: nodeTick_def assms)

lemma nodeTick_ok:
  assumes ok: "cn_ok self n" and run: "nodeTick now n = (n', probe)"
  shows "cn_ok self n'" "probe = Some p \<Longrightarrow> p \<noteq> self \<and> (\<exists>i. mtGet p (cn_table n) = Some i \<and> ni_state i \<noteq> Dead)"
proof -
  obtain fd timed_out dead pr where l: "fdTickLocked now (cn_table n) (cn_fd n) = (fd, timed_out, dead, pr)" by (metis prod_cases4)
  note o = ok [unfolded cn_ok_def]
  note k = fdTickLocked_keeps [OF l]
  have ok1: "cn_ok self (n\<lparr>cn_fd := fd\<rparr>)" using o k(1,2,4) by (auto simp: cn_ok_def sameConfig_def)
  have ns: "\<forall>p \<in> set timed_out \<union> set dead. p \<noteq> self" using k(3) o by auto
  have ok2: "cn_ok self (fold (\<lambda>p. onTable (markSuspect p)) timed_out (n\<lparr>cn_fd := fd\<rparr>))"
    using fold_onTable_ok [of timed_out self markSuspect] ok1 ns safe_mark(1) by blast
  have "cn_ok self (fold (\<lambda>p. onTable (markDead p)) dead (fold (\<lambda>p. onTable (markSuspect p)) timed_out (n\<lparr>cn_fd := fd\<rparr>)))"
    using fold_onTable_ok [of dead self markDead] ok2 ns safe_mark(2) by blast
  then show "cn_ok self n'" using run nodeTick_split [OF l] by simp
  assume "probe = Some p"
  then have "p \<in> set (rebuildPeers self (cn_table n))" "\<forall>i. mtGet p (cn_table n) = Some i \<longrightarrow> ni_state i \<noteq> Dead"
    using k(5) [of p] run nodeTick_split [OF l] o by auto
  then show "p \<noteq> self \<and> (\<exists>i. mtGet p (cn_table n) = Some i \<and> ni_state i \<noteq> Dead)" using rebuildPeers_set(1) o by auto
qed

lemma onProbeResultLocked_keeps:
  assumes "onProbeResultLocked now peer acked fd = (fd', r)" "distinct (map fst (fd_state fd))"
  shows "sameConfig fd fd'" "distinct (map fst (fd_state fd'))" "fst ` set (fd_state fd') = fst ` set (fd_state fd)"
    "r \<noteq> None \<longleftrightarrow> peer \<in> fst ` set (fd_state fd)"
proof -
  have "r = None \<longleftrightarrow> map_of (fd_state fd) peer = None" using assms(1) by (auto simp: onProbeResultLocked_def Let_def split: option.splits if_splits)
  then show r: "r \<noteq> None \<longleftrightarrow> peer \<in> fst ` set (fd_state fd)" by (simp add: map_of_eq_None_iff)
  have "fd' = fd \<or> (peer \<in> fst ` set (fd_state fd) \<and> (\<exists>s. fd' = fd\<lparr>fd_state := putState peer s (fd_state fd)\<rparr>))"
  proof (cases "map_of (fd_state fd) peer")
    case None
    then show ?thesis using assms(1) by (simp add: onProbeResultLocked_def)
  next
    case (Some s)
    then have "peer \<in> fst ` set (fd_state fd)" by (metis map_of_eq_None_iff option.distinct(1))
    moreover have "\<exists>s. fd' = fd\<lparr>fd_state := putState peer s (fd_state fd)\<rparr>"
      using Some assms(1) by (cases acked) (auto simp: onProbeResultLocked_def Let_def)
    ultimately show ?thesis by blast
  qed
  then show "sameConfig fd fd'" "distinct (map fst (fd_state fd'))" "fst ` set (fd_state fd') = fst ` set (fd_state fd)"
    using assms(2) distinct_putState keys_putState by (auto simp: sameConfig_def simp flip: set_map)
qed

lemma nodeProbeResult_ok:
  assumes ok: "cn_ok self n"
  shows "cn_ok self (nodeProbeResult now peer acked n)"
proof -
  obtain fd r where l: "onProbeResultLocked now peer acked (cn_fd n) = (fd, r)" by fastforce
  note o = ok [unfolded cn_ok_def]
  note k = onProbeResultLocked_keeps [OF l]
  have ok1: "cn_ok self (n\<lparr>cn_fd := fd\<rparr>)" using o k(1-3) by (simp add: cn_ok_def sameConfig_def)
  have ns: "r \<noteq> None \<Longrightarrow> peer \<noteq> self" using k(4) o by blast
  show ?thesis
    using ok onTable_ok(1) [OF ok1 safe_mark(3)] onTable_ok(1) [OF ok1 safe_mark(1) [OF ns]] ok1
    by (auto simp: nodeProbeResult_def l Let_def split: option.split)
qed

lemma nodeHandleGossip_ok: "cn_ok self n \<Longrightarrow> cn_ok self (nodeHandleGossip now value n)"
  unfolding nodeHandleGossip_def using fold_onTable_ok [of _ self "applyRumor now"] safe_applyRumor by blast

lemma startNode_ok: "cn_ok self (startNode self timeout_ms now peers port)"
proof -
  let ?t = "setSelfAddress ''127.0.0.1'' port (seed now peers (newMembershipTable self))"
  have s: "table_ok (seed now peers (newMembershipTable self))" "mt_self (seed now peers (newMembershipTable self)) = self"
    "selfAlive (seed now peers (newMembershipTable self))"
    using seed_ok [OF newMembershipTable_ok(1)] newMembershipTable_ok(3) new_selfAlive by simp_all
  then have "table_ok ?t" "mt_self ?t = self" "selfAlive ?t" using setSelfAddress_ok by simp_all
  then show ?thesis by (simp add: startNode_def Let_def cn_ok_def fdRebuildPeers_eq newFailureDetector_def)
qed

section \<open>Reachable nodes\<close>

inductive cluster_reach :: "NodeId \<Rightarrow> ClusterNode \<Rightarrow> bool" for self where
  start: "cluster_reach self (startNode self timeout_ms now peers port)"
| gossip: "cluster_reach self n \<Longrightarrow> cluster_reach self (nodeHandleGossip now value n)"
| tick: "cluster_reach self n \<Longrightarrow> cluster_reach self (fst (nodeTick now n))"
| result: "cluster_reach self n \<Longrightarrow> cluster_reach self (nodeProbeResult now peer acked n)"

lemma cluster_reach_ok: "cluster_reach self n \<Longrightarrow> cn_ok self n"
proof (induction rule: cluster_reach.induct)
  case (tick n now)
  then show ?case using nodeTick_ok(1) by (metis prod.collapse)
qed (simp_all add: startNode_ok nodeHandleGossip_ok nodeProbeResult_ok)



definition stateOf :: "NodeId \<Rightarrow> ClusterNode \<Rightarrow> NodeState option" where
  "stateOf p n = map_option ni_state (mtGet p (cn_table n))"

text \<open>A node with one peer that it has just probed, for the examples.\<close>

definition demoPeer :: NodeConfig where
  "demoPeer = \<lparr>nc_id = ''b'', nc_host = ''h'', nc_port = 1\<rparr>"

definition demoStart :: ClusterNode where
  "demoStart = startNode ''a'' 5000 0 [demoPeer] 7000"

definition demoNode :: ClusterNode where
  "demoNode = fst (nodeTick 0 demoStart)"

lemma demoStart_table: "mt_nodes (cn_table demoStart) =
    [(''a'', \<lparr>ni_id = ''a'', ni_host = ''127.0.0.1'', ni_port = 7000, ni_state = Alive, ni_incarnation = 0, ni_joined_at = 0\<rparr>),
     (''b'', \<lparr>ni_id = ''b'', ni_host = ''h'', ni_port = 1, ni_state = Alive, ni_incarnation = 0, ni_joined_at = 0\<rparr>)]"
  by (simp add: demoStart_def demoPeer_def startNode_def setSelfAddress_def newMembershipTable_def mtPut_def Let_def less_char_def)

lemma demoNode_facts:
  "cluster_reach ''a'' demoNode" "map_of (fd_state (cn_fd demoNode)) ''b'' = Some ((setProbePending True emptyPeerState)\<lparr>ps_sent_at := 0\<rparr>)"
  "stateOf ''b'' demoNode = Some Alive" "fd_timeout_ms (cn_fd demoNode) = 5000"
proof -
  show "cluster_reach ''a'' demoNode" unfolding demoNode_def demoStart_def by (intro tick start)
  have fd: "cn_fd demoStart = \<lparr>fd_self = ''a'', fd_timeout_ms = 5000, fd_peers = [''b''], fd_next_peer = 0, fd_state = []\<rparr>"
    using demoStart_table by (simp add: demoStart_def startNode_def Let_def fdRebuildPeers_def newFailureDetector_def mtSnapshot_def)
  have n: "demoNode = demoStart\<lparr>cn_fd := (cn_fd demoStart)\<lparr>fd_next_peer := 0,
      fd_state := [(''b'', (setProbePending True emptyPeerState)\<lparr>ps_sent_at := 0\<rparr>)]\<rparr>\<rparr>"
    by (simp add: demoNode_def nodeTick_def fdTickLocked_def sweepProbes_def escalateSuspects_def fd demoStart_table Let_def)
  show "map_of (fd_state (cn_fd demoNode)) ''b'' = Some ((setProbePending True emptyPeerState)\<lparr>ps_sent_at := 0\<rparr>)"
    "stateOf ''b'' demoNode = Some Alive" "fd_timeout_ms (cn_fd demoNode) = 5000"
    by (simp_all add: n fd stateOf_def demoStart_table)
qed

text \<open>A node that holds a dead rumour about the first one.\<close>

definition demoRumor :: NodeInfo where
  "demoRumor = \<lparr>ni_id = ''a'', ni_host = ''h'', ni_port = 1, ni_state = Dead, ni_incarnation = 3, ni_joined_at = 0\<rparr>"

definition demoAccuser :: ClusterNode where
  "demoAccuser = nodeHandleGossip 0 (encodeView [demoRumor]) (startNode ''b'' 5000 0 [\<lparr>nc_id = ''a'', nc_host = ''h'', nc_port = 1\<rparr>] 7001)"

lemma demoAccuser_table: "mt_nodes (cn_table demoAccuser) =
    [(''a'', demoRumor),
     (''b'', \<lparr>ni_id = ''b'', ni_host = ''127.0.0.1'', ni_port = 7001, ni_state = Alive, ni_incarnation = 0, ni_joined_at = 0\<rparr>)]"
proof -
  have "plainInfo demoRumor" by (simp add: plainInfo_def demoRumor_def)
  then have d: "decodeView (encodeView [demoRumor]) = [demoRumor]"
    using decode_entry(1) [of demoRumor] by (simp add: encodeView_Cons) (simp add: demoRumor_def)
  show ?thesis
    unfolding demoAccuser_def nodeHandleGossip_def d
    by (simp add: demoRumor_def onTable_def notify_def applyRumor_def startNode_def setSelfAddress_def newMembershipTable_def mtPut_def
        Let_def less_char_def)
qed

lemma demo_reach: "cluster_reach ''a'' demoStart" "cluster_reach ''b'' demoAccuser"
  unfolding demoStart_def demoAccuser_def by (intro start gossip)+

section \<open>Refutation\<close>

lemma applyRumor_other:
  assumes "table_ok t" "k \<noteq> ni_id rumor"
  shows "mtGet k (fst (applyRumor now rumor t)) = mtGet k t"
proof -
  obtain t' c where run: "applyRumor now rumor t = (t', c)" by fastforce
  from applyRumor_cases [OF assms(1) run] show ?thesis by cases (use assms run in auto)
qed

lemma applyRumor_self:
  assumes ok: "table_ok t" and own: "mtGet (mt_self t) t = Some own" "ni_state own = Alive"
    and rumor: "ni_id rumor = mt_self t" "ni_incarnation rumor < 0xFFFFFFFFFFFFFFFF"
  obtains own' where "mtGet (mt_self t) (fst (applyRumor now rumor t)) = Some own'" "ni_state own' = Alive"
    "ni_incarnation rumor \<le> ni_incarnation own'"
proof -
  have g: "mtGet (ni_id rumor) t = Some own" using own(1) rumor(1) by simp
  note br = applyRumor_known [OF g, of now]
  show ?thesis
  proof (cases "ni_incarnation rumor < ni_incarnation own \<or> (ni_incarnation rumor = ni_incarnation own \<and> ni_state rumor = ni_state own)")
    case True
    then show ?thesis using that [of own] br(1) own by auto
  next
    case nonstale: False
    show ?thesis
    proof (cases "ni_state rumor = Alive")
      case False
      have "ni_incarnation rumor \<le> ni_incarnation rumor + 1" using rumor(2) by (simp add: word_le_nat_alt unat_plus_if' word_less_nat_alt)
      then show ?thesis using that br(2) [OF nonstale] False rumor(1) ok by simp
    next
      case True
      then obtain i where "applyRumor now rumor t = (mtPut (ni_id rumor) i t, True)" "ni_state i = Alive" "ni_incarnation i = ni_incarnation rumor"
        using br(3) [OF nonstale] by auto
      then show ?thesis using that [of i] ok rumor(1) by simp
    qed
  qed
qed

lemma applyRumor_revive:
  assumes ok: "table_ok t" and i: "mtGet (ni_id rumor) t = Some i"
    and rumor: "ni_id rumor \<noteq> mt_self t" "ni_state rumor = Alive" "ni_incarnation i \<le> ni_incarnation rumor"
  shows "\<exists>j. mtGet (ni_id rumor) (fst (applyRumor now rumor t)) = Some j \<and> ni_state j = Alive \<and> ni_incarnation i \<le> ni_incarnation j"
proof (cases "ni_incarnation rumor < ni_incarnation i \<or> (ni_incarnation rumor = ni_incarnation i \<and> ni_state rumor = ni_state i)")
  case True
  then show ?thesis using applyRumor_known(1) [OF i] i rumor by auto
next
  case False
  then show ?thesis using applyRumor_known(3) [OF i False, of now] ok rumor by auto
qed

text \<open>A batch of rumours about different nodes changes each entry as its own rumour does.\<close>

definition applyAll :: "int \<Rightarrow> NodeInfo list \<Rightarrow> MembershipTable \<Rightarrow> MembershipTable" where
  "applyAll now rumors t = fold (\<lambda>r t. fst (applyRumor now r t)) rumors t"

lemma applyAll_ok: "table_ok t \<Longrightarrow> table_ok (applyAll now rumors t) \<and> mt_self (applyAll now rumors t) = mt_self t"
  unfolding applyAll_def
proof (induction rumors arbitrary: t)
  case (Cons r rumors)
  have "table_ok (fst (applyRumor now r t)) \<and> mt_self (fst (applyRumor now r t)) = mt_self t"
    using applyRumor_ok [OF Cons.prems] by blast
  then show ?case using Cons.IH [of "fst (applyRumor now r t)"] by simp
qed simp

lemma applyAll_other: "table_ok t \<Longrightarrow> k \<notin> ni_id ` set rumors \<Longrightarrow> mtGet k (applyAll now rumors t) = mtGet k t"
proof (induction rumors arbitrary: t)
  case (Cons r rumors)
  have "table_ok (fst (applyRumor now r t))" by (rule applyRumor_ok(1) [OF Cons.prems(1)])
  then have "mtGet k (applyAll now rumors (fst (applyRumor now r t))) = mtGet k (fst (applyRumor now r t))" using Cons by simp
  then show ?case using applyRumor_other Cons.prems by (simp add: applyAll_def)
qed (simp add: applyAll_def)

lemma applyAll_one:
  assumes ok: "table_ok t" and d: "distinct (map ni_id rumors)" and r: "r \<in> set rumors"
  obtains t1 where "table_ok t1" "mt_self t1 = mt_self t" "mtGet (ni_id r) t1 = mtGet (ni_id r) t"
    "mtGet (ni_id r) (applyAll now rumors t) = mtGet (ni_id r) (fst (applyRumor now r t1))"
proof -
  obtain xs ys where rs: "rumors = xs @ r # ys" using r by (metis split_list)
  let ?t1 = "applyAll now xs t"
  have t1: "table_ok ?t1" "mt_self ?t1 = mt_self t" using applyAll_ok [OF ok] by simp_all
  have "table_ok (fst (applyRumor now r ?t1))" by (rule applyRumor_ok(1) [OF t1(1)])
  moreover have "ni_id r \<notin> ni_id ` set xs" "ni_id r \<notin> ni_id ` set ys" using d rs by auto
  ultimately have "mtGet (ni_id r) (applyAll now ys (fst (applyRumor now r ?t1))) = mtGet (ni_id r) (fst (applyRumor now r ?t1))"
    "mtGet (ni_id r) ?t1 = mtGet (ni_id r) t"
    using applyAll_other ok by blast+
  then show ?thesis using that [OF t1] rs by (simp add: applyAll_def)
qed

text \<open>Views that the text codec carries.\<close>

definition plainTable :: "MembershipTable \<Rightarrow> bool" where
  "plainTable t \<longleftrightarrow> (\<forall>i \<in> set (mtSnapshot t). plainInfo i)"

lemma snapshot_get: "table_ok t \<Longrightarrow> i \<in> set (mtSnapshot t) \<longleftrightarrow> mtGet (ni_id i) t = Some i"
proof
  assume ok: "table_ok t" and "i \<in> set (mtSnapshot t)"
  then obtain k where k: "(k, i) \<in> set (mt_nodes t)" by (auto simp: mtSnapshot_def)
  then have g: "mtGet k t = Some i" using table_okD(4) [OF ok] by (simp add: map_of_is_SomeI)
  then show "mtGet (ni_id i) t = Some i" using table_okD(2) [OF ok g] by simp
next
  assume "mtGet (ni_id i) t = Some i"
  then show "i \<in> set (mtSnapshot t)" by (force simp: mtSnapshot_def dest: map_of_SomeD)
qed

lemma snapshot_ids: "table_ok t \<Longrightarrow> distinct (map ni_id (mtSnapshot t))"
proof -
  assume ok: "table_ok t"
  then have "map ni_id (mtSnapshot t) = map fst (mt_nodes t)" by (auto simp: mtSnapshot_def table_ok_def split_def)
  then show ?thesis using table_okD(4) [OF ok] by simp
qed

lemma applyAll_plain: "table_ok t \<Longrightarrow> plainTable t \<Longrightarrow> \<forall>r \<in> set rumors. plainInfo r \<Longrightarrow> plainTable (applyAll now rumors t)"
proof (induction rumors arbitrary: t)
  case (Cons r rumors)
  obtain t' c where run: "applyRumor now r t = (t', c)" by fastforce
  have ok': "table_ok t'" using applyRumor_ok(1) [OF Cons.prems(1), of now r] run by simp
  have "plainTable t'"
  proof (cases rule: applyRumor_cases [OF Cons.prems(1) run, case_names same put])
    case same
    then show ?thesis using Cons.prems(2) by simp
  next
    case (put i)
    have l: "plainInfo l \<and> ni_id l = k" if "mtGet k t = Some l" for k l
      using that table_okD(2) [OF Cons.prems(1) that] snapshot_get [OF Cons.prems(1), of l] Cons.prems(2) by (simp add: plainTable_def)
    have pr: "plainInfo r" using Cons.prems(3) by simp
    have pi: "plainInfo i"
      using put(5)
    proof
      assume "ni_host i = ni_host r"
      then show ?thesis using pr put(2) by (simp add: plainInfo_def)
    next
      assume "\<exists>l. mtGet (ni_id r) t = Some l \<and> ni_host i = ni_host l"
      then obtain x where "mtGet (ni_id r) t = Some x" "ni_host i = ni_host x" by blast
      then show ?thesis using l [of "ni_id r" x] put(2) by (auto simp: plainInfo_def)
    qed
    have "plainInfo j" if "j \<in> set (mtSnapshot t')" for j
    proof -
      have "mtGet (ni_id j) (mtPut (ni_id r) i t) = Some j" using that snapshot_get [OF ok', of j] put(1) by simp
      then have "j = i \<or> mtGet (ni_id j) t = Some j" using mtPut_get [OF Cons.prems(1), of "ni_id r" i "ni_id j"] by (simp split: if_splits)
      then show ?thesis using pi l by blast
    qed
    then show ?thesis by (simp add: plainTable_def)
  qed
  then show ?case using Cons.IH [OF ok'] Cons.prems(3) run by (simp add: applyAll_def)
qed (simp add: applyAll_def)

definition untimed :: "NodeInfo \<Rightarrow> NodeInfo" where
  "untimed i = i\<lparr>ni_joined_at := 0\<rparr>"

lemma decode_snapshot: "plainTable t \<Longrightarrow> decodeView (encodeView (mtSnapshot t)) = map untimed (mtSnapshot t)"
proof -
  have "decodeView (encodeView view) = map untimed view" if "\<forall>i \<in> set view. plainInfo i" for view
    using that
  proof (induction view)
    case Nil
    then show ?case by (simp add: encodeView_def decodeView_def decodeFrom.simps [of "[]" 0])
  next
    case (Cons i view)
    then show ?case by (auto simp: encodeView_Cons decode_entry untimed_def)
  qed
  then show "plainTable t \<Longrightarrow> decodeView (encodeView (mtSnapshot t)) = map untimed (mtSnapshot t)" by (simp add: plainTable_def)
qed

lemma handle_view:
  assumes "cn_ok self n" "plainTable t"
  shows "cn_table (nodeHandleGossip now (encodeView (mtSnapshot t)) n) = applyAll now (map untimed (mtSnapshot t)) (cn_table n)"
  unfolding nodeHandleGossip_def decode_snapshot [OF assms(2)] applyAll_def
  using fold_onTable_ok [of _ self "applyRumor now"] safe_applyRumor assms(1) by blast

lemma untimed_fields [simp]: "ni_id (untimed i) = ni_id i" "ni_state (untimed i) = ni_state i" "ni_incarnation (untimed i) = ni_incarnation i"
  "plainInfo (untimed i) = plainInfo i"
  by (simp_all add: untimed_def plainInfo_def)

lemma cn_okD:
  assumes "cn_ok self n"
  shows "table_ok (cn_table n)" "mt_self (cn_table n) = self" "\<exists>i. mtGet self (cn_table n) = Some i \<and> ni_state i = Alive"
  using assms by (auto simp: cn_ok_def selfAlive_def)

lemma view_effect:
  assumes ok: "cn_ok self n" and t: "table_ok t" "plainTable t" "mtGet k t = Some i"
  obtains t1 where "table_ok t1" "mt_self t1 = self" "mtGet k t1 = mtGet k (cn_table n)"
    "mtGet k (cn_table (nodeHandleGossip now (encodeView (mtSnapshot t)) n)) = mtGet k (fst (applyRumor now (untimed i) t1))"
proof -
  have "ni_id i = k" by (rule table_okD(2) [OF t(1,3)])
  then have "i \<in> set (mtSnapshot t)" using snapshot_get [OF t(1), of i] t(3) by simp
  then have mem: "untimed i \<in> set (map untimed (mtSnapshot t))" by simp
  have d: "distinct (map ni_id (map untimed (mtSnapshot t)))" using snapshot_ids [OF t(1)] by (simp add: comp_def)
  obtain t1 where "table_ok t1" "mt_self t1 = mt_self (cn_table n)" "mtGet (ni_id (untimed i)) t1 = mtGet (ni_id (untimed i)) (cn_table n)"
    "mtGet (ni_id (untimed i)) (applyAll now (map untimed (mtSnapshot t)) (cn_table n)) = mtGet (ni_id (untimed i)) (fst (applyRumor now (untimed i) t1))"
    by (rule applyAll_one [OF cn_okD(1) [OF ok] d mem])
  then show ?thesis using that [of t1] handle_view [OF ok t(2), of now] cn_okD(2) [OF ok] \<open>ni_id i = k\<close> by simp
qed

lemma view_plain:
  assumes ok: "cn_ok self n" and "plainTable (cn_table n)" "plainTable t"
  shows "plainTable (cn_table (nodeHandleGossip now (encodeView (mtSnapshot t)) n))"
  unfolding handle_view [OF ok assms(3)]
  by (rule applyAll_plain [OF cn_okD(1) [OF ok] assms(2)]) (use assms(3) in \<open>simp add: plainTable_def\<close>)

text \<open>
  C35. A false accusation is withdrawn in one exchange of gossip: if node B holds any view of node A
  (suspect or dead included) and sends its view to A, and A answers with its own view, then B believes A
  alive again, with an incarnation at least as high as before. The text codec is part of the exchange;
  the accusation must not carry the largest incarnation, where the counter wraps.
\<close>

theorem refutation_round_trip:
  assumes A: "cluster_reach a n" and B: "cluster_reach b m" and ab: "a \<noteq> b"
    and plain: "plainTable (cn_table n)" "plainTable (cn_table m)"
    and i: "mtGet a (cn_table m) = Some i" "ni_incarnation i < 0xFFFFFFFFFFFFFFFF"
  shows "let n' = nodeHandleGossip now (encodeView (mtSnapshot (cn_table m))) n;
             m' = nodeHandleGossip now' (encodeView (mtSnapshot (cn_table n'))) m
         in \<exists>j. mtGet a (cn_table m') = Some j \<and> ni_state j = Alive \<and> ni_incarnation i \<le> ni_incarnation j"
proof -
  note okn = cluster_reach_ok [OF A] and okm = cluster_reach_ok [OF B]
  define n' where "n' = nodeHandleGossip now (encodeView (mtSnapshot (cn_table m))) n"
  define m' where "m' = nodeHandleGossip now' (encodeView (mtSnapshot (cn_table n'))) m"
  note dm = cn_okD [OF okm] and dn = cn_okD [OF okn]
  obtain t1 where t1: "table_ok t1" "mt_self t1 = a" "mtGet a t1 = mtGet a (cn_table n)"
    "mtGet a (cn_table n') = mtGet a (fst (applyRumor now (untimed i) t1))"
    unfolding n'_def by (rule view_effect [OF okn dm(1) plain(2) i(1)])
  have iid: "ni_id i = a" by (rule table_okD(2) [OF dm(1) i(1)])
  obtain own where own: "mtGet (mt_self t1) t1 = Some own" "ni_state own = Alive" using dn(3) t1(2,3) by auto
  obtain own' where own': "mtGet a (cn_table n') = Some own'" "ni_state own' = Alive" "ni_incarnation i \<le> ni_incarnation own'"
    using applyRumor_self [OF t1(1) own, of "untimed i" now] i(2) iid t1(2,4) by auto
  have okn': "cn_ok a n'" unfolding n'_def by (rule nodeHandleGossip_ok [OF okn])
  note dn' = cn_okD [OF okn']
  have pn': "plainTable (cn_table n')" unfolding n'_def by (rule view_plain [OF okn plain])
  obtain t2 where t2: "table_ok t2" "mt_self t2 = b" "mtGet a t2 = mtGet a (cn_table m)"
    "mtGet a (cn_table m') = mtGet a (fst (applyRumor now' (untimed own') t2))"
    unfolding m'_def by (rule view_effect [OF okm dn'(1) pn' own'(1)])
  have oid: "ni_id own' = a" by (rule table_okD(2) [OF dn'(1) own'(1)])
  have "\<exists>j. mtGet a (cn_table m') = Some j \<and> ni_state j = Alive \<and> ni_incarnation i \<le> ni_incarnation j"
    using applyRumor_revive [OF t2(1), of "untimed own'" i now'] t2(2-4) own'(2,3) oid ab i(1) by simp
  then show ?thesis unfolding n'_def m'_def Let_def .
qed

theorem refutation_round_trip_witness:
  "let n' = nodeHandleGossip 1 (encodeView (mtSnapshot (cn_table demoAccuser))) demoStart;
       m' = nodeHandleGossip 2 (encodeView (mtSnapshot (cn_table n'))) demoAccuser
   in \<exists>j. mtGet ''a'' (cn_table m') = Some j \<and> ni_state j = Alive \<and> 3 \<le> ni_incarnation j"
proof -
  have p: "plainTable (cn_table demoStart)" "plainTable (cn_table demoAccuser)"
    by (simp_all add: plainTable_def mtSnapshot_def demoStart_table demoAccuser_table plainInfo_def demoRumor_def)
  have i: "mtGet ''a'' (cn_table demoAccuser) = Some demoRumor" "ni_incarnation demoRumor < 0xFFFFFFFFFFFFFFFF"
    "ni_incarnation demoRumor = 3"
    by (simp add: demoAccuser_table) (simp_all add: demoRumor_def)
  show ?thesis using refutation_round_trip [OF demo_reach _ p i(1,2), of 1 2] i(3) by simp
qed

section \<open>Suspicion and escalation\<close>

lemma probe_ack:
  assumes ok: "cn_ok self n" and s: "map_of (fd_state (cn_fd n)) p = Some s" and st: "stateOf p n \<noteq> None"
  shows "stateOf p (nodeProbeResult now p True n) = Some Alive"
    "\<exists>s'. map_of (fd_state (cn_fd (nodeProbeResult now p True n))) p = Some s' \<and> ps_failures s' = 0 \<and> \<not> isSuspected s'"
proof -
  let ?s = "(setSuspected False (setProbePending False s))\<lparr>ps_failures := 0\<rparr>"
  let ?fd = "(cn_fd n)\<lparr>fd_state := putState p ?s (fd_state (cn_fd n))\<rparr>"
  obtain i where i: "mtGet p (cn_table n) = Some i" using st by (auto simp: stateOf_def)
  have l: "onProbeResultLocked now p True (cn_fd n) = (?fd, Some 0)" using s by (simp add: onProbeResultLocked_def Let_def)
  have r: "nodeProbeResult now p True n = onTable (markAlive now p (ni_incarnation i)) (n\<lparr>cn_fd := ?fd\<rparr>)"
    using i by (simp add: nodeProbeResult_def l)
  have k: "cn_ok self (n\<lparr>cn_fd := ?fd\<rparr>)"
    using onProbeResultLocked_keeps [OF l] ok by (simp add: cn_ok_def sameConfig_def)
  note ot = onTable_ok [OF k safe_mark(3), of now p "ni_incarnation i"]
  show "stateOf p (nodeProbeResult now p True n) = Some Alive"
    using i ot(3) cn_okD(1) [OF ok] by (simp add: r stateOf_def markAlive_def Let_def)
  show "\<exists>s'. map_of (fd_state (cn_fd (nodeProbeResult now p True n))) p = Some s' \<and> ps_failures s' = 0 \<and> \<not> isSuspected s'"
    using ot(2) by (simp add: r)
qed

lemma probe_fail:
  assumes ok: "cn_ok self n" and s: "map_of (fd_state (cn_fd n)) p = Some s" and st: "stateOf p n = Some st"
  shows "stateOf p (nodeProbeResult now p False n) = Some (if ps_failures s + 1 \<ge> K_SUSPECT_THRESHOLD \<and> st = Alive then Suspect else st)"
    "\<exists>s'. map_of (fd_state (cn_fd (nodeProbeResult now p False n))) p = Some s' \<and> ps_failures s' = ps_failures s + 1 \<and> isSuspected s'
      \<and> \<not> probePending s' \<and> ps_suspect_since s' = (if isSuspected s then ps_suspect_since s else now)"
    "fd_timeout_ms (cn_fd (nodeProbeResult now p False n)) = fd_timeout_ms (cn_fd n)"
proof -
  define s1 where "s1 = (setProbePending False s)\<lparr>ps_failures := ps_failures s + 1\<rparr>"
  define s2 where "s2 = (if isSuspected s1 then s1 else (setSuspected True s1)\<lparr>ps_suspect_since := now\<rparr>)"
  let ?fd = "(cn_fd n)\<lparr>fd_state := putState p s2 (fd_state (cn_fd n))\<rparr>"
  obtain i where i: "mtGet p (cn_table n) = Some i" "ni_state i = st" using st by (auto simp: stateOf_def)
  have l: "onProbeResultLocked now p False (cn_fd n) = (?fd, Some (ps_failures s + 1))"
    using s by (simp add: onProbeResultLocked_def Let_def s2_def s1_def)
  have s2: "ps_failures s2 = ps_failures s + 1" "isSuspected s2" "\<not> probePending s2"
    "ps_suspect_since s2 = (if isSuspected s then ps_suspect_since s else now)"
    by (simp_all add: s2_def s1_def)
  have r: "nodeProbeResult now p False n
      = (if ps_failures s + 1 < K_SUSPECT_THRESHOLD then n\<lparr>cn_fd := ?fd\<rparr> else onTable (markSuspect p) (n\<lparr>cn_fd := ?fd\<rparr>))"
    by (simp add: nodeProbeResult_def l)
  have "p \<in> fst ` set (fd_state (cn_fd n))" using s by (metis map_of_eq_None_iff option.distinct(1))
  then have ps: "p \<noteq> self" using ok unfolding cn_ok_def by blast
  have k: "cn_ok self (n\<lparr>cn_fd := ?fd\<rparr>)"
    using onProbeResultLocked_keeps [OF l] ok by (simp add: cn_ok_def sameConfig_def)
  note ot = onTable_ok [OF k safe_mark(1) [OF ps]]
  have "map_option ni_state (mtGet p (fst (markSuspect p (cn_table n)))) = Some (if st = Alive then Suspect else st)"
    using i cn_okD(1) [OF ok] by (cases st) (simp_all add: markSuspect_def)
  then show "stateOf p (nodeProbeResult now p False n) = Some (if ps_failures s + 1 \<ge> K_SUSPECT_THRESHOLD \<and> st = Alive then Suspect else st)"
    using i ot(3) by (auto simp: r stateOf_def)
  show "\<exists>s'. map_of (fd_state (cn_fd (nodeProbeResult now p False n))) p = Some s' \<and> ps_failures s' = ps_failures s + 1 \<and> isSuspected s'
      \<and> \<not> probePending s' \<and> ps_suspect_since s' = (if isSuspected s then ps_suspect_since s else now)"
    using ot(2) s2 by (simp add: r)
  show "fd_timeout_ms (cn_fd (nodeProbeResult now p False n)) = fd_timeout_ms (cn_fd n)" using ot(4) by (simp add: r)
qed

definition probeRun :: "NodeId \<Rightarrow> (int \<times> bool) list \<Rightarrow> ClusterNode \<Rightarrow> ClusterNode" where
  "probeRun p rs n = fold (\<lambda>(now, acked). nodeProbeResult now p acked) rs n"

definition failStreak :: "(int \<times> bool) list \<Rightarrow> nat" where
  "failStreak rs = length (takeWhile (\<lambda>r. \<not> snd r) (rev rs))"

lemma failStreak_snoc: "failStreak (rs @ [(now, acked)]) = (if acked then 0 else Suc (failStreak rs))"
  by (simp add: failStreak_def)

lemma probeRun_snoc: "probeRun p (rs @ [(now, acked)]) n = nodeProbeResult now p acked (probeRun p rs n)"
  by (simp add: probeRun_def)

text \<open>
  Suspicion needs two consecutive failed probes: from a live peer with no failure on record, after any
  sequence of probe results the peer is suspect exactly when the last two results were failures, and alive
  otherwise, so one lost ping never changes the view and one reply restores it.
\<close>

theorem suspicion_threshold:
  assumes "cluster_reach self n" "map_of (fd_state (cn_fd n)) p = Some s" "ps_failures s = 0" "stateOf p n = Some Alive"
  shows "stateOf p (probeRun p rs n) = Some (if failStreak rs \<ge> 2 then Suspect else Alive)"
proof -
  have "cn_ok self (probeRun p rs n) \<and> stateOf p (probeRun p rs n) = Some (if failStreak rs \<ge> 2 then Suspect else Alive)
      \<and> (\<exists>s. map_of (fd_state (cn_fd (probeRun p rs n))) p = Some s \<and> ps_failures s = int (failStreak rs))"
  proof (induction rs rule: rev_induct)
    case Nil
    then show ?case using assms cluster_reach_ok by (simp add: probeRun_def failStreak_def)
  next
    case (snoc r rs)
    obtain now acked where r: "r = (now, acked)" by fastforce
    obtain s where ok: "cn_ok self (probeRun p rs n)" and s: "map_of (fd_state (cn_fd (probeRun p rs n))) p = Some s"
      "ps_failures s = int (failStreak rs)" and st: "stateOf p (probeRun p rs n) = Some (if failStreak rs \<ge> 2 then Suspect else Alive)"
      using snoc by blast
    show ?case
    proof (cases acked)
      case True
      then show ?thesis using probe_ack [OF ok s(1), of now] st nodeProbeResult_ok [OF ok, of now p]
        by (auto simp: r probeRun_snoc failStreak_snoc)
    next
      case False
      have "(if ps_failures s + 1 \<ge> K_SUSPECT_THRESHOLD \<and> (if failStreak rs \<ge> 2 then Suspect else Alive) = Alive then Suspect
          else if failStreak rs \<ge> 2 then Suspect else Alive) = (if Suc (failStreak rs) \<ge> 2 then Suspect else Alive)"
        using s(2) by (auto simp: K_SUSPECT_THRESHOLD_def)
      then show ?thesis using probe_fail(1,2) [OF ok s(1) st, of now] nodeProbeResult_ok [OF ok, of now p] False s(2)
        by (auto simp: r probeRun_snoc failStreak_snoc)
    qed
  qed
  then show ?thesis by blast
qed

lemma fold_markSuspect:
  "table_ok t \<Longrightarrow> mt_self t = self \<Longrightarrow> self \<notin> set ps \<Longrightarrow> map_option ni_state (mtGet p t) = Some Suspect \<Longrightarrow>
   map_option ni_state (mtGet p (fold (\<lambda>x t. fst (markSuspect x t)) ps t)) = Some Suspect"
proof (induction ps arbitrary: t)
  case (Cons x ps)
  have "safe_op self (markSuspect x)" using Cons.prems(3) by (intro safe_mark) auto
  then have "table_ok (fst (markSuspect x t)) \<and> mt_self (fst (markSuspect x t)) = self" using Cons.prems(1,2) by (auto simp: safe_op_def)
  moreover have "map_option ni_state (mtGet p (fst (markSuspect x t))) = Some Suspect"
    using Cons.prems(1,4) by (auto simp: markSuspect_def split: option.split)
  ultimately show ?case using Cons.IH [of "fst (markSuspect x t)"] Cons.prems(3) by simp
qed simp

lemma fold_markDead:
  "table_ok t \<Longrightarrow> mt_self t = self \<Longrightarrow> self \<notin> set ps \<Longrightarrow> mtGet p t \<noteq> None \<Longrightarrow>
   p \<in> set ps \<or> map_option ni_state (mtGet p t) = Some Dead \<Longrightarrow>
   map_option ni_state (mtGet p (fold (\<lambda>x t. fst (markDead x t)) ps t)) = Some Dead"
proof (induction ps arbitrary: t)
  case (Cons x ps)
  have "safe_op self (markDead x)" using Cons.prems(3) by (intro safe_mark) auto
  then have "table_ok (fst (markDead x t)) \<and> mt_self (fst (markDead x t)) = self" using Cons.prems(1,2) by (auto simp: safe_op_def)
  moreover have "mtGet p (fst (markDead x t)) \<noteq> None"
    "p \<in> set ps \<or> map_option ni_state (mtGet p (fst (markDead x t))) = Some Dead"
    using Cons.prems(1,4,5) by (auto simp: markDead_def split: option.split)
  ultimately show ?case using Cons.IH [of "fst (markDead x t)"] Cons.prems(3) by simp
qed simp

lemma tick_kills:
  assumes ok: "cn_ok self n" and st: "stateOf p n = Some Suspect"
    and s: "map_of (fd_state (cn_fd n)) p = Some s" "isSuspected s"
    and late: "now - ps_suspect_since s > fd_timeout_ms (cn_fd n) * K_NS_PER_MS"
  shows "stateOf p (fst (nodeTick now n)) = Some Dead"
proof -
  let ?t = "cn_table n"
  obtain fd timed_out dead pr where l: "fdTickLocked now ?t (cn_fd n) = (fd, timed_out, dead, pr)" by (metis prod_cases4)
  note o = ok [unfolded cn_ok_def]
  note k = fdTickLocked_keeps [OF l]
  obtain fd1 where sw: "sweepProbes now (cn_fd n) = (fd1, timed_out)" and es: "escalateSuspects now ?t fd1 = (fst (escalateSuspects now ?t fd1), dead)"
    using l by (auto simp: fdTickLocked_def split: prod.splits)
  obtain s1 where s1: "map_of (fd_state fd1) p = Some s1" "isSuspected s1" "ps_suspect_since s1 = ps_suspect_since s"
    using sweepProbes_keeps(4) [OF sw, of p] s by auto
  have "shouldEscalate now ?t fd1 (p, s1)"
    using s1 st late sweepProbes_keeps(1) [OF sw] by (auto simp: shouldEscalate_def stateOf_def sameConfig_def)
  then have pd: "p \<in> set dead" using escalateSuspects_keeps(4) [OF es] s1(1) map_of_SomeD by metis
  have ok1: "cn_ok self (n\<lparr>cn_fd := fd\<rparr>)" using o k(1,2,4) by (auto simp: cn_ok_def sameConfig_def)
  have ns: "self \<notin> set timed_out" "self \<notin> set dead" using k(3) o by blast+
  let ?n1 = "fold (\<lambda>p. onTable (markSuspect p)) timed_out (n\<lparr>cn_fd := fd\<rparr>)"
  have safe: "safe_op self (markSuspect x)" if "x \<in> set timed_out" for x using that ns(1) by (intro safe_mark) auto
  have n1: "cn_ok self ?n1" "cn_table ?n1 = fold (\<lambda>x t. fst (markSuspect x t)) timed_out ?t"
    using fold_onTable_ok [of timed_out self markSuspect, OF safe ok1] by simp_all
  have "map_option ni_state (mtGet p (cn_table ?n1)) = Some Suspect"
    unfolding n1(2) using st ns(1) cn_okD(1,2) [OF ok] by (intro fold_markSuspect) (auto simp: stateOf_def)
  then have g: "mtGet p (cn_table ?n1) \<noteq> None" by auto
  have t2: "cn_table (fold (\<lambda>p. onTable (markDead p)) dead ?n1) = fold (\<lambda>x t. fst (markDead x t)) dead (cn_table ?n1)"
  proof -
    have "safe_op self (markDead x)" if "x \<in> set dead" for x using that ns(2) by (intro safe_mark) auto
    then show ?thesis using fold_onTable_ok [of dead self markDead, OF _ n1(1)] by blast
  qed
  have "map_option ni_state (mtGet p (fold (\<lambda>x t. fst (markDead x t)) dead (cn_table ?n1))) = Some Dead"
    using cn_okD(1,2) [OF n1(1)] ns(2) g pd by (intro fold_markDead) auto
  then show ?thesis unfolding stateOf_def nodeTick_split [OF l] fst_conv t2 .
qed

theorem suspicion_threshold_witness:
  "stateOf ''b'' (probeRun ''b'' [(1, False), (2, True), (3, False)] demoNode) = Some Alive
   \<and> stateOf ''b'' (probeRun ''b'' [(1, True), (2, False), (3, False)] demoNode) = Some Suspect"
  using suspicion_threshold [OF demoNode_facts(1,2) _ demoNode_facts(3), of "[(1, False), (2, True), (3, False)]"]
    suspicion_threshold [OF demoNode_facts(1,2) _ demoNode_facts(3), of "[(1, True), (2, False), (3, False)]"]
  by (simp add: emptyPeerState_def failStreak_def)



section \<open>The ring follows the table\<close>

lemma alive_snapshot:
  assumes "table_ok (cn_table n)"
  shows "ni_id ` {i \<in> set (mtSnapshot (cn_table n)). ni_state i = Alive} = {p. stateOf p n = Some Alive}"
proof (intro equalityI subsetI)
  fix p assume "p \<in> ni_id ` {i \<in> set (mtSnapshot (cn_table n)). ni_state i = Alive}"
  then obtain i where "i \<in> set (mtSnapshot (cn_table n))" "ni_state i = Alive" "p = ni_id i" by blast
  then show "p \<in> {p. stateOf p n = Some Alive}" using snapshot_get [OF assms, of i] by (simp add: stateOf_def)
next
  fix p assume "p \<in> {p. stateOf p n = Some Alive}"
  then obtain i where i: "mtGet p (cn_table n) = Some i" "ni_state i = Alive" by (auto simp: stateOf_def)
  have "ni_id i = p" by (rule table_okD(2) [OF assms i(1)])
  then have "i \<in> set (mtSnapshot (cn_table n))" using snapshot_get [OF assms, of i] i(1) by simp
  then show "p \<in> ni_id ` {i \<in> set (mtSnapshot (cn_table n)). ni_state i = Alive}" using i(2) \<open>ni_id i = p\<close> by blast
qed

lemma ringMembers_set:
  assumes "cn_ok self n"
  shows "set (ringMembers self (cn_table n)) = {p. stateOf p n = Some Alive}"
proof -
  note o = cn_okD [OF assms]
  have self: "stateOf self n = Some Alive" using o(3) by (auto simp: stateOf_def)
  have "set (ringMembers self (cn_table n)) = insert self (ni_id ` {i \<in> set (mtSnapshot (cn_table n)). ni_state i = Alive})"
    by (auto simp: ringMembers_def)
  then show ?thesis unfolding alive_snapshot [OF o(1)] using self by auto
qed

text \<open>
  C36. The ring routes to the live members only: rebuilding any reachable ring from the table of a reachable
  node makes the ring's members exactly the nodes the table holds alive (the node itself among them), and
  fails only with a length error for more than 65536 of them; so every replica list consists of live nodes.
\<close>

theorem ring_follows_membership:
  assumes "cluster_reach self n" "is_sorter srt" "ring_reach xxh srt r"
  shows "case rebuildRing xxh srt self (cn_table n) r of
      Inl e \<Rightarrow> e = LengthError \<and> card {p. stateOf p n = Some Alive} > 65536
    | Inr r' \<Rightarrow> set (physical_nodes (snapshot r')) = {p. stateOf p n = Some Alive}
        \<and> (\<forall>ns. getNodes xxh key rc (snapshot r') = Inr ns \<longrightarrow> (\<forall>p \<in> set ns. stateOf p n = Some Alive))"
proof -
  let ?ids = "ringMembers self (cn_table n)"
  have ids: "set ?ids = {p. stateOf p n = Some Alive}" by (rule ringMembers_set [OF cluster_reach_ok [OF assms(1)]])
  note ok = reach_ok [OF assms(2,3)]
  show ?thesis
  proof (cases "length (remdups ?ids) \<le> K_MAX_PHYSICAL_NODES")
    case True
    obtain r' where r': "setNodes xxh srt ?ids r = Inr r'" "ring_ok xxh r'" "set (physical_nodes (snapshot r')) = set ?ids"
      by (rule setNodes_ok [OF ok assms(2) True])
    have "\<forall>ns. getNodes xxh key rc (snapshot r') = Inr ns \<longrightarrow> (\<forall>p \<in> set ns. stateOf p n = Some Alive)"
      using getNodes_preference [OF r'(2), of key rc] preference_set(1) [OF r'(2), of key] r'(3) ids
      by (auto split: if_splits dest!: in_set_takeD)
    then show ?thesis using r'(1,3) ids by (simp add: rebuildRing_def)
  next
    case False
    then have "card {p. stateOf p n = Some Alive} > 65536" by (simp add: length_remdups_card_conv ids K_MAX_PHYSICAL_NODES_def)
    moreover have "setNodes xxh srt ?ids r = Inl LengthError" using False by (simp add: setNodes_def Let_def)
    ultimately show ?thesis by (simp add: rebuildRing_def)
  qed
qed

theorem ring_follows_membership_witness:
  "\<exists>r'. rebuildRing demoHash (sort_key fst) ''a'' (cn_table demoStart) ringAB = Inr r'
    \<and> set (physical_nodes (snapshot r')) = {p. stateOf p demoStart = Some Alive}"
proof -
  have "{p. stateOf p demoStart = Some Alive} = {''a'', ''b''}" by (auto simp: stateOf_def demoStart_table split: if_splits)
  then show ?thesis
    using ring_follows_membership [OF demo_reach(1) sorter_sort_key reachAB, of "''k''" 1]
    by (auto split: sum.splits)
qed

end
