(* ===== verification/ShardManager.thy ===== *)
theory ShardManager
  imports ReplicationManager StoreProps ClusterNode
begin

text \<open>
  Moving keys after a membership change (\<open>src/node/shard_manager.cpp\<close>). \<open>rebalance\<close> plans over the live entries of the
  store and then sends; it returns the messages in the order they are sent and the migrations it started. The reports of a
  migration arrive later, in any order and interleaved with those of other migrations.
\<close>

section \<open>Planning\<close>

record CopyPush =
  cp_key :: Key
  cp_entry :: VersionedEntry
  cp_owner :: NodeId

record MigratePush =
  mp_key :: Key
  mp_entry :: VersionedEntry
  mp_primary :: NodeId
  mp_replica_peers :: "NodeId list"

record RebalancePlan =
  pl_copies :: "CopyPush list"
  pl_migrates :: "MigratePush list"
  pl_deferred :: nat

fun planStay :: "(NodeId \<Rightarrow> bool) \<Rightarrow> NodeId \<Rightarrow> Key \<Rightarrow> VersionedEntry \<Rightarrow> NodeId list \<Rightarrow> RebalancePlan \<Rightarrow> RebalancePlan" where
  "planStay quarantined self key e [] pl = pl"
| "planStay quarantined self key e (owner # others) pl = planStay quarantined self key e others
     (if owner = self \<or> quarantined owner
      then (if owner \<noteq> self then pl\<lparr>pl_deferred := pl_deferred pl + 1\<rparr> else pl)
      else pl\<lparr>pl_copies := pl_copies pl @ [\<lparr>cp_key = key, cp_entry = e, cp_owner = owner\<rparr>]\<rparr>)"

fun planPeers :: "(NodeId \<Rightarrow> bool) \<Rightarrow> NodeId list \<Rightarrow> NodeId list \<times> nat \<Rightarrow> NodeId list \<times> nat" where
  "planPeers quarantined [] (peers, deferred) = (peers, deferred)"
| "planPeers quarantined (n # ns) (peers, deferred) = planPeers quarantined ns
     (if quarantined n then (peers, deferred + 1) else (peers @ [n], deferred))"

definition planKey :: "(NodeId \<Rightarrow> bool) \<Rightarrow> NodeId \<Rightarrow> NodeId list \<Rightarrow> Key \<times> VersionedEntry \<Rightarrow> RebalancePlan \<Rightarrow> RebalancePlan" where
  "planKey quarantined self desired ke pl =
     (case ke of (key, e) \<Rightarrow>
        case desired of
          [] \<Rightarrow> pl
        | primary # others \<Rightarrow>
            if self \<in> set desired then planStay quarantined self key e desired pl
            else if quarantined primary then pl\<lparr>pl_deferred := pl_deferred pl + 1\<rparr>
            else case planPeers quarantined others ([], pl_deferred pl) of
                   (peers, deferred) \<Rightarrow>
                     pl\<lparr>pl_migrates := pl_migrates pl @ [\<lparr>mp_key = key, mp_entry = e, mp_primary = primary, mp_replica_peers = peers\<rparr>],
                        pl_deferred := deferred\<rparr>)"

fun planAll :: "(Key \<Rightarrow> RingError + NodeId list) \<Rightarrow> (NodeId \<Rightarrow> bool) \<Rightarrow> NodeId \<Rightarrow> (Key \<times> VersionedEntry) list \<Rightarrow> RebalancePlan \<Rightarrow> RingError + RebalancePlan" where
  "planAll desired quarantined self [] pl = Inr pl"
| "planAll desired quarantined self (ke # kes) pl =
     (case desired (fst ke) of
        Inl err \<Rightarrow> Inl err
      | Inr ds \<Rightarrow> planAll desired quarantined self kes (planKey quarantined self ds ke pl))"

section \<open>Sending\<close>

record ShardMgr =
  sm_self :: NodeId
  sm_replica_factor :: int
  sm_quarantine_interval :: int

record Migration =
  mg_key :: Key
  mg_owner :: NodeId
  mg_peers :: "NodeId list"
  mg_acks :: nat
  mg_expected :: nat

definition notAlive :: "MembershipTable \<Rightarrow> NodeId \<Rightarrow> bool" where
  "notAlive table owner = (case mtGet owner table of None \<Rightarrow> False | Some info \<Rightarrow> ni_state info \<noteq> Alive)"

definition pushReplica :: "Clock \<Rightarrow> MembershipTable \<Rightarrow> CopyPush \<Rightarrow> (NodeId \<times> Request) list" where
  "pushReplica ck table p =
     (if notAlive table (cp_owner p) then [] else [(cp_owner p, replicateRequest ck (cp_key p) (cp_entry p))])"

definition migrateKey :: "Clock \<Rightarrow> MembershipTable \<Rightarrow> MigratePush \<Rightarrow> (NodeId \<times> Request) list \<times> Migration list" where
  "migrateKey ck table p =
     (if notAlive table (mp_primary p) then ([], [])
      else (map (\<lambda>peer. (peer, replicateRequest ck (mp_key p) (mp_entry p))) (mp_replica_peers p)
              @ [(mp_primary p, replicateRequest ck (mp_key p) (mp_entry p))],
            [\<lparr>mg_key = mp_key p, mg_owner = mp_primary p, mg_peers = mp_replica_peers p, mg_acks = 0, mg_expected = 1 + length (mp_replica_peers p)\<rparr>]))"

definition desiredOwners :: "(bytes \<Rightarrow> u64) \<Rightarrow> RingSnapshot \<Rightarrow> ShardMgr \<Rightarrow> Key \<Rightarrow> RingError + NodeId list" where
  "desiredOwners xxh snap m key = getNodes xxh key (sm_replica_factor m) snap"

definition inQuarantine :: "Clock \<Rightarrow> MembershipTable \<Rightarrow> ShardMgr \<Rightarrow> NodeId \<Rightarrow> bool" where
  "inQuarantine ck table m owner = isQuarantined owner (ck_now ck) (sm_quarantine_interval m) table"

definition rebalance :: "(bytes \<Rightarrow> u64) \<Rightarrow> RingSnapshot \<Rightarrow> Clock \<Rightarrow> MembershipTable \<Rightarrow> ShardMgr \<Rightarrow> 'p StoreSt \<Rightarrow>
    RingError + (bool \<times> (NodeId \<times> Request) list \<times> Migration list)" where
  "rebalance xxh snap ck table m s =
     (case planAll (desiredOwners xxh snap m) (inQuarantine ck table m) (sm_self m) (storeLiveEntries ck s)
             \<lparr>pl_copies = [], pl_migrates = [], pl_deferred = 0\<rparr> of
        Inl err \<Rightarrow> Inl err
      | Inr pl \<Rightarrow>
          let pushed = concat (map (pushReplica ck table) (pl_copies pl));
              moved = map (migrateKey ck table) (pl_migrates pl)
          in Inr (pl_deferred pl > 0, pushed @ concat (map fst moved), concat (map snd moved)))"

section \<open>Acknowledgements\<close>

datatype MigrationReport = FromPeer nat "unit Result" | FromPrimary "unit Result"

record 'p ShardRun =
  sr_store :: "'p StoreSt"
  sr_migrations :: "Migration list"
  sr_failed :: nat

definition migrationReport :: "'p Policy \<Rightarrow> (Key \<Rightarrow> nat) \<Rightarrow> nat \<times> MigrationReport \<Rightarrow> 'p ShardRun \<Rightarrow> 'p ShardRun" where
  "migrationReport pol h ir st =
     (case ir of (i, report) \<Rightarrow>
        let mg = sr_migrations st ! i; counted = (sr_migrations st)[i := mg\<lparr>mg_acks := mg_acks mg + 1\<rparr>] in
        case report of
          FromPeer j r \<Rightarrow> (case r of Inl e \<Rightarrow> st | Inr _ \<Rightarrow> st\<lparr>sr_migrations := counted\<rparr>)
        | FromPrimary r \<Rightarrow>
            (case r of
               Inl e \<Rightarrow> st\<lparr>sr_failed := sr_failed st + 1\<rparr>
             | Inr _ \<Rightarrow>
                 let st = st\<lparr>sr_migrations := counted\<rparr> in
                 if mg_acks mg + 1 = mg_expected mg then st\<lparr>sr_store := snd (storeRemove pol h (mg_key mg) (sr_store st))\<rparr> else st))"

definition runReports :: "'p Policy \<Rightarrow> (Key \<Rightarrow> nat) \<Rightarrow> (nat \<times> MigrationReport) list \<Rightarrow> Migration list \<Rightarrow> 'p StoreSt \<Rightarrow> 'p ShardRun" where
  "runReports pol h reports migs s = fold (migrationReport pol h) reports \<lparr>sr_store = s, sr_migrations = migs, sr_failed = 0\<rparr>"

section \<open>The plan\<close>

definition copyPushes :: "(NodeId \<Rightarrow> bool) \<Rightarrow> NodeId \<Rightarrow> Key \<Rightarrow> VersionedEntry \<Rightarrow> NodeId list \<Rightarrow> CopyPush list" where
  "copyPushes quarantined self key e ds = map (\<lambda>owner. \<lparr>cp_key = key, cp_entry = e, cp_owner = owner\<rparr>) (filter (\<lambda>owner. owner \<noteq> self \<and> \<not> quarantined owner) ds)"

lemma planStay_spec:
  "planStay quarantined self key e ds pl = pl\<lparr>pl_copies := pl_copies pl @ copyPushes quarantined self key e ds,
     pl_deferred := pl_deferred pl + length (filter (\<lambda>owner. owner \<noteq> self \<and> quarantined owner) ds)\<rparr>"
  by (induction ds arbitrary: pl) (auto simp: copyPushes_def)

lemma planPeers_spec: "planPeers quarantined ns (peers, d) = (peers @ filter (\<lambda>n. \<not> quarantined n) ns, d + length (filter quarantined ns))"
  by (induction ns arbitrary: peers d) auto

text \<open>What one key adds to the plan.\<close>

definition keyCopies :: "(NodeId \<Rightarrow> bool) \<Rightarrow> NodeId \<Rightarrow> NodeId list \<Rightarrow> Key \<times> VersionedEntry \<Rightarrow> CopyPush list" where
  "keyCopies quarantined self ds ke = (if self \<in> set ds then copyPushes quarantined self (fst ke) (snd ke) ds else [])"

definition keyMoves :: "(NodeId \<Rightarrow> bool) \<Rightarrow> NodeId \<Rightarrow> NodeId list \<Rightarrow> Key \<times> VersionedEntry \<Rightarrow> MigratePush list" where
  "keyMoves quarantined self ds ke =
     (if ds = [] \<or> self \<in> set ds \<or> quarantined (hd ds) then []
      else [\<lparr>mp_key = fst ke, mp_entry = snd ke, mp_primary = hd ds, mp_replica_peers = filter (\<lambda>n. \<not> quarantined n) (tl ds)\<rparr>])"

lemma planKey_spec:
  "\<exists>d. planKey quarantined self ds ke pl = pl\<lparr>pl_copies := pl_copies pl @ keyCopies quarantined self ds ke,
      pl_migrates := pl_migrates pl @ keyMoves quarantined self ds ke, pl_deferred := pl_deferred pl + d\<rparr>
     \<and> (d > 0 \<longleftrightarrow> (\<exists>owner \<in> set ds. owner \<noteq> self \<and> quarantined owner))"
proof (cases ds)
  case Nil
  then show ?thesis by (intro exI [of _ 0]) (simp add: planKey_def keyCopies_def keyMoves_def split: prod.split)
next
  case (Cons primary others)
  consider (stay) "self \<in> set ds" | (wait) "self \<notin> set ds" "quarantined primary" | (move) "self \<notin> set ds" "\<not> quarantined primary" by blast
  then show ?thesis
  proof cases
    case stay
    then show ?thesis
      by (intro exI [of _ "length (filter (\<lambda>owner. owner \<noteq> self \<and> quarantined owner) ds)"])
        (auto simp: planKey_def keyCopies_def keyMoves_def planStay_spec Cons filter_empty_conv split: prod.split)
  next
    case wait
    then show ?thesis
      by (intro exI [of _ 1]) (auto simp: planKey_def keyCopies_def keyMoves_def Cons split: prod.split)
  next
    case move
    then show ?thesis
      by (intro exI [of _ "length (filter quarantined others)"])
        (auto simp: planKey_def keyCopies_def keyMoves_def planPeers_spec Cons filter_empty_conv split: prod.split)
  qed
qed

definition ownersOf :: "(Key \<Rightarrow> RingError + NodeId list) \<Rightarrow> Key \<times> VersionedEntry \<Rightarrow> NodeId list" where
  "ownersOf desired ke = (case desired (fst ke) of Inl err \<Rightarrow> [] | Inr ds \<Rightarrow> ds)"

lemma planAll_spec:
  "planAll desired quarantined self kes pl = Inr pl' \<Longrightarrow>
     (\<forall>ke \<in> set kes. \<exists>ds. desired (fst ke) = Inr ds)
     \<and> pl_copies pl' = pl_copies pl @ concat (map (\<lambda>ke. keyCopies quarantined self (ownersOf desired ke) ke) kes)
     \<and> pl_migrates pl' = pl_migrates pl @ concat (map (\<lambda>ke. keyMoves quarantined self (ownersOf desired ke) ke) kes)
     \<and> (pl_deferred pl' > 0 \<longleftrightarrow> pl_deferred pl > 0 \<or> (\<exists>ke \<in> set kes. \<exists>owner \<in> set (ownersOf desired ke). owner \<noteq> self \<and> quarantined owner))"
proof (induction kes arbitrary: pl)
  case (Cons ke kes)
  then obtain ds where ds: "desired (fst ke) = Inr ds" by (auto split: sum.splits)
  obtain d where d: "planKey quarantined self ds ke pl = pl\<lparr>pl_copies := pl_copies pl @ keyCopies quarantined self ds ke,
      pl_migrates := pl_migrates pl @ keyMoves quarantined self ds ke, pl_deferred := pl_deferred pl + d\<rparr>"
    "d > 0 \<longleftrightarrow> (\<exists>owner \<in> set ds. owner \<noteq> self \<and> quarantined owner)" using planKey_spec by blast
  have o: "ownersOf desired ke = ds" by (simp add: ownersOf_def ds)
  show ?case using Cons.IH [OF Cons.prems [unfolded planAll.simps ds sum.case]] ds d(2) by (auto simp: d(1) o)
qed simp

section \<open>Rebalancing\<close>


section \<open>Dropping the local copy\<close>

fun sourceOf :: "MigrationReport \<Rightarrow> nat option" where
  "sourceOf (FromPeer j r) = Some j"
| "sourceOf (FromPrimary r) = None"

fun isAck :: "MigrationReport \<Rightarrow> bool" where
  "isAck (FromPeer j r) \<longleftrightarrow> \<not> isl r"
| "isAck (FromPrimary r) \<longleftrightarrow> \<not> isl r"

definition ackedBy :: "nat \<Rightarrow> (nat \<times> MigrationReport) list \<Rightarrow> nat option set" where
  "ackedBy i reports = {sourceOf r | r. (i, r) \<in> set reports \<and> isAck r}"

text \<open>The transport calls each completion of a migration at most once.\<close>

definition validReports :: "Migration list \<Rightarrow> (nat \<times> MigrationReport) list \<Rightarrow> bool" where
  "validReports migs reports \<longleftrightarrow> distinct (map (map_prod id sourceOf) reports)
     \<and> (\<forall>(i, r) \<in> set reports. i < length migs \<and> (case sourceOf r of None \<Rightarrow> True | Some j \<Rightarrow> j < length (mg_peers (migs ! i))))"

lemma finite_ackedBy [simp]: "finite (ackedBy i reports)"
proof -
  have "ackedBy i reports \<subseteq> (sourceOf \<circ> snd) ` set reports" by (force simp: ackedBy_def)
  then show ?thesis by (rule finite_subset) simp
qed

lemma ackedBy_snoc:
  assumes "validReports migs (reports @ [(i, r)])"
  shows "card (ackedBy j (reports @ [(i, r)])) = card (ackedBy j reports) + (if j = i \<and> isAck r then 1 else 0)"
proof (cases "j = i \<and> isAck r")
  case True
  have "sourceOf r \<notin> ackedBy i reports" using assms by (force simp: validReports_def ackedBy_def)
  moreover have "ackedBy i (reports @ [(i, r)]) = insert (sourceOf r) (ackedBy i reports)" using True by (auto simp: ackedBy_def)
  ultimately show ?thesis using True by simp
next
  case False
  then have "ackedBy j (reports @ [(i, r)]) = ackedBy j reports" by (auto simp: ackedBy_def)
  then show ?thesis using False by auto
qed

lemma validReports_prefix: "validReports migs (reports @ [x]) \<Longrightarrow> validReports migs reports"
  by (simp add: validReports_def)

lemma validReportsD: "validReports migs reports \<Longrightarrow> (i, r) \<in> set reports \<Longrightarrow> Some j = sourceOf r \<Longrightarrow> j < length (mg_peers (migs ! i))"
  by (fastforce simp: validReports_def split: option.splits)

lemma ack_report: "isAck r \<Longrightarrow> r = (case sourceOf r of None \<Rightarrow> FromPrimary (Inr ()) | Some j \<Rightarrow> FromPeer j (Inr ()))"
  by (cases r rule: isAck.cases) (metis (full_types) isAck.simps isl_def obj_sumE old.unit.exhaust option.case sourceOf.simps)+

lemma runReports_snoc: "runReports pol h (reports @ [x]) migs s = migrationReport pol h x (runReports pol h reports migs s)"
  by (simp add: runReports_def)

lemma report_migrations:
  "sr_migrations (migrationReport pol h (i, r) st)
     = (if isAck r then (sr_migrations st)[i := (sr_migrations st ! i)\<lparr>mg_acks := mg_acks (sr_migrations st ! i) + 1\<rparr>] else sr_migrations st)"
  by (cases r) (auto simp: migrationReport_def Let_def split: sum.splits)

lemma report_store:
  "sr_store (migrationReport pol h (i, r) st)
     = (if isAck r \<and> sourceOf r = None \<and> mg_acks (sr_migrations st ! i) + 1 = mg_expected (sr_migrations st ! i)
        then snd (storeRemove pol h (mg_key (sr_migrations st ! i)) (sr_store st)) else sr_store st)"
  by (cases r) (auto simp: migrationReport_def Let_def split: sum.splits)

lemma runReports_tally:
  assumes "validReports migs reports"
  shows "length (sr_migrations (runReports pol h reports migs s)) = length migs
    \<and> (\<forall>i < length migs. sr_migrations (runReports pol h reports migs s) ! i = (migs ! i)\<lparr>mg_acks := mg_acks (migs ! i) + card (ackedBy i reports)\<rparr>)"
  using assms
proof (induction reports rule: rev_induct)
  case Nil
  then show ?case by (simp add: runReports_def ackedBy_def)
next
  case (snoc x reports)
  obtain i r where x: "x = (i, r)" by fastforce
  show ?case
    using snoc.IH [OF validReports_prefix [OF snoc.prems]] ackedBy_snoc [OF snoc.prems [unfolded x]]
    by (auto simp: x runReports_snoc report_migrations nth_list_update)
qed

lemma runReports_keeps:
  assumes pol: "eviction_policy pol pol_ok" and ok: "store_ok pol pol_ok h s" and new: "\<forall>mg \<in> set migs. mg_acks mg = 0"
    and "validReports migs reports"
  shows "store_ok pol pol_ok h (sr_store (runReports pol h reports migs s))
    \<and> (lookup h (sr_store (runReports pol h reports migs s)) k = lookup h s k
       \<or> lookup h (sr_store (runReports pol h reports migs s)) k = None
         \<and> (\<exists>i < length migs. mg_key (migs ! i) = k \<and> mg_expected (migs ! i) \<le> card (ackedBy i reports)))"
  using assms(4)
proof (induction reports rule: rev_induct)
  case Nil
  then show ?case using ok by (simp add: runReports_def)
next
  case (snoc x reports)
  obtain i r where x: "x = (i, r)" by fastforce
  let ?st = "runReports pol h reports migs s"
  note prev = validReports_prefix [OF snoc.prems]
  have i: "i < length migs" using snoc.prems by (simp add: validReports_def x)
  then have mg: "sr_migrations ?st ! i = (migs ! i)\<lparr>mg_acks := card (ackedBy i reports)\<rparr>" using runReports_tally [OF prev, of pol h s] new by simp
  have more: "card (ackedBy j reports) \<le> card (ackedBy j (reports @ [x]))" for j using ackedBy_snoc [OF snoc.prems [unfolded x]] by (simp add: x)
  have ih: "lookup h (sr_store ?st) k = lookup h s k \<or> lookup h (sr_store ?st) k = None
      \<and> (\<exists>i < length migs. mg_key (migs ! i) = k \<and> mg_expected (migs ! i) \<le> card (ackedBy i (reports @ [x])))"
    using snoc.IH [OF prev] by (blast intro: le_trans [OF _ more])
  show ?case
  proof (cases "isAck r \<and> sourceOf r = None \<and> mg_acks (sr_migrations ?st ! i) + 1 = mg_expected (sr_migrations ?st ! i)")
    case False
    then have "sr_store (runReports pol h (reports @ [x]) migs s) = sr_store ?st" unfolding runReports_snoc x report_store by (rule if_not_P)
    then show ?thesis using snoc.IH [OF prev] ih by simp
  next
    case True
    then have st: "sr_store (runReports pol h (reports @ [x]) migs s) = snd (storeRemove pol h (mg_key (migs ! i)) (sr_store ?st))"
      by (simp add: runReports_snoc x report_store mg)
    have rm: "store_ok pol pol_ok h (snd (storeRemove pol h (mg_key (migs ! i)) (sr_store ?st)))"
      "lookup h (snd (storeRemove pol h (mg_key (migs ! i)) (sr_store ?st))) = (lookup h (sr_store ?st))(mg_key (migs ! i) := None)"
      using eviction_policy.storeRemove_correct [OF pol conjunct1 [OF snoc.IH [OF prev]] surjective_pairing] by blast+
    have "mg_expected (migs ! i) \<le> card (ackedBy i (reports @ [x]))" using True ackedBy_snoc [OF snoc.prems [unfolded x], of i] by (simp add: mg x)
    then show ?thesis using ih i rm unfolding st by (cases "mg_key (migs ! i) = k") auto
  qed
qed

lemma rebalance_migrations:
  assumes "rebalance xxh snap ck table m s = Inr (deferred, sends, migs)" "mg \<in> set migs"
  obtains key e ds where "(key, e) \<in> set (storeLiveEntries ck s)" "desiredOwners xxh snap m key = Inr ds" "ds \<noteq> []" "sm_self m \<notin> set ds"
    "\<not> inQuarantine ck table m (hd ds)"
    "mg = \<lparr>mg_key = key, mg_owner = hd ds, mg_peers = filter (\<lambda>n. \<not> inQuarantine ck table m n) (tl ds), mg_acks = 0,
       mg_expected = 1 + length (filter (\<lambda>n. \<not> inQuarantine ck table m n) (tl ds))\<rparr>"
proof -
  obtain pl where pl: "planAll (desiredOwners xxh snap m) (inQuarantine ck table m) (sm_self m) (storeLiveEntries ck s) \<lparr>pl_copies = [], pl_migrates = [], pl_deferred = 0\<rparr> = Inr pl"
    "migs = concat (map (snd \<circ> migrateKey ck table) (pl_migrates pl))"
    using assms(1) by (auto simp: rebalance_def Let_def split: sum.splits)
  note spec = planAll_spec [OF pl(1), simplified]
  obtain p where p: "p \<in> set (pl_migrates pl)" "mg \<in> set (snd (migrateKey ck table p))" using assms(2) pl(2) by auto
  then obtain ke where ke: "ke \<in> set (storeLiveEntries ck s)"
    "p \<in> set (keyMoves (inQuarantine ck table m) (sm_self m) (ownersOf (desiredOwners xxh snap m) ke) ke)" using spec by auto
  then obtain ds where "desiredOwners xxh snap m (fst ke) = Inr ds" "ownersOf (desiredOwners xxh snap m) ke = ds" using spec by (force simp: ownersOf_def)
  then show ?thesis using that [of "fst ke" "snd ke" ds] ke p by (auto simp: keyMoves_def migrateKey_def split: if_splits)
qed

text \<open>
  C22. Rebalancing gives up no copy that another owner may be missing. Whatever reports arrive and in whatever order,
  a key of the store keeps its entry or is gone; it is gone only if this node is not among the key's owners and every
  owner that was not quarantined has acknowledged the key, the primary included. In particular a key this node still
  owns is never dropped.
\<close>

theorem rebalance_keeps_copies:
  assumes pol: "eviction_policy pol pol_ok" and ok: "store_ok pol pol_ok h s"
    and run: "rebalance xxh snap ck table m s = Inr (deferred, sends, migs)" and rep: "validReports migs reports"
  defines "s' \<equiv> sr_store (runReports pol h reports migs s)"
  shows "store_ok pol pol_ok h s' \<and> (lookup h s' k = lookup h s k \<or> lookup h s' k = None
    \<and> (\<exists>ds i. desiredOwners xxh snap m k = Inr ds \<and> sm_self m \<notin> set ds \<and> i < length migs \<and> mg_key (migs ! i) = k
        \<and> (i, FromPrimary (Inr ())) \<in> set reports \<and> mg_owner (migs ! i) = hd ds
        \<and> (\<forall>owner \<in> set (tl ds). \<not> inQuarantine ck table m owner \<longrightarrow> (\<exists>j. (i, FromPeer j (Inr ())) \<in> set reports \<and> mg_peers (migs ! i) ! j = owner))))"
proof -
  have new: "\<forall>mg \<in> set migs. mg_acks mg = 0" by (auto elim: rebalance_migrations [OF run])
  have "\<exists>ds. desiredOwners xxh snap m k = Inr ds \<and> sm_self m \<notin> set ds \<and> (i, FromPrimary (Inr ())) \<in> set reports \<and> mg_owner (migs ! i) = hd ds
      \<and> (\<forall>owner \<in> set (tl ds). \<not> inQuarantine ck table m owner \<longrightarrow> (\<exists>j. (i, FromPeer j (Inr ())) \<in> set reports \<and> mg_peers (migs ! i) ! j = owner))"
    if i: "i < length migs" "mg_key (migs ! i) = k" "mg_expected (migs ! i) \<le> card (ackedBy i reports)" for i
  proof -
    obtain key e ds where ds: "desiredOwners xxh snap m key = Inr ds" "sm_self m \<notin> set ds"
      "migs ! i = \<lparr>mg_key = key, mg_owner = hd ds, mg_peers = filter (\<lambda>n. \<not> inQuarantine ck table m n) (tl ds), mg_acks = 0,
         mg_expected = 1 + length (filter (\<lambda>n. \<not> inQuarantine ck table m n) (tl ds))\<rparr>"
      using rebalance_migrations [OF run nth_mem [OF i(1)]] by metis
    let ?n = "length (mg_peers (migs ! i))"
    have "x \<in> insert None (Some ` {..<?n})" if "x \<in> ackedBy i reports" for x
      using that validReportsD [OF rep] by (cases x) (auto simp: ackedBy_def)
    then have "ackedBy i reports \<subseteq> insert None (Some ` {..<?n})" by blast
    moreover have "card (insert None (Some ` {..<?n})) = Suc ?n" by (simp add: card_image)
    ultimately have all: "ackedBy i reports = insert None (Some ` {..<?n})"
      using i(3) ds(3) by (intro card_seteq) simp_all
    have p: "(i, FromPrimary (Inr ())) \<in> set reports"
    proof -
      have "None \<in> ackedBy i reports" using all by simp
      then obtain r where "(i, r) \<in> set reports" "isAck r" "sourceOf r = None" by (auto simp: ackedBy_def)
      then show ?thesis using ack_report [of r] by simp
    qed
    have q: "(i, FromPeer j (Inr ())) \<in> set reports" if "j < ?n" for j
    proof -
      have "Some j \<in> ackedBy i reports" using all that by simp
      then obtain r where "(i, r) \<in> set reports" "isAck r" "sourceOf r = Some j" by (auto simp: ackedBy_def)
      then show ?thesis using ack_report [of r] by simp
    qed
    have "\<exists>j. (i, FromPeer j (Inr ())) \<in> set reports \<and> mg_peers (migs ! i) ! j = owner"
      if "owner \<in> set (tl ds)" "\<not> inQuarantine ck table m owner" for owner
    proof -
      have "owner \<in> set (mg_peers (migs ! i))" using that ds(3) by simp
      then obtain j where "j < ?n" "mg_peers (migs ! i) ! j = owner" by (auto simp: in_set_conv_nth)
      then show ?thesis using q by blast
    qed
    then show ?thesis using p ds i(2) by auto
  qed
  then show ?thesis unfolding s'_def using runReports_keeps [OF pol ok new rep, of k] by blast
qed

definition demoStore :: "unit StoreSt" where
  "demoStore = snd (storePutVersioned lruPolicy length demoClock ''k'' emptyEntry (newStore () 1000 demoClock))"

definition demoShard :: ShardMgr where
  "demoShard = \<lparr>sm_self = ''a'', sm_replica_factor = 1, sm_quarantine_interval = 0\<rparr>"

lemma emptyEntry_flags: "\<not> hasTtl emptyEntry" "\<not> isTombstone emptyEntry"
  by (simp_all add: hasTtl_def isTombstone_def emptyEntry_def)

lemma demoStore_live: "storeLiveEntries demoClock demoStore = [(''k'', emptyEntry)]"
proof -
  have "shards (newStore () 1000 demoClock) = [newShard () 0]" "capOf (newStore () 1000 demoClock) = 1000"
    by (simp_all add: newStore_def shardCountFor_def K_MIN_SHARD_BYTES_def K_MAX_SHARDS_def capOf_def shardCapacity_def demoClock_def)
  then show ?thesis
    by (simp add: demoStore_def storePutVersioned_def storePutVersionedAt_def withShard_def shardFor_def putVersionedAt_def putNew_def lruPolicy_def
        lruInsertNew_def evictIfNeeded_def noteAdded_def updateWheelAt_def writeWal_def storeLiveEntries_def shardLive_def isExpired_def emptyEntry_flags Let_def
        split: prod.split)
qed

lemma demo_rebalance:
  "rebalance demoHash (snapshot ringAB) demoClock (newMembershipTable ''a'') demoShard demoStore
     = Inr (False, [(''b'', replicateRequest demoClock ''k'' emptyEntry)], [\<lparr>mg_key = ''k'', mg_owner = ''b'', mg_peers = [], mg_acks = 0, mg_expected = 1\<rparr>])"
proof -
  have "desiredOwners demoHash (snapshot ringAB) demoShard ''k'' = Inr [''b'']"
    by (simp add: desiredOwners_def demoShard_def getNodes_def K_MAX_REPLICAS_def ringAB_def startIndex_def lowerBound_def hashKey_def demoHash_def)
  then show ?thesis
    by (simp add: rebalance_def demoStore_live planKey_def inQuarantine_def isQuarantined_def notAlive_def newMembershipTable_def mtPut_def migrateKey_def demoShard_def)
qed


theorem rebalance_keeps_copies_witness:
  "\<exists>sends migs. rebalance demoHash (snapshot ringAB) demoClock (newMembershipTable ''a'') demoShard demoStore = Inr (False, sends, migs)
    \<and> validReports migs [(0, FromPrimary (Inr ()))]
    \<and> store_ok lruPolicy lru_ok length (sr_store (runReports lruPolicy length [(0, FromPrimary (Inr ()))] migs demoStore))"
proof -
  have ok: "store_ok lruPolicy lru_ok length demoStore"
    using eviction_policy.storePutVersionedAt_correct [OF lru.eviction_policy_axioms emptyStore_ok surjective_pairing]
    unfolding demoStore_def storePutVersioned_def Let_def by blast
  have "validReports [\<lparr>mg_key = ''k'', mg_owner = ''b'', mg_peers = [], mg_acks = 0, mg_expected = 1\<rparr>] [(0, FromPrimary (Inr ()))]"
    by (simp add: validReports_def)
  from rebalance_keeps_copies [OF lru.eviction_policy_axioms ok demo_rebalance this] this demo_rebalance show ?thesis by blast
qed

end
