(* ===== verification/Auth.thy ===== *)
theory Auth
  imports Digits
begin

unbundle bit_operations_syntax

text \<open>
  Authentication tokens (\<open>src/common/hmac.cpp\<close>, the build with cryptography). HMAC-SHA256 of OpenSSL is the parameter
  \<open>hmac\<close>, which gives the digest of a key and a message; \<open>std::time\<close> is an argument. The hypotheses on \<open>hmac\<close> are that digests have
  32 bytes and that the finitely many messages in question do not collide.
\<close>

section \<open>Model\<close>

fun diffBytes :: "u8 \<Rightarrow> bytes \<Rightarrow> bytes \<Rightarrow> u8" where
  "diffBytes diff (x # xs) (y # ys) = diffBytes (diff OR (of_nat (of_char x) XOR of_nat (of_char y))) xs ys"
| "diffBytes diff _ _ = diff"

definition constantTimeEqual :: "bytes \<Rightarrow> bytes \<Rightarrow> bool" where
  "constantTimeEqual a b \<longleftrightarrow> (if length a \<noteq> length b then False else diffBytes 0 a b = 0)"

definition K_CLIENT_AUTH_DOMAIN :: string where
  "K_CLIENT_AUTH_DOMAIN = ''cinder-client-v1''"

definition authMessage :: "NodeId \<Rightarrow> u64 \<Rightarrow> bytes" where
  "authMessage node_id ts = node_id @ '':'' @ decimal (unat ts)"

definition generateAuthToken :: "(bytes \<Rightarrow> bytes \<Rightarrow> bytes) \<Rightarrow> u64 \<Rightarrow> string \<Rightarrow> NodeId \<Rightarrow> bytes" where
  "generateAuthToken hmac time secret node_id =
     (if secret = [] then [] else hmac secret (authMessage node_id (time div 10)))"

definition verifyAuthToken :: "(bytes \<Rightarrow> bytes \<Rightarrow> bytes) \<Rightarrow> u64 \<Rightarrow> nat \<Rightarrow> string \<Rightarrow> NodeId \<Rightarrow> bytes \<Rightarrow> bool" where
  "verifyAuthToken hmac now window_seconds secret node_id token \<longleftrightarrow>
     (if secret = [] \<or> token = [] then False
      else if length token \<noteq> 32 then False
      else list_ex (\<lambda>i. constantTimeEqual token (hmac secret (authMessage node_id (now div 10 - of_nat i)))) [0..<window_seconds div 10 + 1 + 1])"

definition generateClientAuthToken :: "(bytes \<Rightarrow> bytes \<Rightarrow> bytes) \<Rightarrow> string \<Rightarrow> bytes" where
  "generateClientAuthToken hmac secret = (if secret = [] then [] else hmac secret K_CLIENT_AUTH_DOMAIN)"

definition verifyClientAuthToken :: "(bytes \<Rightarrow> bytes \<Rightarrow> bytes) \<Rightarrow> string \<Rightarrow> bytes \<Rightarrow> bool" where
  "verifyClientAuthToken hmac secret token \<longleftrightarrow>
     (if secret = [] \<or> length token \<noteq> 32 then False else constantTimeEqual token (hmac secret K_CLIENT_AUTH_DOMAIN))"

section \<open>Comparison\<close>

lemma of_char_inject_u8: "(of_nat (of_char x) :: u8) = of_nat (of_char y) \<longleftrightarrow> x = y"
proof
  assume "(of_nat (of_char x) :: u8) = of_nat (of_char y)"
  then have "unat (of_nat (of_char x) :: u8) = unat (of_nat (of_char y) :: u8)" by simp
  moreover have "of_char z < (256 :: nat)" for z by simp
  ultimately show "x = y" by (simp add: unat_of_nat)
qed simp

lemma word_xor_zero: "(a :: u8) XOR b = 0 \<longleftrightarrow> a = b"
  by (metis bit.xor_left_self bit.xor_self xor.right_neutral)

lemma diffBytes_zero: "length a = length b \<Longrightarrow> diffBytes d a b = 0 \<longleftrightarrow> d = 0 \<and> a = b"
  by (induction d a b rule: diffBytes.induct) (auto simp: or_eq_0_iff word_xor_zero of_char_inject_u8)

text \<open>The comparison that looks at every byte decides equality.\<close>

lemma constantTimeEqual_iff: "constantTimeEqual a b \<longleftrightarrow> a = b"
  using diffBytes_zero by (auto simp: constantTimeEqual_def)

section \<open>Tokens\<close>

lemma authMessage_inject: "authMessage a s = authMessage b t \<longleftrightarrow> a = b \<and> s = t"
proof
  assume eq: "authMessage a s = authMessage b t"
  have colon: "CHR '':'' \<notin> set (rev (decimal n))" for n using decimal_free [of "CHR '':''" n] by (simp add: isDigit_def)
  have "takeWhile (\<lambda>x. x \<noteq> CHR '':'') (rev (authMessage c u)) = rev (decimal (unat u))" for c u
    unfolding authMessage_def rev_append by (simp add: takeWhile_until [OF colon])
  from this [of a s] this [of b t] have "decimal (unat s) = decimal (unat t)" unfolding eq by simp
  then have "unat s = unat t" using digitsValue_decimal by metis
  then show "a = b \<and> s = t" using eq by (simp add: authMessage_def word_unat_eq_iff)
qed simp

lemma windows_iff: "list_ex P [0..<n + 1 + 1] \<longleftrightarrow> (\<exists>i \<le> n + 1. P i)"
  by (auto simp: list_ex_iff less_Suc_eq_le simp del: upt_Suc)

definition authMessages :: "u64 \<Rightarrow> u64 \<Rightarrow> nat \<Rightarrow> NodeId set \<Rightarrow> bytes set" where
  "authMessages time now window_seconds ids =
     {authMessage nid w | nid w. nid \<in> ids \<and> (w = time div 10 \<or> (\<exists>i \<le> window_seconds div 10 + 1. w = now div 10 - of_nat i))}"

text \<open>
  C24. What a node token proves. A token is accepted exactly if it was made for the name it is checked against, in the current
  ten-second window or one of the \<open>window_seconds / 10 + 1\<close> windows before it. In particular a token made for any other
  node name is refused.
\<close>

theorem auth_token_window:
  assumes "secret \<noteq> []" "\<forall>m. length (hmac secret m) = 32" "inj_on (hmac secret) (authMessages time now window_seconds {sender, node})"
  shows "verifyAuthToken hmac now window_seconds secret node (generateAuthToken hmac time secret sender)
    \<longleftrightarrow> sender = node \<and> (\<exists>i \<le> window_seconds div 10 + 1. time div 10 = now div 10 - of_nat i)"
proof -
  have eq: "hmac secret (authMessage sender (time div 10)) = hmac secret (authMessage node (now div 10 - of_nat i))
      \<longleftrightarrow> sender = node \<and> time div 10 = now div 10 - of_nat i" if "i \<le> window_seconds div 10 + 1" for i
  proof -
    have "authMessage sender (time div 10) \<in> authMessages time now window_seconds {sender, node}" unfolding authMessages_def by blast
    moreover have "authMessage node (now div 10 - of_nat i) \<in> authMessages time now window_seconds {sender, node}" unfolding authMessages_def using that by blast
    ultimately show ?thesis by (simp add: inj_on_eq_iff [OF assms(3)] authMessage_inject)
  qed
  have ne: "hmac secret m \<noteq> []" for m
  proof
    assume "hmac secret m = []"
    then show False using assms(2) spec [OF assms(2), of m] by simp
  qed
  have "verifyAuthToken hmac now window_seconds secret node (generateAuthToken hmac time secret sender)
      \<longleftrightarrow> (\<exists>i \<le> window_seconds div 10 + 1. hmac secret (authMessage sender (time div 10)) = hmac secret (authMessage node (now div 10 - of_nat i)))"
    unfolding verifyAuthToken_def windows_iff generateAuthToken_def constantTimeEqual_iff using assms(1,2) ne by simp
  then show ?thesis using eq by auto
qed

definition demoHmac :: "bytes \<Rightarrow> bytes \<Rightarrow> bytes" where
  "demoHmac key m = take 32 (m @ replicate 32 (CHR ''#''))"

lemma demoHmac_inj: "(\<And>m. m \<in> M \<Longrightarrow> length m \<le> 32 \<and> CHR ''#'' \<notin> set m) \<Longrightarrow> inj_on (demoHmac key) M"
proof (rule inj_onI)
  fix x y assume M: "\<And>m. m \<in> M \<Longrightarrow> length m \<le> 32 \<and> CHR ''#'' \<notin> set m" and xy: "x \<in> M" "y \<in> M" "demoHmac key x = demoHmac key y"
  have "takeWhile (\<lambda>c. c \<noteq> CHR ''#'') (demoHmac key m) = m" if "m \<in> M" for m
  proof -
    have "takeWhile (\<lambda>c. c \<noteq> CHR ''#'') (m @ replicate n (CHR ''#'')) = m" for n
      using M [OF that] by (subst takeWhile_append2) (auto simp: takeWhile_replicate)
    then show ?thesis using M [OF that] by (simp add: demoHmac_def)
  qed
  then show "x = y" using xy by metis
qed

lemma decimal_length: "n < 10 ^ k \<Longrightarrow> 0 < k \<Longrightarrow> length (decimal n) \<le> k"
proof (induction k arbitrary: n)
  case (Suc k)
  show ?case
  proof (cases "n < 10")
    case True
    then show ?thesis by (simp add: decimal.simps [of n])
  next
    case False
    then have "n div 10 < 10 ^ k" "0 < k" using Suc.prems by (cases k; auto)+
    then show ?thesis using Suc.IH [of "n div 10"] False by (simp add: decimal.simps [of n])
  qed
qed simp

theorem auth_token_window_witness:
  "verifyAuthToken demoHmac 1000 30 ''s'' ''a'' (generateAuthToken demoHmac 970 ''s'' ''a'')
   \<and> \<not> verifyAuthToken demoHmac 1000 30 ''s'' ''b'' (generateAuthToken demoHmac 970 ''s'' ''a'')"
proof -
  have u: "unat w < 10 ^ 20" for w :: u64 by (rule less_trans [OF unat_lt_u64]) simp
  have "length m \<le> 32 \<and> CHR ''#'' \<notin> set m" if m: "m \<in> authMessages time now window_seconds {''a'', x}" "x \<in> {''a'', ''b''}" for m time now window_seconds x
  proof -
    obtain nid w where "m = authMessage nid w" "nid \<in> {''a'', ''b''}" using m by (auto simp: authMessages_def)
    then show ?thesis using decimal_length [OF u, of w] decimal_free [of "CHR ''#''" "unat w"] by (auto simp: authMessage_def isDigit_def)
  qed
  then have inj: "inj_on (demoHmac key) (authMessages time now window_seconds {''a'', x})" if "x \<in> {''a'', ''b''}" for key time now window_seconds x
    using that by (intro demoHmac_inj) blast
  have len: "\<forall>m. length (demoHmac ''s'' m) = 32" by (simp add: demoHmac_def min_def)
  have "\<exists>i \<le> 30 div 10 + 1. (970 :: u64) div 10 = 1000 div 10 - of_nat i" by (rule exI [of _ 3]) simp
  then show ?thesis
    using auth_token_window [of "''s''" demoHmac 970 1000 30 "''a''" "''a''"] auth_token_window [of "''s''" demoHmac 970 1000 30 "''a''" "''b''"]
      len inj [of "''a''"] inj [of "''b''"] by simp
qed

end
