(* ===== verification/Spec2Isabelle.thy ===== *)
theory Spec2Isabelle
  imports ShardManager Auth
begin

text \<open>
  Verification development for Cinder, a distributed in-memory cache in C++ (\<open>src/\<close>).

  A node keeps entries in a sharded store (\<open>store/\<close>), reaps expired ones with a timer wheel, logs
  writes to a write-ahead log, and speaks a length-prefixed binary protocol (\<open>net/protocol\<close>). Keys are
  routed to nodes by a consistent-hash ring (\<open>hashing/\<close>), which follows the membership table that gossip and
  the failure detector maintain (\<open>cluster/\<close>). Writes and reads are sent to the replicas of a key
  (\<open>node/replication_manager\<close>); a replica that misses a write gets a hint, queued and journalled until it can be
  delivered (\<open>node/hint_queue\<close>, \<open>node/hint_journal\<close>); a change of the ring moves keys to their new owners
  (\<open>node/shard_manager\<close>). Replicas agree on the winner of concurrent writes by the last-writer-wins order on
  (version, writer, tombstone).

  \<^bold>\<open>Conventions.\<close> Byte strings are \<open>char list\<close>; fixed-width integers are words; \<open>size_t\<close> counters are
  \<open>nat\<close> unless their wrap-around matters; time points are \<open>int\<close> nanoseconds. A fallible operation returns
  \<open>Error + 'a\<close>. Operations that read a clock take one sample of it (\<open>Clock\<close>: steady and system time). A
  mutex-protected section or a compare-and-swap loop is one function from state to state. A message that is sent and a
  callback that is called are returned values; what the transport reports back is a sequence of
  reports in any order, and the properties quantify over it.

  \<^bold>\<open>Theories.\<close>
  \<^item> \<open>Prelude\<close>: names of the basic types, shared lemmas on lists, words and options.
  \<^item> \<open>CinderTypes\<close> (\<open>common/types.hpp\<close>, \<open>common/status.hpp\<close>): error values, the packed version word, the
    last-writer-wins comparison. It is a linear order, so replicas that see the same writes converge.
  \<^item> \<open>Clocks\<close> (\<open>cluster/clock.hpp\<close>): conversions between steady and system time.
  \<^item> \<open>Bytes\<close> (\<open>net/byte_reader.hpp\<close>, \<open>net/byte_writer.hpp\<close>, \<open>store/detail/io_utils.hpp\<close>): readers, writers,
    and the loop over short writes; reading what was written gives it back.
  \<^item> \<open>Protocol\<close> (\<open>net/protocol\<close>): frame parser, encoders and decoders of requests and responses; round
    trips in both directions and exact sizes.
  \<^item> \<open>TtlWheel\<close> (\<open>store/ttl_wheel.hpp\<close>): slots, the heap for long time-outs with its back pointers, the
    tick with its callback. The wheel refines a schedule (a map from node to remaining ticks) and fires
    every node exactly when its ticks have passed.
  \<^item> \<open>Wal\<close> (\<open>store/wal\<close>): record codec, writer, reader and replay, with files as byte lists and a crash as
    a prefix of the written bytes. Replay after a crash yields a prefix of the logged records.
  \<^item> \<open>Store\<close> (\<open>store/detail/eviction_store_base.hpp\<close>): the operations of one shard over a policy, a
    record with the hooks the two stores override. \<open>StoreContract\<close> holds the locale \<open>eviction_policy\<close>
    (what a policy promises) and the correctness of every shard operation for any such policy.
  \<^item> \<open>LruStore\<close>, \<open>LfuStore\<close> (\<open>store/lru_store\<close>, \<open>store/lfu_store\<close>): the two policies, their
    interpretations of the locale, and the order in which they evict.
  \<^item> \<open>EvictionStore\<close>, \<open>StoreProps\<close>: the sharded store with its global counters, the states that calls can
    reach, and the properties clients see (byte accounting, last writer wins, deletes stick, the sweep is
    invisible, a local write after an observed one wins).
  \<^item> \<open>HashRing\<close>, \<open>RingProps\<close> (\<open>hashing/consistent_hash_ring\<close>): the ring and its membership changes, the
    preference list of a key, and the properties of routing.
  \<^item> \<open>Digits\<close> (\<open>common/parse.hpp\<close> and the string functions it uses): decimal numbers and peer addresses.
  \<^item> \<open>Membership\<close>, \<open>Gossip\<close>, \<open>FailureDetector\<close> (\<open>cluster/membership\<close>, \<open>cluster/gossip\<close>,
    \<open>cluster/failure_detector\<close>): the table with its merge rule, the gossip codec and handler, and the probe
    state machine. \<open>ClusterNode\<close> composes them with the ring through the change observers: the view invariant, the
    ring following the table, refutation of a rumour, and the death of a silent peer.
  \<^item> \<open>Fanout\<close> (\<open>node/fanout.hpp\<close>): the drain of a fan-out, and the locale \<open>fan_out_client\<close> for what its users
    promise; a client's completion fires exactly once. Its interpretations are the write quorum, the
    read quorum and the replay of hints.
  \<^item> \<open>HintQueue\<close> (\<open>node/hint_queue.hpp\<close>): the slot array with its queue and free list, as the code links
    them. Every sequence of calls refines a bounded first-in-first-out specification, and a stale handle removes nothing.
  \<^item> \<open>HintJournal\<close> (\<open>node/hint_journal\<close>): record codec, recovery, appends and compaction on a file with an
    offset; what recovery rebuilds from any prefix, and two ways in which later appends are lost.
  \<^item> \<open>Replication\<close>, \<open>ReplicationManager\<close> (\<open>node/read_quorum.hpp\<close>, \<open>node/replication_manager\<close>): the two
    reducers and their decisions, the meeting of read and write quorums, the table of coalesced reads under every
    interleaving, and the manager that puts store, queue and journal together; replay removes what was delivered.
  \<^item> \<open>ShardManager\<close> (\<open>node/shard_manager\<close>): the plan of a rebalance, its messages, and the tally that drops a
    local copy; what is sent, and that no copy is dropped before the owners outside quarantine have it.
  \<^item> \<open>Auth\<close> (\<open>common/hmac\<close>): node and client tokens and their comparison; which tokens are accepted.

  \<^bold>\<open>Fuel and bounds.\<close> The eviction loop runs at most once per list node, since each round but the last
  removes one; the ring walks run at most once around. These bounds are the loops' own exit conditions, and
  the lemmas show that they are never what stops the loop early. The tick of the wheel returns an option;
  that it returns a value is proved. The loops over the linked slots of the hint queue are partial functions into
  an option, where no value means that the loop runs forever or leaves the array; on every reachable queue they return.

  \<^bold>\<open>Parameters.\<close> XXH3, \<open>std::hash\<close>, the unstable \<open>std::ranges::sort\<close>, floating-point load bounds, HMAC-SHA256,
  \<open>sizeof\<close> of a hint and the results of system calls are arguments, with what is used of them as named hypotheses.

  \<^bold>\<open>Not modelled.\<close> Socket and TLS input/output and the request dispatch that runs on it (\<open>net/tcp\<close>), the client and
  its connection pool, the gRPC adapters, command-line tools, metrics, tracing and the slab allocator: they are input and
  output, generated adapters or observation. The node server (\<open>node/cache_node_server\<close>) is wiring, timers and
  configuration. Anti-entropy (\<open>node/anti_entropy\<close>), snapshots and the persistence manager
  (\<open>store/snapshot\<close>, \<open>store/persistence\<close>) are not covered beyond the replay of the log. Memory ordering and
  data races are outside the model, since every operation is atomic here.
\<close>

end
